(* ===== verification/Prelude.thy ===== *)
theory Prelude
  imports Main "HOL-Library.Word"
begin

text \<open>
  Shared vocabulary of the development: the failures a C++ operation can have, the result type
  that carries them, checked access to arrays and checked arithmetic on \<open>int\<close>, and the lemmas
  on words, lists and maps that several components use.

  A C++ object is a \<^theory_text>\<open>record\<close>, a member function that changes it takes the record and
  returns the changed one, a \<open>size_t\<close> or \<open>uint64_t\<close> is a 64-bit word whose arithmetic wraps,
  and a C++ \<open>int\<close> is an \<open>int\<close> whose arithmetic is checked, because its overflow is undefined
  behaviour.  Undefined behaviour and exceptions are both values: the left summand of \<open>'a res\<close>.
\<close>

unbundle bit_operations_syntax

subsection \<open>Failures and results\<close>

text \<open>
  \<open>Throw msg\<close> is a C++ exception with its message; \<open>UB k\<close> is undefined behaviour of kind
  \<open>k\<close>, after which nothing is promised; \<open>Diverges\<close> is a loop that never ends.
\<close>

datatype ub = OutOfBounds | SignedOverflow | EmptyContainer | NullPointer | DanglingPointer | NoObject | DivisionByZero

datatype fault = Throw string | UB ub | Diverges

type_synonym 'a res = "fault + 'a"
type_synonym u64 = "64 word"
type_synonym u32 = "32 word"

definition bind_res :: "'a res \<Rightarrow> ('a \<Rightarrow> 'b res) \<Rightarrow> 'b res" where
  "bind_res m f = (case m of Inl e \<Rightarrow> Inl e | Inr x \<Rightarrow> f x)"

lemma bind_res_simps [simp]:
  "bind_res (Inl e) f = Inl e"
  "bind_res (Inr x) f = f x"
  by (simp_all add: bind_res_def)

lemma bind_res_Inr_iff: "bind_res m f = Inr y \<longleftrightarrow> (\<exists>x. m = Inr x \<and> f x = Inr y)"
  by (cases m) simp_all

lemma bind_res_InrE [elim!]:
  assumes "bind_res m f = Inr y"
  obtains x where "m = Inr x" and "f x = Inr y"
  using assms by (auto simp: bind_res_Inr_iff)

text \<open>For evaluation: the continuation is simplified only once its argument is known.\<close>

lemma bind_res_weak_cong: "m = m' \<Longrightarrow> bind_res m f = bind_res m' f"
  by simp

subsection \<open>Checked arrays and checked signed arithmetic\<close>

definition int_min :: int where "int_min = - (2 ^ 31)"
definition int_max :: int where "int_max = 2 ^ 31 - 1"

definition c_int :: "int \<Rightarrow> int res" where
  "c_int x = (if int_min \<le> x \<and> x \<le> int_max then Inr x else Inl (UB SignedOverflow))"

text \<open>The collection that evaluates checked arithmetic on concrete numbers.\<close>

named_theorems c_int_eval

declare c_int_def [c_int_eval] int_min_def [c_int_eval] int_max_def [c_int_eval]

lemma c_int_Inr_iff [simp]: "c_int x = Inr y \<longleftrightarrow> y = x \<and> int_min \<le> x \<and> x \<le> int_max"
  by (auto simp: c_int_def)

lemma c_int_ok: "int_min \<le> x \<Longrightarrow> x \<le> int_max \<Longrightarrow> c_int x = Inr x"
  by simp

definition array_get :: "'a list \<Rightarrow> int \<Rightarrow> 'a res" where
  "array_get xs i = (if 0 \<le> i \<and> i < int (length xs) then Inr (xs ! nat i) else Inl (UB OutOfBounds))"

definition array_set :: "'a list \<Rightarrow> int \<Rightarrow> 'a \<Rightarrow> 'a list res" where
  "array_set xs i v = (if 0 \<le> i \<and> i < int (length xs) then Inr (xs[nat i := v]) else Inl (UB OutOfBounds))"

lemma array_get_Inr_iff [simp]:
  "array_get xs i = Inr v \<longleftrightarrow> 0 \<le> i \<and> i < int (length xs) \<and> v = xs ! nat i"
  by (auto simp: array_get_def)

lemma array_set_Inr_iff [simp]:
  "array_set xs i v = Inr ys \<longleftrightarrow> 0 \<le> i \<and> i < int (length xs) \<and> ys = xs[nat i := v]"
  by (auto simp: array_set_def)

lemma array_get_nat [simp]: "i < length xs \<Longrightarrow> array_get xs (int i) = Inr (xs ! i)"
  by simp

lemma array_set_nat [simp]: "i < length xs \<Longrightarrow> array_set xs (int i) v = Inr (xs[i := v])"
  by simp

lemma option_eqI: "(\<And>w. a = Some w \<longleftrightarrow> b = Some w) \<Longrightarrow> a = b"
  by (metis not_Some_eq)

subsection \<open>Powers of two as masks on 64-bit words\<close>

text \<open>
  The containers of the program reduce a 64-bit hash or counter with \<open>& (capacity - 1)\<close>.  For a
  power of two this is the remainder, and it stays the remainder when the counter wraps, because
  the capacity divides \<open>2 ^ 64\<close>.
\<close>

definition pow2_capacity :: "u64 \<Rightarrow> bool" where
  "pow2_capacity c \<longleftrightarrow> c \<noteq> 0 \<and> c AND (c - 1) = 0"

lemma unat_and_mask:
  assumes "k \<le> 64"
  shows "unat ((w :: u64) AND (2 ^ k - 1)) = unat w mod 2 ^ k"
proof -
  have "w AND (2 ^ k - 1) = take_bit k w"
    by (simp only: take_bit_eq_mask mask_eq_exp_minus_1)
  then show ?thesis
    by (metis take_bit_eq_mod unsigned_take_bit_eq)
qed

lemma unat_pow2:
  assumes "k < 64"
  shows "unat (2 ^ k :: u64) = 2 ^ k"
proof -
  have "(2 ^ k :: u64) = of_nat (2 ^ k)" by simp
  then have "unat (2 ^ k :: u64) = take_bit 64 (2 ^ k)"
    by (simp only: unsigned_of_nat) simp
  also have "\<dots> = 2 ^ k"
    using assms by (intro take_bit_nat_eq_self power_strict_increasing) auto
  finally show ?thesis .
qed

lemma bit_unat_u64: "k < 64 \<Longrightarrow> bit (c :: u64) k \<longleftrightarrow> odd (unat c div 2 ^ k)"
  by (simp add: bit_unsigned_iff flip: bit_iff_odd)

lemma unat_u64_less: "unat (w :: u64) < 2 ^ 64"
proof -
  have "unat w < 2 ^ LENGTH(64)" by (rule unsigned_less)
  then show ?thesis by simp
qed

lemma pow2_capacityE:
  assumes "pow2_capacity c"
  obtains k where "k < 64" and "c = 2 ^ k"
proof -
  define n where "n = unat c"
  have n0: "1 \<le> n" and cz: "c AND (c - 1) = 0"
    using assms by (auto simp: n_def pow2_capacity_def unat_gt_0 Suc_le_eq)
  obtain k where lo: "2 ^ k \<le> n" and hi: "n < 2 ^ (k + 1)"
    using ex_power_ivl1 [of 2 n] n0 by auto
  have "n < 2 ^ 64"
    unfolding n_def by (rule unat_u64_less)
  with lo have k: "k < 64"
    by (metis leD le_less_trans power_increasing_iff one_less_numeral_iff semiring_norm(76) linorder_not_le)
  have "n = 2 ^ k"
  proof (rule ccontr)
    assume "n \<noteq> 2 ^ k"
    with lo have lo': "2 ^ k \<le> n - 1" by simp
    have "unat (c - 1) = n - 1"
      using n0 by (simp add: n_def unat_sub word_le_nat_alt)
    moreover have "n div 2 ^ k = 1" and "(n - 1) div 2 ^ k = 1"
      using lo lo' hi by (auto intro!: div_nat_eqI)
    ultimately have "bit c k" and "bit (c - 1) k"
      using k by (simp_all add: bit_unat_u64 n_def)
    then have "bit (c AND (c - 1)) k" by (simp add: bit_and_iff)
    with cz show False by simp
  qed
  then have "c = 2 ^ k"
    using k by (metis n_def unat_pow2 word_unat_eq_iff)
  with k show thesis by (rule that)
qed

lemma mod_pow2_add_wrap:
  assumes "k \<le> 64"
  shows "unat (a + b :: u64) mod 2 ^ k = (unat a + unat b) mod 2 ^ k"
proof -
  have dvd: "(2 :: nat) ^ k dvd 2 ^ 64"
    using assms by (rule le_imp_power_dvd)
  show ?thesis
    using mod_mod_cancel [OF dvd, of "unat a + unat b"] by (simp add: unat_word_ariths)
qed

lemma unat_plus_one:
  assumes "unat (w :: u64) < 2 ^ 64 - 1"
  shows "unat (w + 1) = Suc (unat w)"
  using assms by (simp add: unat_word_ariths)

lemma unat_small: "n < 2 ^ 64 \<Longrightarrow> unat (of_nat n :: u64) = n"
  by (simp add: unsigned_of_nat take_bit_nat_eq_self)

lemma unat_minus_one_pos:
  assumes "0 < unat (w :: u64)"
  shows "unat (w - 1) = unat w - 1"
  using assms by (metis unat_minus_one unat_0 less_irrefl)


end
