(* ===== verification/Ring.thy ===== *)
theory Ring
  imports Prelude
begin

text \<open>
  Cyclic buffers.  The queues, the free-slot ring and the market-data buffer of the program all keep
  a window of an array that starts at a counter and wraps at the end of the array.
  \<open>ring_read buf h n\<close> is that window: the \<open>n\<close> cells from counter \<open>h\<close> on.
\<close>

definition ring_read :: "'a list \<Rightarrow> nat \<Rightarrow> nat \<Rightarrow> 'a list" where
  "ring_read buf h n = map (\<lambda>i. buf ! ((h + i) mod length buf)) [0..<n]"

lemma length_ring_read [simp]: "length (ring_read buf h n) = n"
  by (simp add: ring_read_def)

lemma ring_read_0 [simp]: "ring_read buf h 0 = []"
  by (simp add: ring_read_def)

lemma ring_read_Nil_iff [simp]: "ring_read buf h n = [] \<longleftrightarrow> n = 0"
  by (simp add: ring_read_def)

lemma nth_ring_read: "i < n \<Longrightarrow> ring_read buf h n ! i = buf ! ((h + i) mod length buf)"
  by (simp add: ring_read_def)

lemma ring_read_mod [simp]: "ring_read buf (h mod length buf) n = ring_read buf h n"
  by (simp add: ring_read_def mod_add_left_eq)

lemma ring_read_mod_eq:
  "h mod length buf = h' mod length buf \<Longrightarrow> ring_read buf h n = ring_read buf h' n"
  using ring_read_mod by metis

text \<open>Distinct offsets below the capacity are distinct cells.\<close>

lemma ring_slot_inj:
  assumes "(h + i) mod c = (h + j) mod c" and "i < c" and "j < (c :: nat)"
  shows "i = j"
proof -
  have le: "i' = j'" if "i' \<le> j'" "j' < c" "(h + i') mod c = (h + j') mod c" for i' j' :: nat
  proof -
    have "c dvd (h + j') - (h + i')"
      using that by (metis mod_eq_dvd_iff_nat add_le_cancel_left)
    with that show ?thesis by (auto dest: dvd_imp_le)
  qed
  show ?thesis
    using assms le [of i j] le [of j i] by (cases "i \<le> j") auto
qed

lemma ring_read_Suc: "ring_read buf h (Suc n) = ring_read buf h n @ [buf ! ((h + n) mod length buf)]"
  by (simp add: ring_read_def)

lemma ring_read_Cons:
  "ring_read buf h (Suc n) = buf ! (h mod length buf) # ring_read buf (Suc h) n"
  by (rule nth_equalityI) (auto simp: nth_ring_read nth_Cons split: nat.split)

lemma ring_read_update_other:
  assumes "n \<le> m" and "m < length buf"
  shows "ring_read (buf[(h + m) mod length buf := x]) h n = ring_read buf h n"
proof (rule nth_equalityI)
  fix i assume "i < length (ring_read (buf[(h + m) mod length buf := x]) h n)"
  then have "i < n" by simp
  moreover from this have "(h + m) mod length buf \<noteq> (h + i) mod length buf"
    using ring_slot_inj [of h m "length buf" i] assms by auto
  ultimately show "ring_read (buf[(h + m) mod length buf := x]) h n ! i = ring_read buf h n ! i"
    by (simp add: nth_ring_read)
qed simp

text \<open>Writing the first cell after the window and widening the window appends.\<close>

lemma ring_read_push:
  assumes "n < length buf"
  shows "ring_read (buf[(h + n) mod length buf := x]) h (Suc n) = ring_read buf h n @ [x]"
proof -
  have "(h + n) mod length buf < length buf"
    using assms by (intro mod_less_divisor) linarith
  then show ?thesis
    using assms by (simp add: ring_read_Suc ring_read_update_other)
qed

text \<open>Advancing the start drops the oldest cell.\<close>

lemma ring_read_pop: "ring_read buf (Suc h) n = tl (ring_read buf h (Suc n))"
  by (simp add: ring_read_Cons)

lemma hd_ring_read: "hd (ring_read buf h (Suc n)) = buf ! (h mod length buf)"
  by (simp add: ring_read_Cons)

end
