(* ===== verification/FifoQueue.thy ===== *)
theory FifoQueue
  imports Prelude
begin

text \<open>
  The contract behind the concept \<open>MyQ\<close> of \<^verbatim>\<open>HFT/Queue.hpp\<close>: what the users of a queue rely
  on.  An \<open>enqueue\<close> either accepts the message at the end of the contents and answers true, or
  answers false and changes nothing; a \<open>dequeue\<close> answers the oldest message and removes it, or
  answers \<open>nullptr\<close> on an empty queue.  A queue that is full exactly when it holds its capacity
  is, over any sequence of calls, the bounded list of the specification.
\<close>

datatype 'p queue_op = Enq 'p | Deq

datatype 'p queue_ret = Accepted bool | Delivered 'p

text \<open>The calls of one client and what they answer.\<close>

fun queue_calls :: "('p \<Rightarrow> 'q \<Rightarrow> bool \<times> 'q) \<Rightarrow> ('q \<Rightarrow> 'p \<times> 'q) \<Rightarrow> 'p queue_op list \<Rightarrow> 'q
    \<Rightarrow> 'p queue_ret list \<times> 'q" where
  "queue_calls enq deq [] q = ([], q)"
| "queue_calls enq deq (Enq p # ops) q =
     (let (ok, q') = enq p q; (rs, q'') = queue_calls enq deq ops q' in (Accepted ok # rs, q''))"
| "queue_calls enq deq (Deq # ops) q =
     (let (p, q') = deq q; (rs, q'') = queue_calls enq deq ops q' in (Delivered p # rs, q''))"

text \<open>
  The specification: a list of at most \<open>cap\<close> messages.  A message is refused exactly when \<open>cap\<close>
  messages are inside, and the null pointer \<open>nil\<close> is delivered exactly for want of a message.
\<close>

fun bounded_calls :: "nat \<Rightarrow> 'p \<Rightarrow> 'p queue_op list \<Rightarrow> 'p list \<Rightarrow> 'p queue_ret list \<times> 'p list" where
  "bounded_calls cap nil [] xs = ([], xs)"
| "bounded_calls cap nil (Enq p # ops) xs =
     (let ok = length xs < cap; (rs, ys) = bounded_calls cap nil ops (if ok then xs @ [p] else xs)
      in (Accepted ok # rs, ys))"
| "bounded_calls cap nil (Deq # ops) xs =
     (case xs of
        [] \<Rightarrow> let (rs, ys) = bounded_calls cap nil ops [] in (Delivered nil # rs, ys)
      | x # rest \<Rightarrow> let (rs, ys) = bounded_calls cap nil ops rest in (Delivered x # rs, ys))"

locale fifo_queue =
  fixes enq :: "'p \<Rightarrow> 'q \<Rightarrow> bool \<times> 'q"
    and deq :: "'q \<Rightarrow> 'p \<times> 'q"
    and nil :: 'p
    and contents :: "'q \<Rightarrow> 'p list"
    and full :: "'q \<Rightarrow> bool"
    and inv :: "'q \<Rightarrow> bool"
  assumes enq_full: "inv q \<Longrightarrow> full q \<Longrightarrow> enq p q = (False, q)"
    and enq_ok: "inv q \<Longrightarrow> \<not> full q \<Longrightarrow>
      fst (enq p q) \<and> inv (snd (enq p q)) \<and> contents (snd (enq p q)) = contents q @ [p]"
    and deq_empty: "inv q \<Longrightarrow> contents q = [] \<Longrightarrow> deq q = (nil, q)"
    and deq_ok: "inv q \<Longrightarrow> contents q \<noteq> [] \<Longrightarrow>
      fst (deq q) = hd (contents q) \<and> inv (snd (deq q)) \<and> contents (snd (deq q)) = tl (contents q)"
begin

lemma enq_inv: "inv q \<Longrightarrow> inv (snd (enq p q))"
  using enq_full enq_ok by (cases "full q") auto

lemma deq_inv: "inv q \<Longrightarrow> inv (snd (deq q))"
  using deq_empty deq_ok by (cases "contents q = []") auto

lemma enq_contents:
  "inv q \<Longrightarrow> contents (snd (enq p q)) = contents q @ (if fst (enq p q) then [p] else [])"
  using enq_full enq_ok by (cases "full q") auto

lemma deq_contents:
  "inv q \<Longrightarrow> contents q = (if contents q = [] then [] else [fst (deq q)]) @ contents (snd (deq q))"
  using deq_empty deq_ok by (cases "contents q = []") auto

lemma enq_accepts_iff: "inv q \<Longrightarrow> fst (enq p q) \<longleftrightarrow> \<not> full q"
  using enq_full enq_ok by (cases "full q") auto

end

locale bounded_queue = fifo_queue +
  fixes capacity :: "'b \<Rightarrow> nat"
  assumes full_iff: "inv q \<Longrightarrow> full q \<longleftrightarrow> capacity q \<le> length (contents q)"
    and enq_capacity: "capacity (snd (enq p q)) = capacity q"
    and deq_capacity: "capacity (snd (deq q)) = capacity q"
begin

lemma calls_bounded:
  assumes "inv q"
  shows "\<exists>q'. queue_calls enq deq ops q = (fst (bounded_calls (capacity q) nil ops (contents q)), q') \<and>
    inv q' \<and> capacity q' = capacity q \<and> contents q' = snd (bounded_calls (capacity q) nil ops (contents q))"
  using assms
proof (induction ops arbitrary: q)
  case Nil
  then show ?case by simp
next
  case (Cons x ops)
  show ?case
  proof (cases x)
    case (Enq p)
    obtain ok q1 where e: "enq p q = (ok, q1)" by (cases "enq p q")
    have "ok \<longleftrightarrow> length (contents q) < capacity q"
      and "contents q1 = (if length (contents q) < capacity q then contents q @ [p] else contents q)"
      using enq_accepts_iff [OF Cons.prems, of p] enq_contents [OF Cons.prems, of p] full_iff [OF Cons.prems] e
      by auto
    moreover have "inv q1" and "capacity q1 = capacity q"
      using enq_inv [OF Cons.prems, of p] enq_capacity [of p q] e by simp_all
    ultimately show ?thesis using Cons.IH [of q1] Enq e by (auto simp: Let_def split: prod.split)
  next
    case Deq
    obtain p q1 where d: "deq q = (p, q1)" by (cases "deq q")
    have q1: "inv q1" "capacity q1 = capacity q"
      using deq_inv [OF Cons.prems] deq_capacity [of q] d by simp_all
    show ?thesis
    proof (cases "contents q")
      case Nil
      then have "p = nil" and "contents q1 = []" using deq_empty [OF Cons.prems] d by simp_all
      then show ?thesis using Cons.IH [OF q1(1)] q1(2) Deq d Nil by (auto split: prod.split)
    next
      case (Cons y ys)
      then have "p = y" and "contents q1 = ys" using deq_ok [OF \<open>inv q\<close>] d by simp_all
      then show ?thesis using Cons.IH [OF q1(1)] q1(2) Deq d Cons by (auto split: prod.split)
    qed
  qed
qed

end

end
