(* ===== verification/SpscQueue.thy ===== *)
theory SpscQueue
  imports Ring FifoQueue
begin

text \<open>
  \<open>LockedQueue\<close> and \<open>CustomSPSCLockFreeQueue\<close> of \<^verbatim>\<open>HFT/Queue.hpp\<close>, one operation at a
  time.  Pointers are values of \<open>'a option\<close>, \<open>None\<close> being \<open>nullptr\<close>.  The head and tail counters
  are 64-bit words that are never reset, so they wrap; every statement below holds across the
  wrap.  The capacity is the parameter \<open>queueCapacity\<close>, because the code takes it from the macro
  \<open>QUEUE_CAPACITY\<close>.  The interleavings of a producer with a consumer are in \<open>SpscRace\<close>.
\<close>

subsection \<open>LockedQueue\<close>

text \<open>
  Each operation holds the mutex for its whole body, so it is one atomic step on the inner
  \<open>std::queue\<close>.  \<open>dequeue\<close> waits on the condition variable while the queue is empty:
  \<open>None\<close> is "still waiting".
\<close>

type_synonym 'p locked_queue = "'p list"

definition locked_enqueue :: "'p \<Rightarrow> 'p locked_queue \<Rightarrow> bool \<times> 'p locked_queue" where
  "locked_enqueue ptr q = (True, q @ [ptr])"

definition locked_dequeue :: "'p locked_queue \<Rightarrow> ('p \<times> 'p locked_queue) option" where
  "locked_dequeue q = (case q of [] \<Rightarrow> None | msg # rest \<Rightarrow> Some (msg, rest))"

subsection \<open>CustomSPSCLockFreeQueue\<close>

record 'a spsc =
  spsc_buffer :: "'a option list"
  spsc_head :: u64
  spsc_tail :: u64
  spsc_capacity :: u64
  spsc_mask :: u64

definition spsc_new :: "u64 \<Rightarrow> 'a spsc res" where
  "spsc_new queueCapacity =
     (let q = \<lparr>spsc_buffer = replicate (unat queueCapacity) None, spsc_head = 0, spsc_tail = 0,
               spsc_capacity = queueCapacity, spsc_mask = queueCapacity - 1\<rparr>
      in if spsc_capacity q = 0 \<or> spsc_capacity q AND spsc_mask q \<noteq> 0
         then Inl (Throw ''Capacity must be a power of two and greater than zero.'')
         else Inr q)"

definition spsc_enqueue :: "'a option \<Rightarrow> 'a spsc \<Rightarrow> bool \<times> 'a spsc" where
  "spsc_enqueue ptr q =
     (let tail = spsc_tail q; next_tail = tail + 1
      in if next_tail - spsc_head q > spsc_capacity q then (False, q)
         else (True, q\<lparr>spsc_buffer := (spsc_buffer q)[unat (tail AND spsc_mask q) := ptr],
                       spsc_tail := next_tail\<rparr>))"

definition spsc_dequeue :: "'a spsc \<Rightarrow> 'a option \<times> 'a spsc" where
  "spsc_dequeue q =
     (if spsc_head q = spsc_tail q then (None, q)
      else let head = spsc_head q; q' = q\<lparr>spsc_head := head + 1\<rparr>
           in (spsc_buffer q' ! unat (head AND spsc_mask q'), q'))"

text \<open>
  The invariant: the capacity is a power of two, the mask and the buffer fit it, and the tail is
  at most one capacity ahead of the head, counting modulo \<open>2 ^ 64\<close>.
\<close>

definition spsc_inv :: "'a spsc \<Rightarrow> bool" where
  "spsc_inv q \<longleftrightarrow> pow2_capacity (spsc_capacity q) \<and> spsc_mask q = spsc_capacity q - 1 \<and>
     length (spsc_buffer q) = unat (spsc_capacity q) \<and>
     unat (spsc_tail q - spsc_head q) \<le> unat (spsc_capacity q)"

definition spsc_contents :: "'a spsc \<Rightarrow> 'a option list" where
  "spsc_contents q =
     ring_read (spsc_buffer q) (unat (spsc_head q)) (unat (spsc_tail q - spsc_head q))"

definition spsc_full :: "'a spsc \<Rightarrow> bool" where
  "spsc_full q \<longleftrightarrow> length (spsc_contents q) = unat (spsc_capacity q)"

text \<open>Every index the two operations use is inside the buffer.\<close>

lemma spsc_slot:
  assumes "spsc_inv q"
  shows "unat (w AND spsc_mask q) = unat w mod length (spsc_buffer q)"
    and "unat (w AND spsc_mask q) < length (spsc_buffer q)"
proof -
  obtain k where k: "k < 64" "spsc_capacity q = 2 ^ k"
    using assms pow2_capacityE by (auto simp: spsc_inv_def)
  have len: "length (spsc_buffer q) = 2 ^ k"
    using assms k by (simp add: spsc_inv_def unat_pow2)
  show eq: "unat (w AND spsc_mask q) = unat w mod length (spsc_buffer q)"
    using assms k len unat_and_mask [of k w] by (simp add: spsc_inv_def)
  show "unat (w AND spsc_mask q) < length (spsc_buffer q)"
    unfolding eq by (rule mod_less_divisor) (simp add: len)
qed

lemma spsc_wrap:
  assumes "spsc_inv q"
  shows "unat (a + b :: u64) mod length (spsc_buffer q)
    = (unat a + unat b) mod length (spsc_buffer q)"
proof -
  obtain k where k: "k < 64" "spsc_capacity q = 2 ^ k"
    using assms pow2_capacityE by (auto simp: spsc_inv_def)
  have "length (spsc_buffer q) = 2 ^ k"
    using assms k by (simp add: spsc_inv_def unat_pow2)
  then show ?thesis using mod_pow2_add_wrap [of k a b] k by simp
qed

lemma spsc_capacity_bound:
  assumes "spsc_inv q"
  shows "unat (spsc_capacity q) \<le> 2 ^ 63" and "0 < unat (spsc_capacity q)"
proof -
  obtain k where k: "k < 64" "spsc_capacity q = 2 ^ k"
    using assms pow2_capacityE by (auto simp: spsc_inv_def)
  then have "unat (spsc_capacity q) = 2 ^ k" by (simp only: unat_pow2)
  moreover have "(2 :: nat) ^ k \<le> 2 ^ 63"
    using k by (intro power_increasing) auto
  ultimately show "unat (spsc_capacity q) \<le> 2 ^ 63" and "0 < unat (spsc_capacity q)"
    by simp_all
qed

lemma spsc_length_contents [simp]:
  "length (spsc_contents q) = unat (spsc_tail q - spsc_head q)"
  by (simp add: spsc_contents_def)

lemma spsc_contents_Nil_iff: "spsc_contents q = [] \<longleftrightarrow> spsc_head q = spsc_tail q"
  by (auto simp: spsc_contents_def unat_eq_0)

text \<open>The guard of \<open>enqueue\<close>, read on the counters' distance, is "one capacity is used up".\<close>

lemma spsc_enqueue_guard:
  assumes "spsc_inv q"
  shows "spsc_tail q + 1 - spsc_head q > spsc_capacity q \<longleftrightarrow> spsc_full q"
proof -
  let ?d = "spsc_tail q - spsc_head q"
  have d: "unat ?d \<le> unat (spsc_capacity q)" using assms by (simp add: spsc_inv_def)
  have "unat (?d + 1) = Suc (unat ?d)"
    by (rule unat_plus_one) (use d spsc_capacity_bound(1) [OF assms] in simp)
  then have "unat (spsc_tail q + 1 - spsc_head q) = Suc (unat ?d)"
    by (simp add: algebra_simps)
  then show ?thesis using d by (auto simp: word_less_nat_alt spsc_full_def)
qed

lemma spsc_enqueue_full: "spsc_inv q \<Longrightarrow> spsc_full q \<Longrightarrow> spsc_enqueue p q = (False, q)"
  using spsc_enqueue_guard [of q] by (simp add: spsc_enqueue_def Let_def)

lemma spsc_enqueue_ok:
  assumes "spsc_inv q" and "\<not> spsc_full q"
  shows "fst (spsc_enqueue p q) \<and> spsc_inv (snd (spsc_enqueue p q)) \<and>
    spsc_contents (snd (spsc_enqueue p q)) = spsc_contents q @ [p]"
proof -
  let ?d = "spsc_tail q - spsc_head q" and ?buf = "spsc_buffer q"
  let ?q' = "q\<lparr>spsc_buffer := ?buf[unat (spsc_tail q AND spsc_mask q) := p],
    spsc_tail := spsc_tail q + 1\<rparr>"
  have len: "length ?buf = unat (spsc_capacity q)" using assms(1) by (simp add: spsc_inv_def)
  have lt: "unat ?d < length ?buf"
    using assms by (auto simp: spsc_inv_def spsc_full_def)
  have "unat (?d + 1) = Suc (unat ?d)"
    by (rule unat_plus_one) (use lt len spsc_capacity_bound(1) [OF assms(1)] in simp)
  then have d': "unat (spsc_tail q + 1 - spsc_head q) = Suc (unat ?d)"
    by (simp add: algebra_simps)
  have slot: "unat (spsc_tail q AND spsc_mask q) = (unat (spsc_head q) + unat ?d) mod length ?buf"
    using spsc_slot(1) [OF assms(1)] spsc_wrap [OF assms(1), of "spsc_head q" ?d] by simp
  have "spsc_enqueue p q = (True, ?q')"
    using spsc_enqueue_guard [OF assms(1)] assms(2) by (simp add: spsc_enqueue_def Let_def)
  moreover have "spsc_inv ?q'"
    using assms(1) d' lt len by (simp add: spsc_inv_def)
  moreover have "spsc_contents ?q' = spsc_contents q @ [p]"
    using ring_read_push [OF lt, of "unat (spsc_head q)" p] d' slot by (simp add: spsc_contents_def)
  ultimately show ?thesis by simp
qed

lemma spsc_dequeue_empty: "spsc_inv q \<Longrightarrow> spsc_contents q = [] \<Longrightarrow> spsc_dequeue q = (None, q)"
  by (simp add: spsc_dequeue_def spsc_contents_Nil_iff)

lemma spsc_dequeue_ok:
  assumes "spsc_inv q" and "spsc_contents q \<noteq> []"
  shows "fst (spsc_dequeue q) = hd (spsc_contents q) \<and> spsc_inv (snd (spsc_dequeue q)) \<and>
    spsc_contents (snd (spsc_dequeue q)) = tl (spsc_contents q)"
proof -
  let ?d = "spsc_tail q - spsc_head q" and ?buf = "spsc_buffer q" and ?h = "spsc_head q"
  have ne: "?h \<noteq> spsc_tail q" using assms(2) by (simp add: spsc_contents_Nil_iff)
  have "0 < unat ?d" using ne by (simp add: unat_gt_0)
  then obtain n where n: "unat ?d = Suc n" by (cases "unat ?d") auto
  have "unat (?d - 1) = n"
    using n by (simp add: unat_minus_one_pos)
  then have d': "unat (spsc_tail q - (?h + 1)) = n" by (simp add: algebra_simps)
  have "unat (?h + 1) mod length ?buf = Suc (unat ?h) mod length ?buf"
    using spsc_wrap [OF assms(1), of ?h 1] by simp
  then have shift: "ring_read ?buf (unat (?h + 1)) n = ring_read ?buf (Suc (unat ?h)) n"
    by (rule ring_read_mod_eq)
  have "spsc_dequeue q
      = (?buf ! unat (?h AND spsc_mask q), q\<lparr>spsc_head := ?h + 1\<rparr>)"
    using ne by (simp add: spsc_dequeue_def Let_def)
  moreover have "spsc_inv (q\<lparr>spsc_head := ?h + 1\<rparr>)"
    using assms(1) d' n by (simp add: spsc_inv_def)
  ultimately show ?thesis
    using spsc_slot(1) [OF assms(1)] d' n shift
    by (simp add: spsc_contents_def hd_ring_read ring_read_pop)
qed

lemma spsc_capacity_kept:
  "spsc_capacity (snd (spsc_enqueue p q)) = spsc_capacity q" "spsc_capacity (snd (spsc_dequeue q)) = spsc_capacity q"
  by (simp_all add: spsc_enqueue_def spsc_dequeue_def Let_def)

interpretation spsc: bounded_queue spsc_enqueue spsc_dequeue None spsc_contents spsc_full spsc_inv
  "\<lambda>q. unat (spsc_capacity q)"
  by unfold_locales
    (simp_all add: spsc_enqueue_full spsc_enqueue_ok spsc_dequeue_empty spsc_dequeue_ok spsc_capacity_kept,
     auto simp: spsc_full_def spsc_inv_def)

lemma spsc_new_inv:
  assumes "spsc_new c = Inr q"
  shows "spsc_inv q \<and> spsc_contents q = [] \<and> spsc_capacity q = c"
  using assms
  by (auto simp: spsc_new_def spsc_inv_def pow2_capacity_def spsc_contents_def Let_def
      split: if_splits)

lemma spsc_new_Inr_iff: "(\<exists>q. spsc_new c = Inr q) \<longleftrightarrow> pow2_capacity c"
  by (auto simp: spsc_new_def pow2_capacity_def Let_def)

end
