(* ===== verification/SpscRace.thy ===== *)
theory SpscRace
  imports SpscQueue
begin

text \<open>
  One producer thread and one consumer thread on a \<open>CustomSPSCLockFreeQueue\<close>
  (\<^verbatim>\<open>HFT/Queue.hpp\<close>), interleaved at the granularity of the atomic accesses and of the buffer
  accesses, under sequential consistency.  A thread's program counter says which access of
  \<open>enqueue\<close> or \<open>dequeue\<close> comes next and keeps the operation's local variables.  The fields
  \<open>sc_sent\<close> and \<open>sc_recv\<close> are histories: what the producer's completed enqueues carried and what
  the consumer's completed dequeues returned.
\<close>

datatype 'a prod_pc =
    PIdle
  | PCheck "'a option" u64   \<comment> \<open>tail loaded, head not yet compared\<close>
  | PWrite "'a option" u64   \<comment> \<open>room found, cell not yet written\<close>
  | PStore "'a option" u64   \<comment> \<open>cell written, tail not yet published\<close>

datatype cons_pc =
    CIdle
  | CCheck u64               \<comment> \<open>head loaded, tail not yet compared\<close>
  | CFetch                   \<comment> \<open>a message found, head not yet advanced\<close>
  | CRead u64                \<comment> \<open>head advanced, cell not yet read\<close>

record 'a spsc_conc =
  sc_q :: "'a spsc"
  sc_prod :: "'a prod_pc"
  sc_cons :: cons_pc
  sc_sent :: "'a option list"
  sc_recv :: "'a option list"

datatype 'a spsc_action = ProdCall "'a option" | ProdStep | ConsStep

text \<open>\<open>ProdCall p\<close> is the call \<open>enqueue(p)\<close> with its first access.  \<open>None\<close>: not enabled.\<close>

fun spsc_act :: "'a spsc_action \<Rightarrow> 'a spsc_conc \<Rightarrow> 'a spsc_conc option" where
  "spsc_act (ProdCall p) s =
     (case sc_prod s of
        PIdle \<Rightarrow> Some (s\<lparr>sc_prod := PCheck p (spsc_tail (sc_q s))\<rparr>)
      | _ \<Rightarrow> None)"
| "spsc_act ProdStep s =
     (case sc_prod s of
        PIdle \<Rightarrow> None
      | PCheck p t \<Rightarrow>
          Some (s\<lparr>sc_prod := (if (t + 1) - spsc_head (sc_q s) > spsc_capacity (sc_q s)
                               then PIdle else PWrite p t)\<rparr>)
      | PWrite p t \<Rightarrow>
          Some (s\<lparr>sc_q := (sc_q s)\<lparr>spsc_buffer :=
                   (spsc_buffer (sc_q s))[unat (t AND spsc_mask (sc_q s)) := p]\<rparr>,
                 sc_prod := PStore p t\<rparr>)
      | PStore p t \<Rightarrow>
          Some (s\<lparr>sc_q := (sc_q s)\<lparr>spsc_tail := t + 1\<rparr>, sc_prod := PIdle,
                 sc_sent := sc_sent s @ [p]\<rparr>))"
| "spsc_act ConsStep s =
     (case sc_cons s of
        CIdle \<Rightarrow> Some (s\<lparr>sc_cons := CCheck (spsc_head (sc_q s))\<rparr>)
      | CCheck h \<Rightarrow> Some (s\<lparr>sc_cons := (if h = spsc_tail (sc_q s) then CIdle else CFetch)\<rparr>)
      | CFetch \<Rightarrow>
          Some (s\<lparr>sc_q := (sc_q s)\<lparr>spsc_head := spsc_head (sc_q s) + 1\<rparr>,
                 sc_cons := CRead (spsc_head (sc_q s))\<rparr>)
      | CRead h \<Rightarrow>
          Some (s\<lparr>sc_cons := CIdle,
                 sc_recv := sc_recv s @ [spsc_buffer (sc_q s) ! unat (h AND spsc_mask (sc_q s))]\<rparr>))"

definition spsc_conc_init :: "'a spsc \<Rightarrow> 'a spsc_conc" where
  "spsc_conc_init q = \<lparr>sc_q = q, sc_prod = PIdle, sc_cons = CIdle, sc_sent = [], sc_recv = []\<rparr>"

fun spsc_exec :: "'a spsc_action list \<Rightarrow> 'a spsc_conc \<Rightarrow> 'a spsc_conc option" where
  "spsc_exec [] s = Some s"
| "spsc_exec (a # as) s = (case spsc_act a s of None \<Rightarrow> None | Some s' \<Rightarrow> spsc_exec as s')"

text \<open>
  Runs in which the queue always keeps two free cells.  \<open>spsc_room\<close> is what a client has to
  ensure: with only one free cell, the cell the consumer has claimed but not read can be the
  one the producer writes next.
\<close>

definition spsc_room :: "'a spsc \<Rightarrow> bool" where
  "spsc_room q \<longleftrightarrow> unat (spsc_tail q - spsc_head q) + 1 < unat (spsc_capacity q)"

inductive spsc_roomy :: "'a spsc \<Rightarrow> 'a spsc_conc \<Rightarrow> bool" for q where
  start: "spsc_room q \<Longrightarrow> spsc_roomy q (spsc_conc_init q)"
| step: "spsc_roomy q s \<Longrightarrow> spsc_act a s = Some t \<Longrightarrow> spsc_room (sc_q t) \<Longrightarrow> spsc_roomy q t"

text \<open>
  The queue as the consumer's completed reads see it: while the consumer has claimed a cell and
  not read it, that cell still counts as occupied.
\<close>

definition spsc_seen :: "'a spsc_conc \<Rightarrow> 'a spsc" where
  "spsc_seen s = (case sc_cons s of CRead h \<Rightarrow> (sc_q s)\<lparr>spsc_head := h\<rparr> | _ \<Rightarrow> sc_q s)"

text \<open>The producer is about to write the very cell that the consumer has claimed and not yet read.\<close>

definition spsc_overrun :: "'a spsc_conc \<Rightarrow> bool" where
  "spsc_overrun s = (case sc_prod s of
     PWrite p t \<Rightarrow> (case sc_cons s of CRead h \<Rightarrow> t - h = spsc_capacity (sc_q s) | _ \<Rightarrow> False)
   | _ \<Rightarrow> False)"

text \<open>What holds in every run that has not overrun a cell.\<close>

definition spsc_conc_inv :: "'a spsc_conc \<Rightarrow> bool" where
  "spsc_conc_inv s \<longleftrightarrow>
     spsc_inv (spsc_seen s) \<and>
     sc_recv s @ spsc_contents (spsc_seen s) = sc_sent s \<and>
     (case sc_prod s of
        PIdle \<Rightarrow> True
      | PCheck p t \<Rightarrow> t = spsc_tail (sc_q s)
      | PWrite p t \<Rightarrow> t = spsc_tail (sc_q s) \<and> \<not> spsc_full (sc_q s)
      | PStore p t \<Rightarrow> t = spsc_tail (sc_q s) \<and> \<not> spsc_full (spsc_seen s) \<and>
          spsc_buffer (sc_q s) ! unat (t AND spsc_mask (sc_q s)) = p) \<and>
     (case sc_cons s of
        CIdle \<Rightarrow> True
      | CCheck h \<Rightarrow> h = spsc_head (sc_q s)
      | CFetch \<Rightarrow> spsc_head (sc_q s) \<noteq> spsc_tail (sc_q s)
      | CRead h \<Rightarrow> spsc_head (sc_q s) = h + 1 \<and> h \<noteq> spsc_tail (sc_q s))"

lemma spsc_seen_fields [simp]:
  "spsc_buffer (spsc_seen s) = spsc_buffer (sc_q s)"
  "spsc_tail (spsc_seen s) = spsc_tail (sc_q s)"
  "spsc_mask (spsc_seen s) = spsc_mask (sc_q s)"
  "spsc_capacity (spsc_seen s) = spsc_capacity (sc_q s)"
  by (simp_all add: spsc_seen_def split: cons_pc.split)

lemma spsc_conc_init_inv: "spsc_inv q \<Longrightarrow> spsc_contents q = [] \<Longrightarrow> spsc_conc_inv (spsc_conc_init q)"
  by (simp add: spsc_conc_inv_def spsc_conc_init_def spsc_seen_def)

text \<open>Where nothing is overrun, the producer that found room has it, the claimed cell included.\<close>

lemma spsc_write_room:
  assumes "spsc_conc_inv s" and "sc_prod s = PWrite p t" and "\<not> spsc_overrun s"
  shows "\<not> spsc_full (spsc_seen s)"
  using assms by (auto simp: spsc_conc_inv_def spsc_overrun_def spsc_full_def spsc_seen_def
      dest: unsigned_word_eqI split: cons_pc.splits)

text \<open>With two free cells nothing is overrun.\<close>

lemma spsc_room_no_overrun:
  assumes "spsc_conc_inv s" and room: "spsc_room (sc_q s)"
  shows "\<not> spsc_overrun s"
proof
  assume "spsc_overrun s"
  then obtain p h where at: "sc_prod s = PWrite p (spsc_tail (sc_q s))" "sc_cons s = CRead h"
      "spsc_tail (sc_q s) - h = spsc_capacity (sc_q s)"
    using assms(1) by (auto simp: spsc_overrun_def spsc_conc_inv_def split: prod_pc.splits cons_pc.splits)
  have "spsc_tail (sc_q s) - h = (spsc_tail (sc_q s) - spsc_head (sc_q s)) + 1"
    using assms(1) at(2) by (simp add: spsc_conc_inv_def)
  moreover have "unat (spsc_tail (sc_q s) - spsc_head (sc_q s)) < 2 ^ 64 - 1"
    using room unat_u64_less [of "spsc_capacity (sc_q s)"] by (simp add: spsc_room_def)
  ultimately have "unat (spsc_capacity (sc_q s)) = Suc (unat (spsc_tail (sc_q s) - spsc_head (sc_q s)))"
    unfolding at(3) by (simp only: unat_plus_one)
  then show False using room by (simp add: spsc_room_def)
qed

text \<open>The two halves of a successful \<open>enqueue\<close>, on the queue as the consumer sees it.\<close>

lemma spsc_write_cell:
  fixes p :: "'a option"
  assumes "spsc_inv q" and "\<not> spsc_full q"
  defines "q' \<equiv> q\<lparr>spsc_buffer := (spsc_buffer q)[unat (spsc_tail q AND spsc_mask q) := p]\<rparr>"
  shows "spsc_inv q'" and "spsc_contents q' = spsc_contents q"
    and "spsc_buffer q' ! unat (spsc_tail q' AND spsc_mask q') = p"
proof -
  let ?d = "spsc_tail q - spsc_head q" and ?buf = "spsc_buffer q"
  have lt: "unat ?d < length ?buf"
    using assms(1,2) by (auto simp: spsc_inv_def spsc_full_def)
  have slot: "unat (spsc_tail q AND spsc_mask q) = (unat (spsc_head q) + unat ?d) mod length ?buf"
    using spsc_slot(1) [OF assms(1)] spsc_wrap [OF assms(1), of "spsc_head q" ?d] by simp
  show "spsc_inv q'" using assms(1) by (simp add: spsc_inv_def q'_def)
  show "spsc_contents q' = spsc_contents q"
    using ring_read_update_other [OF order_refl lt, of "unat (spsc_head q)" p] slot
    by (simp add: spsc_contents_def q'_def)
  show "spsc_buffer q' ! unat (spsc_tail q' AND spsc_mask q') = p"
    using spsc_slot(2) [OF assms(1)] by (simp add: q'_def)
qed

lemma spsc_publish_tail:
  assumes "spsc_inv q" and "\<not> spsc_full q"
    and "spsc_buffer q ! unat (spsc_tail q AND spsc_mask q) = p"
  defines "q' \<equiv> q\<lparr>spsc_tail := spsc_tail q + 1\<rparr>"
  shows "spsc_inv q'" and "spsc_contents q' = spsc_contents q @ [p]"
proof -
  have "snd (spsc_enqueue p q) = q'"
    using spsc_enqueue_guard [OF assms(1)] assms(2,3) list_update_id
    by (auto simp: spsc_enqueue_def Let_def q'_def intro!: spsc.equality)
  then show "spsc_inv q'" and "spsc_contents q' = spsc_contents q @ [p]"
    using spsc_enqueue_ok [OF assms(1,2), of p] by simp_all
qed

lemma spsc_read_cell:
  assumes "spsc_inv q" and "spsc_head q \<noteq> spsc_tail q"
  shows "spsc_inv (q\<lparr>spsc_head := spsc_head q + 1\<rparr>)"
    and "spsc_contents q = spsc_buffer q ! unat (spsc_head q AND spsc_mask q)
      # spsc_contents (q\<lparr>spsc_head := spsc_head q + 1\<rparr>)"
proof -
  have ne: "spsc_contents q \<noteq> []" using assms(2) by (simp add: spsc_contents_Nil_iff)
  have "spsc_dequeue q = (spsc_buffer q ! unat (spsc_head q AND spsc_mask q),
      q\<lparr>spsc_head := spsc_head q + 1\<rparr>)"
    using assms(2) by (simp add: spsc_dequeue_def Let_def)
  then show "spsc_inv (q\<lparr>spsc_head := spsc_head q + 1\<rparr>)"
    and "spsc_contents q = spsc_buffer q ! unat (spsc_head q AND spsc_mask q)
      # spsc_contents (q\<lparr>spsc_head := spsc_head q + 1\<rparr>)"
    using spsc_dequeue_ok [OF assms(1) ne] list.collapse [OF ne] by simp_all
qed

text \<open>The tail never comes around to just before the head.\<close>

lemma spsc_head_not_next:
  assumes "spsc_inv q"
  shows "spsc_head q \<noteq> spsc_tail q + 1"
proof
  assume "spsc_head q = spsc_tail q + 1"
  then have "spsc_tail q - spsc_head q = - 1" by simp
  then have "unat (spsc_tail q - spsc_head q) = 2 ^ 64 - 1"
    by (simp add: unsigned_minus_1_eq_mask mask_eq_exp_minus_1)
  moreover have "unat (spsc_tail q - spsc_head q) \<le> unat (spsc_capacity q)"
    using assms by (simp add: spsc_inv_def)
  ultimately show False using spsc_capacity_bound(1) [OF assms] by simp
qed

lemma spsc_prod_call_inv:
  "spsc_conc_inv s \<Longrightarrow> spsc_act (ProdCall p) s = Some t \<Longrightarrow> spsc_conc_inv t"
  by (auto simp: spsc_conc_inv_def spsc_seen_def split: prod_pc.splits cons_pc.splits)

text \<open>The consumer's read, and the queue after it.\<close>

lemma spsc_claimed_cell:
  assumes "spsc_conc_inv s" and "sc_cons s = CRead h"
  shows "spsc_inv (sc_q s)"
    and "spsc_contents (spsc_seen s) = spsc_buffer (sc_q s) ! unat (h AND spsc_mask (sc_q s)) # spsc_contents (sc_q s)"
proof -
  let ?q = "(sc_q s)\<lparr>spsc_head := h\<rparr>"
  have q: "spsc_seen s = ?q" "spsc_head (sc_q s) = h + 1" "h \<noteq> spsc_tail (sc_q s)"
    using assms by (auto simp: spsc_conc_inv_def spsc_seen_def)
  have undo: "?q\<lparr>spsc_head := spsc_head ?q + 1\<rparr> = sc_q s"
    using q(2) by (auto intro!: spsc.equality)
  have "spsc_inv ?q" using assms(1) q(1) by (simp add: spsc_conc_inv_def)
  from spsc_read_cell [OF this] q(3)
  show "spsc_inv (sc_q s)"
    and "spsc_contents (spsc_seen s) = spsc_buffer (sc_q s) ! unat (h AND spsc_mask (sc_q s)) # spsc_contents (sc_q s)"
    unfolding undo q(1) by simp_all
qed

lemma spsc_inner_inv:
  assumes "spsc_conc_inv s"
  shows "spsc_inv (sc_q s)"
  using assms spsc_claimed_cell(1) [OF assms] by (cases "sc_cons s") (auto simp: spsc_conc_inv_def spsc_seen_def)

lemma spsc_shrunk_not_full:
  assumes "spsc_inv q" and "spsc_contents q = x # spsc_contents q'" and "spsc_capacity q' = spsc_capacity q"
  shows "\<not> spsc_full q'"
  using assms(1) arg_cong [OF assms(2), of length] assms(3) by (auto simp: spsc_full_def spsc_inv_def)

lemma spsc_cons_inv:
  assumes inv: "spsc_conc_inv s" and act: "spsc_act ConsStep s = Some t"
  shows "spsc_conc_inv t"
proof (cases "sc_cons s")
  case CFetch
  then have "spsc_seen t = sc_q s" and "spsc_seen s = sc_q s" and q: "sc_q t = (sc_q s)\<lparr>spsc_head := spsc_head (sc_q s) + 1\<rparr>"
    using act by (auto simp: spsc_seen_def)
  moreover have "spsc_inv (sc_q s)" and "spsc_head (sc_q s) \<noteq> spsc_tail (sc_q s)"
    using inv CFetch \<open>spsc_seen s = sc_q s\<close> by (simp_all add: spsc_conc_inv_def)
  then have "\<not> spsc_full (sc_q t)"
    unfolding q by (intro spsc_shrunk_not_full [OF _ spsc_read_cell(2)]) simp_all
  ultimately show ?thesis
    using inv act CFetch by (auto simp: spsc_conc_inv_def split: prod_pc.splits)
next
  case (CRead h)
  note claimed = spsc_claimed_cell [OF inv CRead]
  have "\<not> spsc_full (sc_q s)"
    using inv claimed(2) by (intro spsc_shrunk_not_full [of "spsc_seen s"]) (simp_all add: spsc_conc_inv_def)
  then show ?thesis
    using inv act CRead claimed
    by (auto simp: spsc_conc_inv_def spsc_seen_def split: prod_pc.splits)
qed (use assms in \<open>auto simp: spsc_conc_inv_def spsc_seen_def split: prod_pc.splits if_splits\<close>)

lemma spsc_prod_inv:
  assumes inv: "spsc_conc_inv s" and act: "spsc_act ProdStep s = Some t" and free: "\<not> spsc_overrun s"
  shows "spsc_conc_inv t"
proof -
  have seen: "spsc_inv (spsc_seen s)" using inv by (simp add: spsc_conc_inv_def)
  show ?thesis
  proof (cases "sc_prod s")
    case PIdle
    then show ?thesis using act by simp
  next
    case (PCheck p u)
    then show ?thesis
      using inv act spsc_enqueue_guard [OF spsc_inner_inv [OF inv]]
      by (auto simp: spsc_conc_inv_def spsc_seen_def split: cons_pc.splits)
  next
    case (PWrite p u)
    have u: "u = spsc_tail (sc_q s)" using inv PWrite by (simp add: spsc_conc_inv_def)
    have "spsc_seen t = (spsc_seen s)\<lparr>spsc_buffer :=
        (spsc_buffer (spsc_seen s))[unat (spsc_tail (spsc_seen s) AND spsc_mask (spsc_seen s)) := p]\<rparr>"
      using act PWrite u by (auto simp: spsc_seen_def split: cons_pc.split)
    with spsc_write_cell [OF seen spsc_write_room [OF inv PWrite free], of p]
    have "spsc_inv (spsc_seen t)" "spsc_contents (spsc_seen t) = spsc_contents (spsc_seen s)"
      "spsc_buffer (spsc_seen t) ! unat (spsc_tail (spsc_seen t) AND spsc_mask (spsc_seen t)) = p"
      by simp_all
    moreover have "\<not> spsc_full (spsc_seen t)"
      using spsc_write_room [OF inv PWrite free] \<open>spsc_seen t = _\<close> by (simp add: spsc_full_def)
    ultimately show ?thesis
      using inv act PWrite u by (auto simp: spsc_conc_inv_def split: cons_pc.splits)
  next
    case (PStore p u)
    have u: "u = spsc_tail (sc_q s)" and room: "\<not> spsc_full (spsc_seen s)"
      and p: "spsc_buffer (spsc_seen s) ! unat (spsc_tail (spsc_seen s) AND spsc_mask (spsc_seen s)) = p"
      using inv PStore by (auto simp: spsc_conc_inv_def)
    have "spsc_seen t = (spsc_seen s)\<lparr>spsc_tail := spsc_tail (spsc_seen s) + 1\<rparr>"
      using act PStore u by (auto simp: spsc_seen_def split: cons_pc.split)
    with spsc_publish_tail [OF seen room p]
    have "spsc_inv (spsc_seen t)" "spsc_contents (spsc_seen t) = spsc_contents (spsc_seen s) @ [p]"
      by simp_all
    moreover have "spsc_head (spsc_seen s) \<noteq> spsc_tail (sc_q s) + 1"
      using spsc_head_not_next [OF seen] by simp
    ultimately show ?thesis
      using inv act PStore u
      by (auto simp: spsc_conc_inv_def spsc_seen_def split: cons_pc.splits)
  qed
qed

lemma spsc_act_inv:
  "spsc_conc_inv s \<Longrightarrow> \<not> spsc_overrun s \<Longrightarrow> spsc_act a s = Some t \<Longrightarrow> spsc_conc_inv t"
  by (cases a) (blast intro: spsc_prod_call_inv spsc_prod_inv spsc_cons_inv)+

lemma spsc_roomy_room: "spsc_roomy q s \<Longrightarrow> spsc_room (sc_q s)"
  by (erule spsc_roomy.cases) (simp_all add: spsc_conc_init_def)

lemma spsc_roomy_inv:
  assumes "spsc_roomy q s" and "spsc_inv q" and "spsc_contents q = []"
  shows "spsc_conc_inv s"
  using assms
proof (induction rule: spsc_roomy.induct)
  case start
  then show ?case by (simp add: spsc_conc_init_inv)
next
  case (step s a t)
  then have "spsc_conc_inv s" by blast
  then show ?case
    using spsc_room_no_overrun [OF _ spsc_roomy_room [OF step.hyps(1)]] step.hyps(2) by (blast intro: spsc_act_inv)
qed

subsection \<open>The calls as their client makes them\<close>

text \<open>
  The next access of a call of \<open>enqueue\<close> or \<open>dequeue\<close> that a client is in, and the answer when it
  is the last one.
\<close>

definition enqueue_access :: "'a option \<Rightarrow> 'a spsc_conc \<Rightarrow> bool option \<times> 'a spsc_conc" where
  "enqueue_access p s = (case spsc_act (if sc_prod s = PIdle then ProdCall p else ProdStep) s of
     None \<Rightarrow> (None, s)
   | Some t \<Rightarrow> (if sc_prod t = PIdle then Some (sc_sent t \<noteq> sc_sent s) else None, t))"

definition dequeue_access :: "'a spsc_conc \<Rightarrow> 'a option option \<times> 'a spsc_conc" where
  "dequeue_access s = (case spsc_act ConsStep s of
     None \<Rightarrow> (None, s)
   | Some t \<Rightarrow> (if sc_cons t = CIdle then Some (if sc_recv t = sc_recv s then None else List.last (sc_recv t)) else None, t))"

fun carried :: "'a prod_pc \<Rightarrow> 'a option option" where
  "carried PIdle = None"
| "carried (PCheck p t) = Some p"
| "carried (PWrite p t) = Some p"
| "carried (PStore p t) = Some p"

lemma enqueue_access_ok:
  assumes inv: "spsc_conc_inv s" and free: "\<not> spsc_overrun s" and at: "carried (sc_prod s) \<in> {None, Some p}"
    and acc: "enqueue_access p s = (a, t)"
  shows "spsc_conc_inv t" and "carried (sc_prod t) = (if a = None then Some p else None)"
    and "spsc_contents (spsc_seen t) = spsc_contents (spsc_seen s) @ (if a = Some True then [p] else [])"
proof -
  let ?act = "if sc_prod s = PIdle then ProdCall p else ProdStep"
  obtain u where u: "spsc_act ?act s = Some u" by (cases "sc_prod s") auto
  then have t: "u = t" and a: "a = (if sc_prod t = PIdle then Some (sc_sent t \<noteq> sc_sent s) else None)"
    using acc by (auto simp: enqueue_access_def)
  show inv': "spsc_conc_inv t" using spsc_act_inv [OF inv free u] t by simp
  show "carried (sc_prod t) = (if a = None then Some p else None)"
    using u at a unfolding t by (cases "sc_prod s") auto
  have "sc_recv t = sc_recv s" and "sc_sent t = sc_sent s @ (if a = Some True then [p] else [])"
    using u at a unfolding t by (cases "sc_prod s"; auto)+
  then show "spsc_contents (spsc_seen t) = spsc_contents (spsc_seen s) @ (if a = Some True then [p] else [])"
    using inv inv' unfolding spsc_conc_inv_def by (metis append.assoc same_append_eq)
qed

lemma dequeue_access_ok:
  assumes inv: "spsc_conc_inv s" and acc: "dequeue_access s = (a, t)"
  shows "spsc_conc_inv t" and "sc_prod t = sc_prod s"
    and "(a = None \<or> a = Some None) \<and> spsc_contents (spsc_seen t) = spsc_contents (spsc_seen s) \<or>
      (\<exists>x. a = Some x \<and> spsc_contents (spsc_seen s) = x # spsc_contents (spsc_seen t))"
proof -
  obtain u where u: "spsc_act ConsStep s = Some u" by (cases "sc_cons s") auto
  then have t: "u = t"
    and a: "a = (if sc_cons t = CIdle then Some (if sc_recv t = sc_recv s then None else List.last (sc_recv t)) else None)"
    using acc by (auto simp: dequeue_access_def)
  show inv': "spsc_conc_inv t" using spsc_cons_inv [OF inv] u t by simp
  show "sc_prod t = sc_prod s" using u t by (cases "sc_cons s") auto
  have sent: "sc_recv t @ spsc_contents (spsc_seen t) = sc_recv s @ spsc_contents (spsc_seen s)"
    using inv inv' u t unfolding spsc_conc_inv_def by (cases "sc_cons s") auto
  have "(a = None \<or> a = Some None) \<and> sc_recv t = sc_recv s \<or> (\<exists>x. a = Some x \<and> sc_recv t = sc_recv s @ [x])"
    using u a t by (cases "sc_cons s") auto
  then show "(a = None \<or> a = Some None) \<and> spsc_contents (spsc_seen t) = spsc_contents (spsc_seen s) \<or>
      (\<exists>x. a = Some x \<and> spsc_contents (spsc_seen s) = x # spsc_contents (spsc_seen t))"
    using sent by (elim disjE exE conjE) simp_all
qed

subsection \<open>Properties\<close>

text \<open>
  Claim C1.  FIFO under concurrency, with room.  In every interleaving of the producer and the
  consumer that starts from an empty queue and always leaves two free cells, the consumer's
  completed dequeues returned exactly the first messages the producer's completed enqueues
  carried, in order, each once; what is sent and not yet received is still in the queue (or in
  the cell the consumer has claimed).
\<close>

theorem spsc_conc_fifo:
  assumes "spsc_new c = Inr q" and "spsc_roomy q s"
  shows "sc_sent s = sc_recv s @ spsc_contents (spsc_seen s)"
proof -
  have "spsc_conc_inv s"
    using spsc_roomy_inv [OF assms(2)] spsc_new_inv [OF assms(1)] by blast
  then show ?thesis by (simp add: spsc_conc_inv_def)
qed

definition spsc_demo :: "u64 \<Rightarrow> nat spsc" where
  "spsc_demo c = \<lparr>spsc_buffer = replicate (unat c) None, spsc_head = 0, spsc_tail = 0,
     spsc_capacity = c, spsc_mask = c - 1\<rparr>"

lemma spsc_demo_new: "spsc_new 4 = Inr (spsc_demo 4)"
  by (simp add: spsc_new_def spsc_demo_def)

lemma spsc_demo_roomy:
  "spsc_roomy (spsc_demo 4) ((spsc_conc_init (spsc_demo 4))\<lparr>sc_prod := PCheck (Some 7) 0\<rparr>)"
  by (rule spsc_roomy.step [where a = "ProdCall (Some 7)", OF spsc_roomy.start])
    (simp_all add: spsc_room_def spsc_demo_def spsc_conc_init_def)

theorem spsc_conc_fifo_witness:
  "let s = (spsc_conc_init (spsc_demo 4))\<lparr>sc_prod := PCheck (Some 7) 0\<rparr>
   in sc_sent s = sc_recv s @ spsc_contents (spsc_seen s)"
  unfolding Let_def by (rule spsc_conc_fifo [OF spsc_demo_new spsc_demo_roomy])

text \<open>
  Claim C2.  The race of \<open>dequeue\<close>.  \<open>dequeue\<close> advances \<open>head_\<close> before it reads the cell, so on a
  full queue of any capacity the producer may overwrite the claimed cell first: the consumer
  then receives the newest message instead of the oldest, and the oldest one is lost.
\<close>

theorem spsc_full_race:
  assumes "spsc_inv q" and "spsc_full q"
  shows "\<exists>s. spsc_exec [ConsStep, ConsStep, ConsStep, ProdCall p, ProdStep, ProdStep, ProdStep, ConsStep]
      (spsc_conc_init q) = Some s \<and> sc_recv s = [p] \<and> sc_sent s = [p] \<and>
    spsc_contents (sc_q s) = tl (spsc_contents q) @ [p]"
proof -
  let ?q1 = "q\<lparr>spsc_head := spsc_head q + 1\<rparr>" and ?slot = "unat (spsc_tail q AND spsc_mask q)"
  let ?q2 = "?q1\<lparr>spsc_buffer := (spsc_buffer q)[?slot := p], spsc_tail := spsc_tail q + 1\<rparr>"
  have "spsc_contents q \<noteq> []"
    using assms(2) spsc_capacity_bound(2) [OF assms(1)]
    by (metis list.size(3) less_irrefl spsc_full_def)
  then have ne: "spsc_head q \<noteq> spsc_tail q" and deq: "snd (spsc_dequeue q) = ?q1"
    by (auto simp: spsc_contents_Nil_iff spsc_dequeue_def Let_def)
  have q1: "spsc_inv ?q1" "spsc_contents ?q1 = tl (spsc_contents q)"
    using spsc_dequeue_ok [OF assms(1) \<open>spsc_contents q \<noteq> []\<close>] deq by simp_all
  then have nf: "\<not> spsc_full ?q1"
    using assms(2) spsc_capacity_bound(2) [OF assms(1)] by (auto simp: spsc_full_def)
  have guard: "\<not> spsc_tail q + 1 - (spsc_head q + 1) > spsc_capacity q"
    using spsc_enqueue_guard [OF q1(1)] nf by simp
  have enq: "snd (spsc_enqueue p ?q1) = ?q2"
    using guard by (simp add: spsc_enqueue_def Let_def)
  have same: "unat (spsc_head q AND spsc_mask q) = ?slot"
  proof -
    have "unat (spsc_tail q - spsc_head q) = length (spsc_buffer q)"
      using assms by (simp add: spsc_full_def spsc_inv_def)
    then have "unat (spsc_tail q) mod length (spsc_buffer q) = unat (spsc_head q) mod length (spsc_buffer q)"
      using spsc_wrap [OF assms(1), of "spsc_head q" "spsc_tail q - spsc_head q"] by simp
    then show ?thesis by (simp add: spsc_slot(1) [OF assms(1)])
  qed
  let ?s = "\<lparr>sc_q = ?q2, sc_prod = PIdle, sc_cons = CIdle, sc_sent = [p], sc_recv = [p]\<rparr>"
  have ex: "spsc_exec [ConsStep, ConsStep, ConsStep, ProdCall p, ProdStep, ProdStep, ProdStep, ConsStep]
      (spsc_conc_init q) = Some ?s"
    using ne guard same spsc_slot(2) [OF assms(1)] by (simp add: spsc_conc_init_def)
  have "spsc_contents ?q2 = tl (spsc_contents q) @ [p]"
    using spsc_enqueue_ok [OF q1(1) nf, of p] enq q1(2) by simp
  then show ?thesis
    by (intro exI [where x = ?s] conjI ex) (simp_all only: spsc_conc.select_convs)
qed

definition spsc_demo_full :: "nat spsc" where
  "spsc_demo_full = \<lparr>spsc_buffer = [Some 10, Some 20], spsc_head = 0, spsc_tail = 2,
     spsc_capacity = 2, spsc_mask = 1\<rparr>"

theorem spsc_full_race_witness:
  "\<exists>s. spsc_exec [ConsStep, ConsStep, ConsStep, ProdCall (Some 30), ProdStep, ProdStep, ProdStep, ConsStep]
      (spsc_conc_init spsc_demo_full) = Some s \<and> sc_recv s = [Some 30] \<and> sc_sent s = [Some 30] \<and>
    spsc_contents (sc_q s) = tl (spsc_contents spsc_demo_full) @ [Some 30]"
  by (rule spsc_full_race)
    (simp_all add: spsc_demo_full_def spsc_inv_def pow2_capacity_def spsc_full_def)

text \<open>
  Claim C3.  One operation at a time, \<open>CustomSPSCLockFreeQueue\<close> is a bounded FIFO queue, also
  when its counters have wrapped: over any sequence of calls, \<open>enqueue\<close> answers false exactly when
  the queue holds as many messages as its capacity, \<open>dequeue\<close> answers the oldest message and
  \<open>nullptr\<close> exactly when nothing is inside, and what is left inside is what the bounded list of
  the specification holds.
\<close>

theorem spsc_run_fifo:
  assumes "spsc_inv q"
  shows "\<exists>q'. queue_calls spsc_enqueue spsc_dequeue ops q =
      (fst (bounded_calls (unat (spsc_capacity q)) None ops (spsc_contents q)), q') \<and>
    spsc_inv q' \<and> spsc_contents q' = snd (bounded_calls (unat (spsc_capacity q)) None ops (spsc_contents q))"
  using spsc.calls_bounded [OF assms, of ops] by blast

definition spsc_demo_wrap :: "nat spsc" where
  "spsc_demo_wrap = \<lparr>spsc_buffer = [None, Some 5], spsc_head = 18446744073709551615, spsc_tail = 0,
     spsc_capacity = 2, spsc_mask = 1\<rparr>"

theorem spsc_run_fifo_witness:
  "\<exists>q'. queue_calls spsc_enqueue spsc_dequeue [Enq (Some 6), Enq (Some 7), Deq, Deq, Deq] spsc_demo_wrap =
     ([Accepted True, Accepted False, Delivered (Some 5), Delivered (Some 6), Delivered None], q') \<and>
   spsc_contents q' = []"
proof -
  have "spsc_inv spsc_demo_wrap" and "spsc_contents spsc_demo_wrap = [Some 5]" "spsc_capacity spsc_demo_wrap = 2"
    by (simp_all add: spsc_demo_wrap_def spsc_inv_def pow2_capacity_def spsc_contents_def ring_read_def
        flip: numeral_2_eq_2)
  with spsc_run_fifo [of spsc_demo_wrap "[Enq (Some 6), Enq (Some 7), Deq, Deq, Deq]"]
  show ?thesis by (auto simp del: queue_calls.simps)
qed

end
