(* ===== verification/MpmcQueue.thy ===== *)
theory MpmcQueue
  imports Ring
begin

text \<open>
  \<open>CustomMPMCLockFreeQueue\<close> of \<^verbatim>\<open>HFT/Queue.hpp\<close> with any number of producers and consumers.
  Every access to a shared variable is one step of the thread that makes it, the program counter
  of a thread (\<open>mpmc_pc\<close>) says which access comes next and holds its local variables, and the
  threads' steps interleave in any order.  A \<open>compare_exchange_weak\<close> may fail although the
  values agree (\<open>Spurious\<close>).  The logs \<open>accepted\<close> (values by the ticket their producer won at
  \<open>tail_\<close>) and \<open>returned\<close> (ticket won at \<open>head_\<close> and value returned) observe the run and are
  never read.
\<close>

record 'a cell =
  cell_seq :: u64
  cell_data :: "'a option"

record 'a mpmc =
  mpmc_buffer :: "'a cell list"
  mpmc_head :: u64
  mpmc_tail :: u64
  mpmc_capacity :: u64
  mpmc_mask :: u64

definition mpmc_new :: "u64 \<Rightarrow> 'a mpmc res" where
  "mpmc_new queueCapacity =
     (if queueCapacity = 0 \<or> queueCapacity AND (queueCapacity - 1) \<noteq> 0
      then Inl (Throw ''Capacity must be a power of two and greater than zero.'')
      else Inr \<lparr>mpmc_buffer = map (\<lambda>i. \<lparr>cell_seq = of_nat i, cell_data = None\<rparr>) [0..<unat queueCapacity],
        mpmc_head = 0, mpmc_tail = 0, mpmc_capacity = queueCapacity, mpmc_mask = queueCapacity - 1\<rparr>)"

text \<open>The difference of two counters, each first converted to \<open>int64_t\<close>, can overflow.\<close>

definition i64_diff :: "u64 \<Rightarrow> u64 \<Rightarrow> int res" where
  "i64_diff a b = (let d = sint a - sint b in
     if - (2 ^ 63) \<le> d \<and> d < 2 ^ 63 then Inr d else Inl (UB SignedOverflow))"

datatype 'a mpmc_pc = Idle
  | EnqRead "'a option" u64 | EnqCas "'a option" u64 | EnqData "'a option" u64 | EnqSeq u64
  | DeqRead u64 | DeqCas u64 | DeqData u64 | DeqSeq u64 "'a option"

record 'a mpmc_sys =
  sys_queue :: "'a mpmc"
  sys_pc :: "nat \<Rightarrow> 'a mpmc_pc"
  accepted :: "'a option list"
  returned :: "(u64 \<times> 'a option) list"

definition mpmc_sys_new :: "u64 \<Rightarrow> 'a mpmc_sys res" where
  "mpmc_sys_new queueCapacity = bind_res (mpmc_new queueCapacity)
     (\<lambda>q. Inr \<lparr>sys_queue = q, sys_pc = (\<lambda>_. Idle), accepted = [], returned = []\<rparr>)"

datatype 'a mpmc_act = CallEnq nat "'a option" | CallDeq nat | Next nat | Spurious nat

abbreviation mpmc_slot :: "'a mpmc \<Rightarrow> u64 \<Rightarrow> nat" where
  "mpmc_slot q pos \<equiv> unat (pos AND mpmc_mask q)"

text \<open>
  The next access of a thread: the shared queue, the program counter it continues at, the value it
  has just had accepted and the value it returns, if any.
\<close>

fun mpmc_next :: "'a mpmc_pc \<Rightarrow> 'a mpmc
    \<Rightarrow> ('a mpmc \<times> 'a mpmc_pc \<times> 'a option list \<times> (u64 \<times> 'a option) list) res" where
  "mpmc_next Idle q = Inr (q, Idle, [], [])"
| "mpmc_next (EnqRead ptr pos) q =
     bind_res (array_get (mpmc_buffer q) (int (mpmc_slot q pos))) (\<lambda>cell.
     bind_res (i64_diff (cell_seq cell) pos) (\<lambda>diff.
       if diff = 0 then Inr (q, EnqCas ptr pos, [], [])
       else if diff < 0 then Inr (q, Idle, [], [])
       else Inr (q, EnqRead ptr (mpmc_tail q), [], [])))"
| "mpmc_next (EnqCas ptr pos) q =
     (if mpmc_tail q = pos then Inr (q\<lparr>mpmc_tail := pos + 1\<rparr>, EnqData ptr pos, [ptr], [])
      else Inr (q, EnqRead ptr (mpmc_tail q), [], []))"
| "mpmc_next (EnqData ptr pos) q =
     bind_res (array_get (mpmc_buffer q) (int (mpmc_slot q pos))) (\<lambda>cell.
     Inr (q\<lparr>mpmc_buffer := (mpmc_buffer q)[mpmc_slot q pos := cell\<lparr>cell_data := ptr\<rparr>]\<rparr>, EnqSeq pos, [], []))"
| "mpmc_next (EnqSeq pos) q =
     bind_res (array_get (mpmc_buffer q) (int (mpmc_slot q pos))) (\<lambda>cell.
     Inr (q\<lparr>mpmc_buffer := (mpmc_buffer q)[mpmc_slot q pos := cell\<lparr>cell_seq := pos + 1\<rparr>]\<rparr>, Idle, [], []))"
| "mpmc_next (DeqRead pos) q =
     bind_res (array_get (mpmc_buffer q) (int (mpmc_slot q pos))) (\<lambda>cell.
     bind_res (i64_diff (cell_seq cell) (pos + 1)) (\<lambda>diff.
       if diff = 0 then Inr (q, DeqCas pos, [], [])
       else if diff < 0 then Inr (q, Idle, [], [])
       else Inr (q, DeqRead (mpmc_head q), [], [])))"
| "mpmc_next (DeqCas pos) q =
     (if mpmc_head q = pos then Inr (q\<lparr>mpmc_head := pos + 1\<rparr>, DeqData pos, [], [])
      else Inr (q, DeqRead (mpmc_head q), [], []))"
| "mpmc_next (DeqData pos) q =
     bind_res (array_get (mpmc_buffer q) (int (mpmc_slot q pos))) (\<lambda>cell.
     Inr (q, DeqSeq pos (cell_data cell), [], []))"
| "mpmc_next (DeqSeq pos value) q =
     bind_res (array_get (mpmc_buffer q) (int (mpmc_slot q pos))) (\<lambda>cell.
     Inr (q\<lparr>mpmc_buffer := (mpmc_buffer q)[mpmc_slot q pos := cell\<lparr>cell_seq := pos + mpmc_capacity q\<rparr>]\<rparr>,
          Idle, [], [(pos, value)]))"

definition mpmc_goto :: "nat \<Rightarrow> 'a mpmc_pc \<Rightarrow> 'a mpmc_sys \<Rightarrow> 'a mpmc_sys" where
  "mpmc_goto t pc s = s\<lparr>sys_pc := (sys_pc s)(t := pc)\<rparr>"

fun mpmc_do :: "'a mpmc_act \<Rightarrow> 'a mpmc_sys \<Rightarrow> 'a mpmc_sys res" where
  "mpmc_do (CallEnq t ptr) s =
     Inr (if sys_pc s t = Idle then mpmc_goto t (EnqRead ptr (mpmc_tail (sys_queue s))) s else s)"
| "mpmc_do (CallDeq t) s =
     Inr (if sys_pc s t = Idle then mpmc_goto t (DeqRead (mpmc_head (sys_queue s))) s else s)"
| "mpmc_do (Next t) s = bind_res (mpmc_next (sys_pc s t) (sys_queue s)) (\<lambda>(q, pc, acc, ret).
     Inr ((mpmc_goto t pc s)\<lparr>sys_queue := q, accepted := accepted s @ acc, returned := returned s @ ret\<rparr>))"
| "mpmc_do (Spurious t) s = Inr (case sys_pc s t of
     EnqCas ptr pos \<Rightarrow> mpmc_goto t (EnqRead ptr (mpmc_tail (sys_queue s))) s
   | DeqCas pos \<Rightarrow> mpmc_goto t (DeqRead (mpmc_head (sys_queue s))) s
   | _ \<Rightarrow> s)"

fun mpmc_run :: "'a mpmc_act list \<Rightarrow> 'a mpmc_sys \<Rightarrow> 'a mpmc_sys res" where
  "mpmc_run [] s = Inr s"
| "mpmc_run (a # as) s = bind_res (mpmc_do a s) (mpmc_run as)"

subsection \<open>Tickets\<close>

text \<open>
  \<open>T\<close>, \<open>H\<close> and the sequence numbers are read as naturals; while fewer than \<open>2 ^ 63\<close> tickets are
  out, none of them wraps.  A cell is in one of two phases: at sequence number \<open>n\<close> it waits for,
  or is being filled by, the producer with ticket \<open>n\<close>; at \<open>n + 1\<close> it holds the value of ticket
  \<open>n\<close>, which waits for, or is being fetched by, the consumer with that ticket.  A capacity of one
  cannot tell the two apart, hence \<open>1 < c\<close>.
\<close>

definition mpmc_shape :: "nat \<Rightarrow> 'a mpmc \<Rightarrow> bool" where
  "mpmc_shape c q \<longleftrightarrow> 1 < c \<and> (\<exists>k<63. c = 2 ^ k) \<and> unat (mpmc_capacity q) = c \<and>
     mpmc_mask q = mpmc_capacity q - 1 \<and> length (mpmc_buffer q) = c"

definition seq_at :: "'a mpmc \<Rightarrow> nat \<Rightarrow> nat" where
  "seq_at q i = unat (cell_seq (mpmc_buffer q ! i))"

definition data_at :: "'a mpmc \<Rightarrow> nat \<Rightarrow> 'a option" where
  "data_at q i = cell_data (mpmc_buffer q ! i)"

text \<open>The tickets a thread has won and not yet finished with.\<close>

fun fills :: "'a mpmc_pc \<Rightarrow> nat set" where
  "fills (EnqData x pos) = {unat pos}"
| "fills (EnqSeq pos) = {unat pos}"
| "fills _ = {}"

fun fetches :: "'a mpmc_pc \<Rightarrow> nat set" where
  "fetches (DeqData pos) = {unat pos}"
| "fetches (DeqSeq pos v) = {unat pos}"
| "fetches _ = {}"

definition filling :: "nat \<Rightarrow> nat \<Rightarrow> nat \<Rightarrow> nat \<Rightarrow> bool" where
  "filling c T i n \<longleftrightarrow> n mod c = i \<and> n < T + c \<and> T \<le> n + c"

definition holding :: "nat \<Rightarrow> nat \<Rightarrow> nat \<Rightarrow> nat \<Rightarrow> bool" where
  "holding c T i n \<longleftrightarrow> 0 < n \<and> (n - 1) mod c = i \<and> n \<le> T \<and> T < n + c"

definition cell_inv :: "nat \<Rightarrow> 'a option list \<Rightarrow> (nat \<Rightarrow> 'a mpmc_pc) \<Rightarrow> 'a mpmc \<Rightarrow> nat \<Rightarrow> bool" where
  "cell_inv c acc pcs q i \<longleftrightarrow>
     (filling c (unat (mpmc_tail q)) i (seq_at q i) \<and> seq_at q i < unat (mpmc_head q) + c \<and>
       (seq_at q i < unat (mpmc_tail q) \<longrightarrow> unat (mpmc_head q) \<le> seq_at q i \<and> (\<exists>t. seq_at q i \<in> fills (pcs t))))
     \<or> (holding c (unat (mpmc_tail q)) i (seq_at q i) \<and> data_at q i = acc ! (seq_at q i - 1) \<and>
       (seq_at q i \<le> unat (mpmc_head q) \<longrightarrow> (\<exists>t. seq_at q i - 1 \<in> fetches (pcs t))))"

fun pc_inv :: "nat \<Rightarrow> 'a option list \<Rightarrow> 'a mpmc \<Rightarrow> 'a mpmc_pc \<Rightarrow> bool" where
  "pc_inv c acc q Idle = True"
| "pc_inv c acc q (EnqRead x pos) = (unat pos \<le> unat (mpmc_tail q))"
| "pc_inv c acc q (EnqCas x pos) = (unat pos \<le> unat (mpmc_tail q) \<and>
     (unat pos = unat (mpmc_tail q) \<longrightarrow> seq_at q (unat pos mod c) = unat pos))"
| "pc_inv c acc q (EnqData x pos) = (unat pos < unat (mpmc_tail q) \<and>
     seq_at q (unat pos mod c) = unat pos \<and> acc ! unat pos = x)"
| "pc_inv c acc q (EnqSeq pos) = (unat pos < unat (mpmc_tail q) \<and>
     seq_at q (unat pos mod c) = unat pos \<and> data_at q (unat pos mod c) = acc ! unat pos)"
| "pc_inv c acc q (DeqRead pos) = (unat pos \<le> unat (mpmc_head q))"
| "pc_inv c acc q (DeqCas pos) = (unat pos \<le> unat (mpmc_head q) \<and>
     (unat pos = unat (mpmc_head q) \<longrightarrow> seq_at q (unat pos mod c) = Suc (unat pos)))"
| "pc_inv c acc q (DeqData pos) = (unat pos < unat (mpmc_head q) \<and>
     seq_at q (unat pos mod c) = Suc (unat pos))"
| "pc_inv c acc q (DeqSeq pos v) = (unat pos < unat (mpmc_head q) \<and>
     seq_at q (unat pos mod c) = Suc (unat pos) \<and> v = acc ! unat pos)"

definition own_inv :: "(nat \<Rightarrow> 'a mpmc_pc) \<Rightarrow> bool" where
  "own_inv pcs \<longleftrightarrow> (\<forall>t t'. t \<noteq> t' \<longrightarrow> fills (pcs t) \<inter> fills (pcs t') = {} \<and> fetches (pcs t) \<inter> fetches (pcs t') = {})"

definition ret_inv :: "'a option list \<Rightarrow> nat \<Rightarrow> (nat \<Rightarrow> 'a mpmc_pc) \<Rightarrow> (u64 \<times> 'a option) list \<Rightarrow> bool" where
  "ret_inv acc H pcs ret \<longleftrightarrow> distinct (map fst ret) \<and>
     (\<forall>(pos, v) \<in> set ret. unat pos < H \<and> v = acc ! unat pos \<and> (\<forall>t. unat pos \<notin> fetches (pcs t)))"

definition mpmc_inv :: "nat \<Rightarrow> 'a mpmc_sys \<Rightarrow> bool" where
  "mpmc_inv c s \<longleftrightarrow> mpmc_shape c (sys_queue s) \<and>
     unat (mpmc_tail (sys_queue s)) = length (accepted s) \<and>
     unat (mpmc_head (sys_queue s)) \<le> length (accepted s) \<and>
     length (accepted s) \<le> unat (mpmc_head (sys_queue s)) + c \<and>
     (\<forall>i<c. cell_inv c (accepted s) (sys_pc s) (sys_queue s) i) \<and>
     (\<forall>t. pc_inv c (accepted s) (sys_queue s) (sys_pc s t)) \<and>
     own_inv (sys_pc s) \<and>
     ret_inv (accepted s) (unat (mpmc_head (sys_queue s))) (sys_pc s) (returned s)"

subsection \<open>Arithmetic of tickets\<close>

lemma mod_pred_neq: "1 < c \<Longrightarrow> 0 < n \<Longrightarrow> (n - 1) mod c \<noteq> (n :: nat) mod c"
proof
  assume c: "1 < c" and n: "0 < n" and eq: "(n - 1) mod c = n mod c"
  then have "c dvd n - (n - 1)" by (metis diff_le_self mod_eq_dvd_iff_nat)
  with c n show False by simp
qed

lemma mpmc_shapeE:
  assumes "mpmc_shape c q"
  obtains k where "k < 63" and "c = 2 ^ k" and "mpmc_capacity q = 2 ^ k" and "mpmc_mask q = 2 ^ k - 1"
    and "length (mpmc_buffer q) = c" and "1 < c"
proof -
  obtain k where k: "k < 63" "c = 2 ^ k" using assms by (auto simp: mpmc_shape_def)
  have "unat (mpmc_capacity q) = unat (2 ^ k :: u64)"
    using assms k by (simp add: mpmc_shape_def unat_pow2)
  then have "mpmc_capacity q = 2 ^ k" by (simp only: unsigned_word_eqI)
  with assms k show thesis by (intro that [of k]) (auto simp: mpmc_shape_def)
qed

lemma mpmc_slot:
  assumes "mpmc_shape c q"
  shows "mpmc_slot q pos = unat pos mod c" and "unat pos mod c < length (mpmc_buffer q)"
    and "unat pos mod c < c"
proof -
  obtain k where k: "k < 63" "c = 2 ^ k" "mpmc_mask q = 2 ^ k - 1" "length (mpmc_buffer q) = c" "1 < c"
    by (rule mpmc_shapeE [OF assms])
  show "mpmc_slot q pos = unat pos mod c"
    using k unat_and_mask [of k pos] by simp
  show "unat pos mod c < length (mpmc_buffer q)" and "unat pos mod c < c"
    using k by simp_all
qed

lemma i64_diff_small:
  assumes "unat a < 2 ^ 63" and "unat b < 2 ^ 63"
  shows "i64_diff a b = Inr (int (unat a) - int (unat b))"
proof -
  have small: "sint w = int (unat w)" if "unat w < 2 ^ 63" for w :: u64
  proof -
    have "int (unat w) < int (2 ^ 63)" using that by (simp only: of_nat_less_iff)
    then have "uint w < 2 ^ 63" by simp
    moreover have "0 \<le> uint w" by simp
    ultimately have "signed_take_bit 63 (uint w) = uint w"
      by (intro signed_take_bit_int_eq_self) linarith+
    moreover have "sint w = signed_take_bit 63 (uint w)"
      by (simp only: sint_uint) simp
    ultimately show ?thesis by simp
  qed
  have "int (unat a) < int (2 ^ 63)" and "int (unat b) < int (2 ^ 63)"
    using assms by (simp_all only: of_nat_less_iff)
  then have "uint a < 2 ^ 63" and "uint b < 2 ^ 63" by simp_all
  moreover have "0 \<le> uint a" and "0 \<le> uint b" by simp_all
  ultimately have "- (2 ^ 63) \<le> uint a - uint b \<and> uint a - uint b < 2 ^ 63"
    by linarith
  then show ?thesis
    using assms by (simp add: i64_diff_def small Let_def)
qed

text \<open>Reading and updating one cell.\<close>

lemma seq_at_update [simp]:
  assumes "j < length (mpmc_buffer q)"
  shows "seq_at (q\<lparr>mpmc_buffer := (mpmc_buffer q)[j := cl]\<rparr>) i = (if i = j then unat (cell_seq cl) else seq_at q i)"
    and "data_at (q\<lparr>mpmc_buffer := (mpmc_buffer q)[j := cl]\<rparr>) i = (if i = j then cell_data cl else data_at q i)"
  using assms by (simp_all add: seq_at_def data_at_def)

lemma seq_at_counters [simp]:
  "seq_at (q\<lparr>mpmc_tail := x\<rparr>) i = seq_at q i" "data_at (q\<lparr>mpmc_tail := x\<rparr>) i = data_at q i"
  "seq_at (q\<lparr>mpmc_head := x\<rparr>) i = seq_at q i" "data_at (q\<lparr>mpmc_head := x\<rparr>) i = data_at q i"
  by (simp_all add: seq_at_def data_at_def)

lemma mpmc_shape_update [simp]:
  "mpmc_shape c (q\<lparr>mpmc_tail := x\<rparr>) = mpmc_shape c q" "mpmc_shape c (q\<lparr>mpmc_head := x\<rparr>) = mpmc_shape c q"
  "mpmc_shape c (q\<lparr>mpmc_buffer := (mpmc_buffer q)[j := cl]\<rparr>) = mpmc_shape c q"
  by (simp_all add: mpmc_shape_def)

lemma cell_inv_seq_bound:
  "cell_inv c acc pcs q i \<Longrightarrow> seq_at q i < unat (mpmc_tail q) + c \<or> seq_at q i = unat (mpmc_tail q)"
  by (auto simp: cell_inv_def filling_def holding_def)

subsection \<open>Every step preserves the invariant\<close>

lemma mpmc_goto_sel [simp]:
  "sys_queue (mpmc_goto t pc s) = sys_queue s" "accepted (mpmc_goto t pc s) = accepted s"
  "returned (mpmc_goto t pc s) = returned s" "sys_pc (mpmc_goto t pc s) = (sys_pc s)(t := pc)"
  by (simp_all add: mpmc_goto_def)

lemma own_inv_upd:
  assumes "own_inv pcs"
    and "\<And>t'. t' \<noteq> t \<Longrightarrow> fills pc \<inter> fills (pcs t') = {} \<and> fetches pc \<inter> fetches (pcs t') = {}"
  shows "own_inv (pcs(t := pc))"
  using assms unfolding own_inv_def by (simp add: Int_commute)

lemma own_inv_same:
  "own_inv pcs \<Longrightarrow> fills pc \<subseteq> fills (pcs t) \<Longrightarrow> fetches pc \<subseteq> fetches (pcs t) \<Longrightarrow> own_inv (pcs(t := pc))"
  by (rule own_inv_upd) (assumption, unfold own_inv_def, blast)

lemma own_invD:
  "own_inv pcs \<Longrightarrow> n \<in> fills (pcs t) \<Longrightarrow> n \<in> fills (pcs t') \<Longrightarrow> t' = t"
  "own_inv pcs \<Longrightarrow> n \<in> fetches (pcs t) \<Longrightarrow> n \<in> fetches (pcs t') \<Longrightarrow> t' = t"
  unfolding own_inv_def by blast+

lemma fills_bound: "pc_inv c acc q pc \<Longrightarrow> n \<in> fills pc \<Longrightarrow> n < unat (mpmc_tail q)"
  by (cases pc) auto

lemma fetches_bound: "pc_inv c acc q pc \<Longrightarrow> n \<in> fetches pc \<Longrightarrow> n < unat (mpmc_head q)"
  by (cases pc) auto

lemma fills_seq: "pc_inv c acc q pc \<Longrightarrow> n \<in> fills pc \<Longrightarrow> seq_at q (n mod c) = n"
  by (cases pc) auto

lemma fetches_seq: "pc_inv c acc q pc \<Longrightarrow> n \<in> fetches pc \<Longrightarrow> seq_at q (n mod c) = Suc n"
  by (cases pc) auto

lemma cell_inv_same:
  assumes "cell_inv c acc pcs q i" and "fills (pcs t) \<subseteq> fills pc" and "fetches (pcs t) \<subseteq> fetches pc"
  shows "cell_inv c acc (pcs(t := pc)) q i"
proof -
  have "\<exists>u. n \<in> fills ((pcs(t := pc)) u)" if "n \<in> fills (pcs u)" for n u
    using that assms by (cases "u = t") auto
  moreover have "\<exists>u. n \<in> fetches ((pcs(t := pc)) u)" if "n \<in> fetches (pcs u)" for n u
    using that assms by (cases "u = t") auto
  ultimately show ?thesis
    using assms(1) unfolding cell_inv_def by blast
qed

lemma mpmc_inv_goto:
  assumes "mpmc_inv c s" and "fills pc = fills (sys_pc s t)" and "fetches pc = fetches (sys_pc s t)"
    and "pc_inv c (accepted s) (sys_queue s) pc"
  shows "mpmc_inv c (mpmc_goto t pc s)"
proof -
  have "ret_inv (accepted s) (unat (mpmc_head (sys_queue s))) ((sys_pc s)(t := pc)) (returned s)"
    using assms by (auto simp: mpmc_inv_def ret_inv_def)
  with assms show ?thesis
    by (auto simp: mpmc_inv_def intro: own_inv_same cell_inv_same)
qed

text \<open>Rules for the two states of a cell.\<close>

lemma cell_inv_fillI:
  assumes "filling c (unat (mpmc_tail q)) i (seq_at q i)" and "seq_at q i < unat (mpmc_head q) + c"
    and "seq_at q i < unat (mpmc_tail q) \<Longrightarrow> unat (mpmc_head q) \<le> seq_at q i \<and> (\<exists>t. seq_at q i \<in> fills (pcs t))"
  shows "cell_inv c acc pcs q i"
  using assms by (simp add: cell_inv_def)

lemma cell_inv_holdI:
  assumes "holding c (unat (mpmc_tail q)) i (seq_at q i)" and "data_at q i = acc ! (seq_at q i - 1)"
    and "seq_at q i \<le> unat (mpmc_head q) \<Longrightarrow> \<exists>t. seq_at q i - 1 \<in> fetches (pcs t)"
  shows "cell_inv c acc pcs q i"
  using assms by (simp add: cell_inv_def)

lemma cell_invE:
  assumes "cell_inv c acc pcs q i"
  obtains (fill) "filling c (unat (mpmc_tail q)) i (seq_at q i)" "seq_at q i < unat (mpmc_head q) + c"
      "seq_at q i < unat (mpmc_tail q) \<Longrightarrow> unat (mpmc_head q) \<le> seq_at q i \<and> (\<exists>t. seq_at q i \<in> fills (pcs t))"
    | (hold) "holding c (unat (mpmc_tail q)) i (seq_at q i)" "data_at q i = acc ! (seq_at q i - 1)"
      "seq_at q i \<le> unat (mpmc_head q) \<Longrightarrow> \<exists>t. seq_at q i - 1 \<in> fetches (pcs t)"
  using assms unfolding cell_inv_def by blast

text \<open>The cells that are not the one of the ticket given out.\<close>

lemma cell_inv_next_tail:
  assumes old: "cell_inv c acc pcs q i" and c: "1 < c" and other: "i \<noteq> unat (mpmc_tail q) mod c"
    and T: "unat (mpmc_tail q) = length acc" and T': "unat (mpmc_tail q + 1) = Suc (unat (mpmc_tail q))"
  shows "cell_inv c (acc @ [x]) pcs (q\<lparr>mpmc_tail := mpmc_tail q + 1\<rparr>) i"
proof -
  let ?n = "seq_at q i" and ?T = "unat (mpmc_tail q)"
  from old show ?thesis
  proof (cases rule: cell_invE)
    case fill
    then have n: "?n mod c = i" by (simp add: filling_def)
    then have "?n + c \<noteq> ?T" and "?n \<noteq> ?T" using other by (metis mod_add_self2, metis)
    then have "filling c (Suc ?T) i ?n" and "?n < Suc ?T \<Longrightarrow> ?n < ?T"
      using fill(1) by (auto simp: filling_def)
    then show ?thesis using fill T' by (intro cell_inv_fillI) auto
  next
    case hold
    then have "(?n - 1) mod c = i" and n: "0 < ?n" "?n \<le> ?T" by (auto simp: holding_def)
    then have "?n - 1 + c \<noteq> ?T" using other by (metis mod_add_self2)
    then have "holding c (Suc ?T) i ?n" using hold(1) by (auto simp: holding_def)
    moreover have "?n - 1 < length acc" using n T by linarith
    then have "acc ! (?n - 1) = (acc @ [x]) ! (?n - 1)" by (simp only: nth_append if_True)
    ultimately show ?thesis using hold T' by (intro cell_inv_holdI) simp_all
  qed
qed

lemma cell_inv_next_head:
  assumes old: "cell_inv c acc pcs q i" and other: "i \<noteq> unat (mpmc_head q) mod c"
    and H': "unat (mpmc_head q + 1) = Suc (unat (mpmc_head q))"
  shows "cell_inv c acc pcs (q\<lparr>mpmc_head := mpmc_head q + 1\<rparr>) i"
proof -
  let ?n = "seq_at q i" and ?H = "unat (mpmc_head q)"
  from old show ?thesis
  proof (cases rule: cell_invE)
    case fill
    then have "?n \<noteq> ?H" using other by (auto simp: filling_def)
    then have "?H \<le> ?n \<Longrightarrow> Suc ?H \<le> ?n" by linarith
    with fill H' show ?thesis by (intro cell_inv_fillI) simp_all
  next
    case hold
    then have "?n \<noteq> Suc ?H" using other by (auto simp: holding_def)
    then have "?n \<le> Suc ?H \<longleftrightarrow> ?n \<le> ?H" by linarith
    with hold H' show ?thesis by (intro cell_inv_holdI) simp_all
  qed
qed

text \<open>A producer wins the next ticket.\<close>

lemma mpmc_inv_win_tail:
  assumes inv: "mpmc_inv c s" and pc: "sys_pc s t = EnqCas ptr (mpmc_tail (sys_queue s))"
    and few: "length (accepted s) + c < 2 ^ 63"
  shows "mpmc_inv c ((mpmc_goto t (EnqData ptr (mpmc_tail (sys_queue s))) s)\<lparr>
    sys_queue := (sys_queue s)\<lparr>mpmc_tail := mpmc_tail (sys_queue s) + 1\<rparr>, accepted := accepted s @ [ptr]\<rparr>)"
proof -
  let ?q = "sys_queue s" and ?acc = "accepted s" and ?pcs = "sys_pc s"
  let ?T = "unat (mpmc_tail ?q)" and ?pc = "EnqData ptr (mpmc_tail (sys_queue s))"
  let ?q' = "?q\<lparr>mpmc_tail := mpmc_tail ?q + 1\<rparr>"
  have shape: "mpmc_shape c ?q" and T: "?T = length ?acc" and H: "unat (mpmc_head ?q) \<le> ?T"
    and TH: "?T \<le> unat (mpmc_head ?q) + c"
    and cells: "\<And>i. i < c \<Longrightarrow> cell_inv c ?acc ?pcs ?q i"
    and pcs: "\<And>t. pc_inv c ?acc ?q (?pcs t)" and own: "own_inv ?pcs"
    and ret: "ret_inv ?acc (unat (mpmc_head ?q)) ?pcs (returned s)"
    using inv by (auto simp: mpmc_inv_def)
  have c: "1 < c" using shape by (simp add: mpmc_shape_def)
  have seqj: "seq_at ?q (?T mod c) = ?T" using pcs [of t] pc by simp
  have T': "unat (mpmc_tail ?q + 1) = Suc ?T"
    by (rule unat_plus_one) (use few T in simp)
  have "?T mod c < c" using c by simp
  moreover have "\<not> holding c ?T (?T mod c) ?T"
    using mod_pred_neq [OF c, of ?T] by (auto simp: holding_def)
  ultimately have room: "?T < unat (mpmc_head ?q) + c"
    using cells [of "?T mod c"] seqj by (auto simp: cell_inv_def)
  have cells': "cell_inv c (?acc @ [ptr]) (?pcs(t := ?pc)) ?q' i" if i: "i < c" for i
  proof (cases "i = ?T mod c")
    case True
    have "\<exists>u. ?T \<in> fills ((?pcs(t := ?pc)) u)" by (rule exI [of _ t]) simp
    then show ?thesis
      using True seqj H T' c room by (auto simp: cell_inv_def filling_def)
  next
    case False
    have "cell_inv c ?acc (?pcs(t := ?pc)) ?q i"
      using cells [OF i] pc by (intro cell_inv_same) auto
    then show ?thesis using c False T T' by (rule cell_inv_next_tail)
  qed
  have pcs': "pc_inv c (?acc @ [ptr]) ?q' ((?pcs(t := ?pc)) u)" for u
  proof (cases "u = t")
    case True
    then show ?thesis using seqj T T' by simp
  next
    case False
    then show ?thesis
      using pcs [of u] T T' H by (cases "?pcs u") (auto simp: nth_append)
  qed
  have "own_inv (?pcs(t := ?pc))"
  proof (rule own_inv_upd [OF own])
    fix u
    have "?T \<notin> fills (?pcs u)" using fills_bound [OF pcs [of u], of ?T] by auto
    then show "fills ?pc \<inter> fills (?pcs u) = {} \<and> fetches ?pc \<inter> fetches (?pcs u) = {}" by simp
  qed
  moreover have "ret_inv (?acc @ [ptr]) (unat (mpmc_head ?q)) (?pcs(t := ?pc)) (returned s)"
    using ret H T by (auto simp: ret_inv_def nth_append)
  ultimately show ?thesis
    using shape T' T H room cells' pcs' by (simp add: mpmc_inv_def)
qed

text \<open>A consumer wins the next ticket.\<close>

lemma mpmc_inv_win_head:
  assumes inv: "mpmc_inv c s" and pc: "sys_pc s t = DeqCas (mpmc_head (sys_queue s))"
    and few: "length (accepted s) + c < 2 ^ 63"
  shows "mpmc_inv c ((mpmc_goto t (DeqData (mpmc_head (sys_queue s))) s)\<lparr>
    sys_queue := (sys_queue s)\<lparr>mpmc_head := mpmc_head (sys_queue s) + 1\<rparr>\<rparr>)"
proof -
  let ?q = "sys_queue s" and ?acc = "accepted s" and ?pcs = "sys_pc s"
  let ?H = "unat (mpmc_head ?q)" and ?pc = "DeqData (mpmc_head (sys_queue s))"
  let ?q' = "?q\<lparr>mpmc_head := mpmc_head ?q + 1\<rparr>"
  have shape: "mpmc_shape c ?q" and T: "unat (mpmc_tail ?q) = length ?acc" and H: "?H \<le> length ?acc"
    and TH: "length ?acc \<le> ?H + c"
    and cells: "\<And>i. i < c \<Longrightarrow> cell_inv c ?acc ?pcs ?q i"
    and pcs: "\<And>t. pc_inv c ?acc ?q (?pcs t)" and own: "own_inv ?pcs"
    and ret: "ret_inv ?acc ?H ?pcs (returned s)"
    using inv by (auto simp: mpmc_inv_def)
  have c: "1 < c" using shape by (simp add: mpmc_shape_def)
  have seqj: "seq_at ?q (?H mod c) = Suc ?H" using pcs [of t] pc by simp
  have H': "unat (mpmc_head ?q + 1) = Suc ?H"
    by (rule unat_plus_one) (use few H in simp)
  have jc: "?H mod c < c" using c by simp
  have nf: "\<not> filling c (unat (mpmc_tail ?q)) (?H mod c) (Suc ?H)"
    using mod_pred_neq [OF c, of "Suc ?H"] by (auto simp: filling_def)
  then have hold: "holding c (unat (mpmc_tail ?q)) (?H mod c) (Suc ?H)"
    and data: "data_at ?q (?H mod c) = ?acc ! ?H"
    using cells [OF jc] seqj by (auto simp: cell_inv_def)
  then have HT: "Suc ?H \<le> unat (mpmc_tail ?q)" by (simp add: holding_def)
  have cells': "cell_inv c ?acc (?pcs(t := ?pc)) ?q' i" if i: "i < c" for i
  proof (cases "i = ?H mod c")
    case True
    have "\<exists>u. ?H \<in> fetches ((?pcs(t := ?pc)) u)" by (rule exI [of _ t]) simp
    then show ?thesis
      using True seqj H' hold data by (simp add: cell_inv_def)
  next
    case False
    have "cell_inv c ?acc (?pcs(t := ?pc)) ?q i"
      using cells [OF i] pc by (intro cell_inv_same) auto
    then show ?thesis using False H' by (rule cell_inv_next_head)
  qed
  have pcs': "pc_inv c ?acc ?q' ((?pcs(t := ?pc)) u)" for u
  proof (cases "u = t")
    case True
    then show ?thesis using seqj H' by simp
  next
    case False
    then show ?thesis
      using pcs [of u] H' by (cases "?pcs u") auto
  qed
  have nobody: "?H \<notin> fetches (?pcs u)" for u
    using fetches_bound [OF pcs [of u], of ?H] by auto
  have "own_inv (?pcs(t := ?pc))"
    by (rule own_inv_upd [OF own]) (use nobody in simp)
  moreover have "ret_inv ?acc (Suc ?H) (?pcs(t := ?pc)) (returned s)"
    using ret by (fastforce simp: ret_inv_def)
  ultimately show ?thesis
    using shape T H' HT TH cells' pcs' by (simp add: mpmc_inv_def)
qed

text \<open>A cell whose ticket a thread holds: nobody else's next step depends on it.\<close>

lemma mpmc_claim_exclusive:
  assumes pcs: "\<And>t. pc_inv c acc q (pcs t)" and own: "own_inv pcs" and "u \<noteq> t" and c: "1 < c"
    and claim: "n \<in> fills (pcs t) \<or> n \<in> fetches (pcs t)"
    and j: "n mod c < length (mpmc_buffer q)"
  shows "pc_inv c acc (q\<lparr>mpmc_buffer := (mpmc_buffer q)[n mod c := cl]\<rparr>) (pcs u)"
proof -
  have nt: "n \<notin> fills (pcs u)" if "n \<in> fills (pcs t)"
    using that own_invD(1) [OF own] assms(3) by blast
  have nh: "n \<notin> fetches (pcs u)" if "n \<in> fetches (pcs t)"
    using that own_invD(2) [OF own] assms(3) by blast
  have seq: "n \<in> fills (pcs t) \<Longrightarrow> seq_at q (n mod c) = n \<and> n < unat (mpmc_tail q)"
    "n \<in> fetches (pcs t) \<Longrightarrow> seq_at q (n mod c) = Suc n \<and> n < unat (mpmc_head q)"
    using pcs [of t] by (auto dest: fills_seq fetches_seq fills_bound fetches_bound)
  have suc: "Suc m mod c \<noteq> m mod c" for m
    using mod_pred_neq [OF c, of "Suc m"] by simp
  have other: "p mod c \<noteq> n mod c" if "p \<in> fills (pcs u) \<or> p = unat (mpmc_tail q) \<and> seq_at q (p mod c) = p" for p
  proof
    assume eq: "p mod c = n mod c"
    then have sp: "seq_at q (n mod c) = p" using that fills_seq [OF pcs [of u], of p] by auto
    from claim show False
    proof
      assume "n \<in> fills (pcs t)"
      then have "p = n" "n < unat (mpmc_tail q)" using seq sp by auto
      with nt [OF \<open>n \<in> fills (pcs t)\<close>] that show False by auto
    next
      assume "n \<in> fetches (pcs t)"
      then have "p = Suc n" using seq sp by auto
      with eq suc [of n] show False by simp
    qed
  qed
  have other': "p mod c \<noteq> n mod c"
    if "p \<in> fetches (pcs u) \<or> p = unat (mpmc_head q) \<and> seq_at q (p mod c) = Suc p" for p
  proof
    assume eq: "p mod c = n mod c"
    then have sp: "seq_at q (n mod c) = Suc p" using that fetches_seq [OF pcs [of u], of p] by auto
    from claim show False
    proof
      assume "n \<in> fills (pcs t)"
      then have "n = Suc p" using seq sp by auto
      with eq suc [of p] show False by simp
    next
      assume "n \<in> fetches (pcs t)"
      then have "p = n" "n < unat (mpmc_head q)" using seq sp by auto
      with nh [OF \<open>n \<in> fetches (pcs t)\<close>] that show False by auto
    qed
  qed
  show ?thesis
    using pcs [of u] other other' j by (cases "pcs u") auto
qed

lemma claims_single:
  "n \<in> fills pc \<Longrightarrow> fills pc = {n} \<and> fetches pc = {}"
  "n \<in> fetches pc \<Longrightarrow> fetches pc = {n} \<and> fills pc = {}"
  by (cases pc; simp)+

lemma cell_inv_other_write:
  assumes old: "cell_inv c acc pcs q i" and other: "i \<noteq> n mod c" and j: "n mod c < length (mpmc_buffer q)"
    and claim: "n \<in> fills (pcs t) \<or> n \<in> fetches (pcs t)"
  shows "cell_inv c acc (pcs(t := pc)) (q\<lparr>mpmc_buffer := (mpmc_buffer q)[n mod c := cl]\<rparr>) i"
proof -
  have not_t: "u \<noteq> t" if "m mod c = i" and "m \<in> fills (pcs u) \<or> m \<in> fetches (pcs u)" for m u
    using that other claim claims_single [of n "pcs t"] by auto
  have fills: "\<exists>u. m \<in> fills ((pcs(t := pc)) u)" if "m mod c = i" and "m \<in> fills (pcs u)" for m u
    by (rule exI [of _ u]) (use that not_t [of m u] in simp)
  have fetches: "\<exists>u. m \<in> fetches ((pcs(t := pc)) u)" if "m mod c = i" and "m \<in> fetches (pcs u)" for m u
    by (rule exI [of _ u]) (use that not_t [of m u] in simp)
  from old show ?thesis
  proof (cases rule: cell_invE)
    case fill
    then have "seq_at q i mod c = i" by (simp add: filling_def)
    with fill fills [of "seq_at q i"] other j show ?thesis by (intro cell_inv_fillI) (auto simp del: fun_upd_apply)
  next
    case hold
    then have "(seq_at q i - 1) mod c = i" by (simp add: holding_def)
    with hold fetches [of "seq_at q i - 1"] other j show ?thesis by (intro cell_inv_holdI) (auto simp del: fun_upd_apply)
  qed
qed

lemma mpmc_inv_write_cell:
  assumes inv: "mpmc_inv c s" and claim: "n \<in> fills (sys_pc s t) \<or> n \<in> fetches (sys_pc s t)"
    and q': "q' = (sys_queue s)\<lparr>mpmc_buffer := (mpmc_buffer (sys_queue s))[n mod c := cl]\<rparr>"
    and cellj: "cell_inv c (accepted s) ((sys_pc s)(t := pc)) q' (n mod c)"
    and pc: "pc_inv c (accepted s) q' pc" "fills pc \<subseteq> fills (sys_pc s t)" "fetches pc \<subseteq> fetches (sys_pc s t)"
    and ret': "ret_inv (accepted s) (unat (mpmc_head (sys_queue s))) ((sys_pc s)(t := pc)) ret"
  shows "mpmc_inv c ((mpmc_goto t pc s)\<lparr>sys_queue := q', returned := ret\<rparr>)"
proof -
  let ?q = "sys_queue s" and ?acc = "accepted s" and ?pcs = "sys_pc s"
  have shape: "mpmc_shape c ?q" and T: "unat (mpmc_tail ?q) = length ?acc" and H: "unat (mpmc_head ?q) \<le> length ?acc"
    and TH: "length ?acc \<le> unat (mpmc_head ?q) + c"
    and cells: "\<And>i. i < c \<Longrightarrow> cell_inv c ?acc ?pcs ?q i"
    and pcs: "\<And>t. pc_inv c ?acc ?q (?pcs t)" and own: "own_inv ?pcs"
    using inv by (auto simp: mpmc_inv_def)
  have c: "1 < c" using shape by (simp add: mpmc_shape_def)
  have j: "n mod c < length (mpmc_buffer ?q)" using c shape by (simp add: mpmc_shape_def)
  have cells': "cell_inv c ?acc (?pcs(t := pc)) q' i" if i: "i < c" for i
  proof (cases "i = n mod c")
    case True
    with cellj show ?thesis by simp
  next
    case False
    show ?thesis unfolding q' by (rule cell_inv_other_write [OF cells [OF i] False j claim])
  qed
  have "pc_inv c ?acc q' ((?pcs(t := pc)) u)" for u
  proof (cases "u = t")
    case True
    with pc show ?thesis by simp
  next
    case False
    with mpmc_claim_exclusive [OF pcs own False c claim j] show ?thesis unfolding q' by simp
  qed
  moreover have "own_inv (?pcs(t := pc))"
    using own pc by (intro own_inv_same)
  moreover have "mpmc_shape c q'" "mpmc_tail q' = mpmc_tail ?q" "mpmc_head q' = mpmc_head ?q"
    using shape unfolding q' by simp_all
  ultimately show ?thesis
    using T H TH cells' ret' by (simp add: mpmc_inv_def)
qed

lemma mpmc_inv_fill_data:
  assumes inv: "mpmc_inv c s" and pc: "sys_pc s t = EnqData x pos"
    and cl: "cl = (mpmc_buffer (sys_queue s) ! (unat pos mod c))\<lparr>cell_data := x\<rparr>"
  shows "mpmc_inv c ((mpmc_goto t (EnqSeq pos) s)\<lparr>
    sys_queue := (sys_queue s)\<lparr>mpmc_buffer := (mpmc_buffer (sys_queue s))[unat pos mod c := cl]\<rparr>,
    returned := returned s\<rparr>)"
proof (rule mpmc_inv_write_cell [OF inv _ refl])
  let ?q = "sys_queue s" and ?j = "unat pos mod c"
  let ?q' = "?q\<lparr>mpmc_buffer := (mpmc_buffer ?q)[?j := cl]\<rparr>"
  have pcs: "\<And>t. pc_inv c (accepted s) ?q (sys_pc s t)" and shape: "mpmc_shape c ?q"
    and cells: "\<And>i. i < c \<Longrightarrow> cell_inv c (accepted s) (sys_pc s) ?q i"
    using inv by (auto simp: mpmc_inv_def)
  have own: "unat pos < unat (mpmc_tail ?q)" "seq_at ?q ?j = unat pos" "accepted s ! unat pos = x"
    using pcs [of t] pc by auto
  note j = mpmc_slot(2,3) [OF shape, of pos]
  have c: "1 < c" using shape by (simp add: mpmc_shape_def)
  show "unat pos \<in> fills (sys_pc s t) \<or> unat pos \<in> fetches (sys_pc s t)" using pc by simp
  have "unat (cell_seq cl) = unat pos"
    using own by (simp add: cl seq_at_def)
  then have sel: "seq_at ?q' ?j = unat pos" "data_at ?q' ?j = x" "mpmc_tail ?q' = mpmc_tail ?q" "mpmc_head ?q' = mpmc_head ?q"
    using j cl by simp_all
  have "cell_inv c (accepted s) ((sys_pc s)(t := EnqSeq pos)) ?q ?j"
    using cells [OF j(2)] pc by (intro cell_inv_same) auto
  moreover have "\<not> holding c (unat (mpmc_tail ?q)) ?j (unat pos)"
    using mod_pred_neq [OF c, of "unat pos"] by (auto simp: holding_def)
  ultimately show "cell_inv c (accepted s) ((sys_pc s)(t := EnqSeq pos)) ?q' ?j"
    unfolding cell_inv_def sel own by blast
  show "pc_inv c (accepted s) ?q' (EnqSeq pos)" using own sel by simp
  show "fills (EnqSeq pos) \<subseteq> fills (sys_pc s t)" and "fetches (EnqSeq pos) \<subseteq> fetches (sys_pc s t)"
    using pc by simp_all
  show "ret_inv (accepted s) (unat (mpmc_head ?q)) ((sys_pc s)(t := EnqSeq pos)) (returned s)"
    using inv pc by (auto simp: mpmc_inv_def ret_inv_def)
qed

lemma mpmc_inv_publish:
  assumes inv: "mpmc_inv c s" and pc: "sys_pc s t = EnqSeq pos"
    and cl: "cl = (mpmc_buffer (sys_queue s) ! (unat pos mod c))\<lparr>cell_seq := pos + 1\<rparr>"
    and few: "length (accepted s) + c < 2 ^ 63"
  shows "mpmc_inv c ((mpmc_goto t Idle s)\<lparr>
    sys_queue := (sys_queue s)\<lparr>mpmc_buffer := (mpmc_buffer (sys_queue s))[unat pos mod c := cl]\<rparr>,
    returned := returned s\<rparr>)"
proof (rule mpmc_inv_write_cell [OF inv _ refl])
  let ?q = "sys_queue s" and ?j = "unat pos mod c"
  let ?q' = "?q\<lparr>mpmc_buffer := (mpmc_buffer ?q)[?j := cl]\<rparr>"
  have pcs: "\<And>t. pc_inv c (accepted s) ?q (sys_pc s t)" and shape: "mpmc_shape c ?q"
    and cells: "\<And>i. i < c \<Longrightarrow> cell_inv c (accepted s) (sys_pc s) ?q i"
    and T: "unat (mpmc_tail ?q) = length (accepted s)"
    using inv by (auto simp: mpmc_inv_def)
  have own: "unat pos < unat (mpmc_tail ?q)" "seq_at ?q ?j = unat pos" "data_at ?q ?j = accepted s ! unat pos"
    using pcs [of t] pc by auto
  note j = mpmc_slot(2,3) [OF shape, of pos]
  have c: "1 < c" using shape by (simp add: mpmc_shape_def)
  show "unat pos \<in> fills (sys_pc s t) \<or> unat pos \<in> fetches (sys_pc s t)" using pc by simp
  have "unat (pos + 1) = Suc (unat pos)"
    by (rule unat_plus_one) (use own(1) T few in simp)
  then have sel: "seq_at ?q' ?j = Suc (unat pos)" "data_at ?q' ?j = data_at ?q ?j"
    "mpmc_tail ?q' = mpmc_tail ?q" "mpmc_head ?q' = mpmc_head ?q"
    using j cl by (simp_all add: data_at_def)
  have "\<not> holding c (unat (mpmc_tail ?q)) ?j (unat pos)"
    using mod_pred_neq [OF c, of "unat pos"] by (auto simp: holding_def)
  then have "filling c (unat (mpmc_tail ?q)) ?j (unat pos)" and "unat (mpmc_head ?q) \<le> unat pos"
    using cells [OF j(2)] own by (auto simp: cell_inv_def)
  then have "holding c (unat (mpmc_tail ?q)) ?j (Suc (unat pos))" and "\<not> Suc (unat pos) \<le> unat (mpmc_head ?q)"
    using own(1) by (auto simp: filling_def holding_def)
  then show "cell_inv c (accepted s) ((sys_pc s)(t := Idle)) ?q' ?j"
    unfolding cell_inv_def sel own by simp
  show "pc_inv c (accepted s) ?q' Idle" by simp
  show "fills Idle \<subseteq> fills (sys_pc s t)" and "fetches Idle \<subseteq> fetches (sys_pc s t)"
    by simp_all
  show "ret_inv (accepted s) (unat (mpmc_head ?q)) ((sys_pc s)(t := Idle)) (returned s)"
    using inv by (auto simp: mpmc_inv_def ret_inv_def)
qed

lemma mpmc_inv_release:
  assumes inv: "mpmc_inv c s" and pc: "sys_pc s t = DeqSeq pos v"
    and cl: "cl = (mpmc_buffer (sys_queue s) ! (unat pos mod c))\<lparr>cell_seq := pos + mpmc_capacity (sys_queue s)\<rparr>"
    and few: "length (accepted s) + c < 2 ^ 63"
  shows "mpmc_inv c ((mpmc_goto t Idle s)\<lparr>
    sys_queue := (sys_queue s)\<lparr>mpmc_buffer := (mpmc_buffer (sys_queue s))[unat pos mod c := cl]\<rparr>,
    returned := returned s @ [(pos, v)]\<rparr>)"
proof (rule mpmc_inv_write_cell [OF inv _ refl])
  let ?q = "sys_queue s" and ?j = "unat pos mod c"
  let ?q' = "?q\<lparr>mpmc_buffer := (mpmc_buffer ?q)[?j := cl]\<rparr>"
  have pcs: "\<And>t. pc_inv c (accepted s) ?q (sys_pc s t)" and shape: "mpmc_shape c ?q"
    and cells: "\<And>i. i < c \<Longrightarrow> cell_inv c (accepted s) (sys_pc s) ?q i"
    and T: "unat (mpmc_tail ?q) = length (accepted s)" and HT: "unat (mpmc_head ?q) \<le> length (accepted s)"
    and own_inv: "own_inv (sys_pc s)" and ret: "ret_inv (accepted s) (unat (mpmc_head ?q)) (sys_pc s) (returned s)"
    using inv by (auto simp: mpmc_inv_def)
  have own: "unat pos < unat (mpmc_head ?q)" "seq_at ?q ?j = Suc (unat pos)" "v = accepted s ! unat pos"
    using pcs [of t] pc by auto
  note j = mpmc_slot(2,3) [OF shape, of pos]
  have c: "1 < c" using shape by (simp add: mpmc_shape_def)
  show "unat pos \<in> fills (sys_pc s t) \<or> unat pos \<in> fetches (sys_pc s t)" using pc by simp
  have "unat (mpmc_capacity ?q) = c" using shape by (simp add: mpmc_shape_def)
  then have "unat (pos + mpmc_capacity ?q) = unat pos + c"
    using own(1) HT few by (simp add: unat_word_ariths)
  then have sel: "seq_at ?q' ?j = unat pos + c" "data_at ?q' ?j = data_at ?q ?j"
    "mpmc_tail ?q' = mpmc_tail ?q" "mpmc_head ?q' = mpmc_head ?q"
    using j cl by (simp_all add: data_at_def)
  have "\<not> filling c (unat (mpmc_tail ?q)) ?j (Suc (unat pos))"
    using mod_pred_neq [OF c, of "Suc (unat pos)"] by (auto simp: filling_def)
  then have "holding c (unat (mpmc_tail ?q)) ?j (Suc (unat pos))"
    using cells [OF j(2)] own by (auto simp: cell_inv_def)
  then have "filling c (unat (mpmc_tail ?q)) ?j (unat pos + c)" and "\<not> unat pos + c < unat (mpmc_tail ?q)"
    by (auto simp: filling_def holding_def)
  moreover have "unat pos + c < unat (mpmc_head ?q) + c" using own(1) by simp
  ultimately show "cell_inv c (accepted s) ((sys_pc s)(t := Idle)) ?q' ?j"
    unfolding cell_inv_def sel by simp
  show "pc_inv c (accepted s) ?q' Idle" by simp
  show "fills Idle \<subseteq> fills (sys_pc s t)" and "fetches Idle \<subseteq> fetches (sys_pc s t)"
    by simp_all
  have mine: "unat pos \<in> fetches (sys_pc s t)" using pc by simp
  have fresh: "pos \<notin> fst ` set (returned s)"
  proof
    assume "pos \<in> fst ` set (returned s)"
    then obtain w where "(pos, w) \<in> set (returned s)" by auto
    with ret mine show False by (fastforce simp: ret_inv_def)
  qed
  have "unat pos \<notin> fetches (((sys_pc s)(t := Idle)) u)" for u
    using own_invD(2) [OF own_inv mine, of u] by auto
  then show "ret_inv (accepted s) (unat (mpmc_head ?q)) ((sys_pc s)(t := Idle)) (returned s @ [(pos, v)])"
    using ret own fresh by (auto simp: ret_inv_def)
qed

text \<open>The fields that an action of \<open>mpmc_do\<close> writes back unchanged.\<close>

lemma mpmc_goto_put:
  "(mpmc_goto t pc s)\<lparr>sys_queue := sys_queue s\<rparr> = mpmc_goto t pc s"
  "(mpmc_goto t pc s)\<lparr>accepted := accepted s\<rparr> = mpmc_goto t pc s"
  "(mpmc_goto t pc s)\<lparr>returned := returned s\<rparr> = mpmc_goto t pc s"
  "(mpmc_goto t pc s)\<lparr>sys_queue := q, accepted := accepted s, returned := ret\<rparr>
    = (mpmc_goto t pc s)\<lparr>sys_queue := q, returned := ret\<rparr>"
  "(mpmc_goto t pc s)\<lparr>sys_queue := q, accepted := acc, returned := returned s\<rparr>
    = (mpmc_goto t pc s)\<lparr>sys_queue := q, accepted := acc\<rparr>"
  by (simp_all add: mpmc_goto_def)

lemma mpmc_get_cell:
  assumes "mpmc_shape c q"
  shows "array_get (mpmc_buffer q) (int (mpmc_slot q p)) = Inr (mpmc_buffer q ! (unat p mod c))"
  using mpmc_slot [OF assms, of p] by (simp only: array_get_nat)

text \<open>
  The difference a reader of a cell branches on: \<open>p\<close> is its ticket, one more for a consumer.  All
  tickets and sequence numbers are below \<open>2 ^ 63\<close>, so it is the difference of the numbers.
\<close>

lemma mpmc_diff:
  assumes inv: "mpmc_inv c s" and few: "length (accepted s) + c + 1 < 2 ^ 63"
    and r: "r < c" and p: "unat p < 2 ^ 63"
  shows "i64_diff (cell_seq (mpmc_buffer (sys_queue s) ! r)) p = Inr (int (seq_at (sys_queue s) r) - int (unat p))"
proof -
  have "cell_inv c (accepted s) (sys_pc s) (sys_queue s) r" and T: "unat (mpmc_tail (sys_queue s)) = length (accepted s)"
    using inv r by (auto simp: mpmc_inv_def)
  then have "seq_at (sys_queue s) r < 2 ^ 63"
    using cell_inv_seq_bound [of c "accepted s" "sys_pc s" "sys_queue s" r] few T by auto
  moreover have "unat (cell_seq (mpmc_buffer (sys_queue s) ! r)) = seq_at (sys_queue s) r" by (simp add: seq_at_def)
  ultimately show ?thesis using i64_diff_small [of "cell_seq (mpmc_buffer (sys_queue s) ! r)" p] p by simp
qed

text \<open>One action of any thread: no undefined behaviour, and the invariant again.\<close>

definition action_ok :: "nat \<Rightarrow> 'a mpmc_sys \<Rightarrow> 'a mpmc_sys res \<Rightarrow> bool" where
  "action_ok c s r \<longleftrightarrow> (\<exists>s'. r = Inr s' \<and> mpmc_inv c s' \<and> length (accepted s') \<le> length (accepted s) + 1)"

lemma mpmc_enq_read_ok:
  assumes inv: "mpmc_inv c s" and few: "length (accepted s) + c + 1 < 2 ^ 63" and at: "sys_pc s t = EnqRead x pos"
  shows "action_ok c s (mpmc_do (Next t) s)"
proof -
  let ?q = "sys_queue s"
  have "pc_inv c (accepted s) ?q (EnqRead x pos)" and shape: "mpmc_shape c ?q"
    and T: "unat (mpmc_tail ?q) = length (accepted s)"
    using inv at [symmetric] by (auto simp: mpmc_inv_def)
  then have pos: "unat pos \<le> unat (mpmc_tail ?q)" by simp
  have c: "unat pos mod c < c" using shape by (simp add: mpmc_shape_def)
  define n p where "n = seq_at ?q (unat pos mod c)" and "p = unat pos"
  have "unat pos < 2 ^ 63" using pos T few by simp
  then have d: "i64_diff (cell_seq (mpmc_buffer ?q ! (unat pos mod c))) pos = Inr (int n - int p)"
    unfolding n_def p_def by (rule mpmc_diff [OF inv few c])
  have "n = p \<Longrightarrow> mpmc_inv c (mpmc_goto t (EnqCas x pos) s)"
    by (rule mpmc_inv_goto [OF inv]) (use at pos in \<open>auto simp: n_def p_def\<close>)
  moreover have "mpmc_inv c (mpmc_goto t Idle s)" and "mpmc_inv c (mpmc_goto t (EnqRead x (mpmc_tail ?q)) s)"
    by (rule mpmc_inv_goto [OF inv]; use at in simp)+
  ultimately show ?thesis
    unfolding mpmc_do.simps at mpmc_next.simps mpmc_get_cell [OF shape] d bind_res_simps
    by (simp add: mpmc_goto_put action_ok_def)
qed

lemma mpmc_deq_read_ok:
  assumes inv: "mpmc_inv c s" and few: "length (accepted s) + c + 1 < 2 ^ 63" and at: "sys_pc s t = DeqRead pos"
  shows "action_ok c s (mpmc_do (Next t) s)"
proof -
  let ?q = "sys_queue s"
  have "pc_inv c (accepted s) ?q (DeqRead pos)" and shape: "mpmc_shape c ?q"
    and HT: "unat (mpmc_head ?q) \<le> length (accepted s)"
    using inv at [symmetric] by (auto simp: mpmc_inv_def)
  then have pos: "unat pos \<le> unat (mpmc_head ?q)" by simp
  have c: "unat pos mod c < c" using shape by (simp add: mpmc_shape_def)
  define n p where "n = seq_at ?q (unat pos mod c)" and "p = unat pos"
  have small: "unat pos < 2 ^ 63 - 1" using pos HT few by simp
  then have suc: "unat (pos + 1) = Suc p" unfolding p_def by (intro unat_plus_one) simp
  have d: "i64_diff (cell_seq (mpmc_buffer ?q ! (unat pos mod c))) (pos + 1) = Inr (int n - int (Suc p))"
    using mpmc_diff [OF inv few c, of "pos + 1"] small unfolding n_def suc by (simp add: p_def)
  have "n = Suc p \<Longrightarrow> mpmc_inv c (mpmc_goto t (DeqCas pos) s)"
    by (rule mpmc_inv_goto [OF inv]) (use at pos in \<open>auto simp: n_def p_def\<close>)
  moreover have "mpmc_inv c (mpmc_goto t Idle s)" and "mpmc_inv c (mpmc_goto t (DeqRead (mpmc_head ?q)) s)"
    by (rule mpmc_inv_goto [OF inv]; use at in simp)+
  ultimately show ?thesis
    unfolding mpmc_do.simps at mpmc_next.simps mpmc_get_cell [OF shape] d bind_res_simps
    by (auto simp: mpmc_goto_put action_ok_def)
qed

text \<open>The two compare-and-swaps: they win the ticket, or read again.\<close>

lemma mpmc_enq_cas_ok:
  assumes inv: "mpmc_inv c s" and few: "length (accepted s) + c < 2 ^ 63" and at: "sys_pc s t = EnqCas x pos"
  shows "action_ok c s (mpmc_do (Next t) s)"
proof (cases "mpmc_tail (sys_queue s) = pos")
  case True
  with at have "sys_pc s t = EnqCas x (mpmc_tail (sys_queue s))" by simp
  from mpmc_inv_win_tail [OF inv this few] at True show ?thesis
    by (simp add: mpmc_goto_put action_ok_def)
next
  case False
  with at mpmc_inv_goto [OF inv, of "EnqRead x (mpmc_tail (sys_queue s))"] show ?thesis
    by (simp add: mpmc_goto_put action_ok_def)
qed

lemma mpmc_deq_cas_ok:
  assumes inv: "mpmc_inv c s" and few: "length (accepted s) + c < 2 ^ 63" and at: "sys_pc s t = DeqCas pos"
  shows "action_ok c s (mpmc_do (Next t) s)"
proof (cases "mpmc_head (sys_queue s) = pos")
  case True
  with at have "sys_pc s t = DeqCas (mpmc_head (sys_queue s))" by simp
  from mpmc_inv_win_head [OF inv this few] at True show ?thesis
    by (simp add: mpmc_goto_def action_ok_def)
next
  case False
  with at mpmc_inv_goto [OF inv, of "DeqRead (mpmc_head (sys_queue s))"] show ?thesis
    by (simp add: mpmc_goto_put action_ok_def)
qed

lemma mpmc_deq_data_ok:
  assumes inv: "mpmc_inv c s" and at: "sys_pc s t = DeqData pos"
  shows "action_ok c s (mpmc_do (Next t) s)"
proof -
  let ?q = "sys_queue s" and ?j = "unat pos mod c"
  have shape: "mpmc_shape c ?q" and mine: "pc_inv c (accepted s) ?q (DeqData pos)"
    and cells: "\<And>i. i < c \<Longrightarrow> cell_inv c (accepted s) (sys_pc s) ?q i"
    using inv at [symmetric] by (auto simp: mpmc_inv_def)
  have c: "1 < c" using shape by (simp add: mpmc_shape_def)
  have "cell_inv c (accepted s) (sys_pc s) ?q ?j" by (rule cells) (use c in simp)
  moreover have "seq_at ?q ?j = Suc (unat pos)" using mine by simp
  moreover have "\<not> filling c (unat (mpmc_tail ?q)) ?j (Suc (unat pos))"
    using mod_pred_neq [OF c, of "Suc (unat pos)"] by (auto simp: filling_def)
  ultimately have "cell_data (mpmc_buffer ?q ! ?j) = accepted s ! unat pos"
    by (simp add: cell_inv_def data_at_def)
  with at mine mpmc_inv_goto [OF inv, of "DeqSeq pos (accepted s ! unat pos)"] show ?thesis
    by (simp only: mpmc_do.simps mpmc_next.simps mpmc_get_cell [OF shape] bind_res_simps)
      (simp add: mpmc_goto_put action_ok_def)
qed

lemma mpmc_next_ok:
  assumes inv: "mpmc_inv c s" and few: "length (accepted s) + c + 1 < 2 ^ 63"
  shows "action_ok c s (mpmc_do (Next t) s)"
proof -
  have shape: "mpmc_shape c (sys_queue s)" using inv by (simp add: mpmc_inv_def)
  have few': "length (accepted s) + c < 2 ^ 63" using few by simp
  note cell = mpmc_get_cell [OF shape] and slot = mpmc_slot [OF shape]
  note access = cell cell [unfolded slot(1)] slot bind_res_simps mpmc_do.simps mpmc_next.simps
  show ?thesis
  proof (cases "sys_pc s t")
    case Idle
    with inv mpmc_inv_goto [OF inv, of Idle] show ?thesis by (simp add: mpmc_goto_put action_ok_def)
  next
    case (EnqData x pos)
    from mpmc_inv_fill_data [OF inv EnqData refl] show ?thesis
      by (simp only: access EnqData) (simp add: mpmc_goto_put action_ok_def)
  next
    case (EnqSeq pos)
    from mpmc_inv_publish [OF inv EnqSeq refl few'] show ?thesis
      by (simp only: access EnqSeq) (simp add: mpmc_goto_put action_ok_def)
  next
    case (DeqSeq pos v)
    from mpmc_inv_release [OF inv DeqSeq refl few'] show ?thesis
      by (simp only: access DeqSeq) (simp add: mpmc_goto_put action_ok_def)
  qed (use mpmc_enq_read_ok [OF inv few] mpmc_enq_cas_ok [OF inv few'] mpmc_deq_read_ok [OF inv few]
        mpmc_deq_cas_ok [OF inv few'] mpmc_deq_data_ok [OF inv] in blast)+
qed

lemma mpmc_do_ok:
  assumes inv: "mpmc_inv c s" and few: "length (accepted s) + c + 1 < 2 ^ 63"
  shows "\<exists>s'. mpmc_do a s = Inr s' \<and> mpmc_inv c s' \<and> length (accepted s') \<le> length (accepted s) + 1"
proof (cases a)
  case (CallEnq t p)
  have "sys_pc s t = Idle \<Longrightarrow> mpmc_inv c (mpmc_goto t (EnqRead p (mpmc_tail (sys_queue s))) s)"
    by (rule mpmc_inv_goto [OF inv]) simp_all
  with inv CallEnq show ?thesis by simp
next
  case (CallDeq t)
  have "sys_pc s t = Idle \<Longrightarrow> mpmc_inv c (mpmc_goto t (DeqRead (mpmc_head (sys_queue s))) s)"
    by (rule mpmc_inv_goto [OF inv]) simp_all
  with inv CallDeq show ?thesis by simp
next
  case (Next t)
  with mpmc_next_ok [OF assms] show ?thesis by (simp add: action_ok_def)
next
  case (Spurious t)
  have "mpmc_inv c (mpmc_goto t (EnqRead p (mpmc_tail (sys_queue s))) s)" if "sys_pc s t = EnqCas p pos" for p pos
    by (rule mpmc_inv_goto [OF inv]) (simp_all add: that)
  moreover have "mpmc_inv c (mpmc_goto t (DeqRead (mpmc_head (sys_queue s))) s)" if "sys_pc s t = DeqCas pos" for pos
    by (rule mpmc_inv_goto [OF inv]) (simp_all add: that)
  ultimately show ?thesis
    using inv Spurious by (auto split: mpmc_pc.split)
qed

lemma mpmc_run_ok:
  assumes "mpmc_inv c s" and "length (accepted s) + length acts + c < 2 ^ 63"
  shows "\<exists>s'. mpmc_run acts s = Inr s' \<and> mpmc_inv c s' \<and>
    length (accepted s') \<le> length (accepted s) + length acts"
  using assms
proof (induction acts arbitrary: s)
  case Nil
  then show ?case by simp
next
  case (Cons a acts)
  then obtain s1 where s1: "mpmc_do a s = Inr s1" "mpmc_inv c s1" "length (accepted s1) \<le> length (accepted s) + 1"
    using mpmc_do_ok [of c s a] by auto
  moreover have "length (accepted s1) + length acts + c < 2 ^ 63"
    using s1(3) Cons.prems(2) by simp
  ultimately obtain s' where "mpmc_run acts s1 = Inr s'" "mpmc_inv c s'"
      "length (accepted s') \<le> length (accepted s1) + length acts"
    using Cons.IH [of s1] by auto
  with s1 show ?case by auto
qed

lemma mpmc_sys_new_inv:
  assumes "mpmc_sys_new cap = Inr s" and "1 < unat cap" and "unat cap < 2 ^ 63"
  shows "mpmc_inv (unat cap) s \<and> accepted s = [] \<and> (\<forall>t. sys_pc s t = Idle) \<and> returned s = []"
proof -
  have p2: "pow2_capacity cap" and s: "sys_pc s = (\<lambda>_. Idle)" "accepted s = []" "returned s = []"
    "sys_queue s = \<lparr>mpmc_buffer = map (\<lambda>i. \<lparr>cell_seq = of_nat i, cell_data = None\<rparr>) [0..<unat cap],
        mpmc_head = 0, mpmc_tail = 0, mpmc_capacity = cap, mpmc_mask = cap - 1\<rparr>"
    using assms(1) by (auto simp: mpmc_sys_new_def mpmc_new_def pow2_capacity_def split: if_splits)
  obtain k where k: "k < 64" "cap = 2 ^ k" by (rule pow2_capacityE [OF p2])
  then have "unat cap = 2 ^ k" by (simp only: unat_pow2)
  moreover have "k < 63"
  proof (rule ccontr)
    assume "\<not> k < 63"
    then have "(2 :: nat) ^ 63 \<le> 2 ^ k" by (intro power_increasing) auto
    with assms(3) \<open>unat cap = 2 ^ k\<close> show False by simp
  qed
  ultimately have shape: "mpmc_shape (unat cap) (sys_queue s)"
    using assms(2) s by (auto simp: mpmc_shape_def)
  have seq: "seq_at (sys_queue s) i = i" if "i < unat cap" for i
  proof -
    have "unat (of_nat i :: u64) = take_bit 64 i" by (simp add: unsigned_of_nat)
    also have "\<dots> = i" using that assms(3) by (intro take_bit_nat_eq_self) simp
    finally show ?thesis using that s by (simp add: seq_at_def)
  qed
  have "cell_inv (unat cap) [] (sys_pc s) (sys_queue s) i" if "i < unat cap" for i
    using that seq [OF that] s by (simp add: cell_inv_def filling_def)
  then show ?thesis
    using shape s by (simp add: mpmc_inv_def own_inv_def ret_inv_def)
qed

subsection \<open>Operations that nobody interrupts\<close>

lemma mod_near: "a mod c = b mod c \<Longrightarrow> a \<le> b \<Longrightarrow> b < a + c \<Longrightarrow> a = (b :: nat)"
  by (metis add_diff_cancel_left' le_add_diff_inverse less_diff_conv2 linorder_not_le mod_eq_dvd_iff_nat nat_dvd_not_less
      diff_is_0_eq' diff_diff_cancel zero_less_diff diff_less_mono2 less_imp_diff_less add.commute)

lemma mpmc_quiet_tail:
  assumes inv: "mpmc_inv c s" and quiet: "\<And>t. sys_pc s t = Idle"
  shows "seq_at (sys_queue s) (length (accepted s) mod c) =
    (if length (accepted s) < unat (mpmc_head (sys_queue s)) + c then length (accepted s)
     else Suc (length (accepted s) - c))"
proof -
  let ?q = "sys_queue s" and ?T = "length (accepted s)" and ?H = "unat (mpmc_head (sys_queue s))"
  define n where "n = seq_at ?q (?T mod c)"
  have c: "1 < c" and T: "unat (mpmc_tail ?q) = ?T" and H: "?H \<le> ?T" and TH: "?T \<le> ?H + c"
    and cells: "\<And>i. i < c \<Longrightarrow> cell_inv c (accepted s) (sys_pc s) ?q i"
    using inv by (auto simp: mpmc_inv_def mpmc_shape_def)
  have nobody: "m \<notin> fills (sys_pc s t)" "m \<notin> fetches (sys_pc s t)" for m t
    by (simp_all add: quiet)
  have "cell_inv c (accepted s) (sys_pc s) ?q (?T mod c)" using c by (intro cells) simp
  then have "n = (if ?T < ?H + c then ?T else Suc (?T - c))" (is ?goal)
  proof (unfold cell_inv_def T n_def [symmetric], elim disjE conjE)
    assume f: "filling c ?T (?T mod c) n" and room: "n < ?H + c"
      and w: "n < ?T \<longrightarrow> ?H \<le> n \<and> (\<exists>t. n \<in> fills (sys_pc s t))"
    have "?T \<le> n" using w nobody(1) [of n] by (meson linorder_not_less)
    moreover have "n mod c = ?T mod c" and "n < ?T + c" using f unfolding filling_def by blast+
    ultimately have "?T = n" using mod_near [of ?T c n] by presburger
    with room show ?goal by simp
  next
    assume f: "holding c ?T (?T mod c) n" and w: "n \<le> ?H \<longrightarrow> (\<exists>t. n - 1 \<in> fetches (sys_pc s t))"
    have hn: "?H < n" using w nobody(2) [of "n - 1"] by (meson linorder_not_less)
    have n: "(n - 1) mod c = ?T mod c" "0 < n" "n \<le> ?T" "?T < n + c"
      using f unfolding holding_def by blast+
    have "(n - 1 + c) mod c = ?T mod c" using n(1) by simp
    then have "?T = n - 1 + c" using mod_near [of ?T c "n - 1 + c"] n(2-4) by linarith
    with n(2) hn TH show ?goal by auto
  qed
  then show ?thesis by (simp only: n_def)
qed

lemma mpmc_quiet_head:
  assumes inv: "mpmc_inv c s" and quiet: "\<And>t. sys_pc s t = Idle"
  shows "if unat (mpmc_head (sys_queue s)) < length (accepted s)
    then seq_at (sys_queue s) (unat (mpmc_head (sys_queue s)) mod c) = Suc (unat (mpmc_head (sys_queue s)))
    else seq_at (sys_queue s) (unat (mpmc_head (sys_queue s)) mod c) = unat (mpmc_head (sys_queue s))"
proof -
  let ?q = "sys_queue s" and ?T = "length (accepted s)" and ?H = "unat (mpmc_head (sys_queue s))"
  define n where "n = seq_at ?q (?H mod c)"
  have c: "1 < c" and T: "unat (mpmc_tail ?q) = ?T" and H: "?H \<le> ?T" and TH: "?T \<le> ?H + c"
    and cells: "\<And>i. i < c \<Longrightarrow> cell_inv c (accepted s) (sys_pc s) ?q i"
    using inv by (auto simp: mpmc_inv_def mpmc_shape_def)
  have nobody: "m \<notin> fills (sys_pc s t)" "m \<notin> fetches (sys_pc s t)" for m t
    by (simp_all add: quiet)
  have "cell_inv c (accepted s) (sys_pc s) ?q (?H mod c)" using c by (intro cells) simp
  then have "if ?H < ?T then n = Suc ?H else n = ?H" (is ?goal)
  proof (unfold cell_inv_def T n_def [symmetric], elim disjE conjE)
    assume f: "filling c ?T (?H mod c) n" and room: "n < ?H + c"
      and w: "n < ?T \<longrightarrow> ?H \<le> n \<and> (\<exists>t. n \<in> fills (sys_pc s t))"
    have "?T \<le> n" using w nobody(1) [of n] by (meson linorder_not_less)
    moreover have "n mod c = ?H mod c" using f unfolding filling_def by blast
    ultimately have "?H = n" using mod_near [of ?H c n] H room by linarith
    with H \<open>?T \<le> n\<close> show ?goal by simp
  next
    assume f: "holding c ?T (?H mod c) n" and w: "n \<le> ?H \<longrightarrow> (\<exists>t. n - 1 \<in> fetches (sys_pc s t))"
    have hn: "?H < n" using w nobody(2) [of "n - 1"] by (meson linorder_not_less)
    have n: "(n - 1) mod c = ?H mod c" "0 < n" "n \<le> ?T" "?T < n + c"
      using f unfolding holding_def by blast+
    have "?H = n - 1" using mod_near [of ?H c "n - 1"] n hn TH by linarith
    with n hn show ?goal by auto
  qed
  then show ?thesis by (simp only: n_def)
qed

definition solo_enqueue :: "nat \<Rightarrow> 'a option \<Rightarrow> 'a mpmc_act list" where
  "solo_enqueue t ptr = CallEnq t ptr # replicate 4 (Next t)"

definition solo_dequeue :: "nat \<Rightarrow> 'a mpmc_act list" where
  "solo_dequeue t = CallDeq t # replicate 4 (Next t)"

lemma mpmc_next_seq:
  fixes p p' :: u64
  assumes inv: "mpmc_inv c s" and few: "length (accepted s) + c < 2 ^ 63"
  shows "array_get (mpmc_buffer (sys_queue s)) (int (mpmc_slot (sys_queue s) p))
      = Inr (mpmc_buffer (sys_queue s) ! (unat p mod c))"
    and "unat p < 2 ^ 63 \<Longrightarrow> i64_diff (cell_seq (mpmc_buffer (sys_queue s) ! (unat p' mod c))) p
      = Inr (int (seq_at (sys_queue s) (unat p' mod c)) - int (unat p))"
proof -
  let ?q = "sys_queue s"
  have shape: "mpmc_shape c ?q" and T: "unat (mpmc_tail ?q) = length (accepted s)"
    and cells: "\<And>i. i < c \<Longrightarrow> cell_inv c (accepted s) (sys_pc s) ?q i"
    using inv by (auto simp: mpmc_inv_def)
  show "array_get (mpmc_buffer ?q) (int (mpmc_slot ?q p)) = Inr (mpmc_buffer ?q ! (unat p mod c))"
    using mpmc_slot [OF shape, of p] by (simp only: array_get_nat)
  have "seq_at ?q (unat p' mod c) < 2 ^ 63"
    using cell_inv_seq_bound [OF cells [OF mpmc_slot(3) [OF shape, of p']]] few T by auto
  then show "i64_diff (cell_seq (mpmc_buffer ?q ! (unat p' mod c))) p
      = Inr (int (seq_at ?q (unat p' mod c)) - int (unat p))" if "unat p < 2 ^ 63"
    using i64_diff_small [of "cell_seq (mpmc_buffer ?q ! (unat p' mod c))" p] that by (simp only: seq_at_def)
qed

lemma mpmc_goto_goto [simp]: "mpmc_goto t pc (mpmc_goto t pc' s) = mpmc_goto t pc s"
  by (simp add: mpmc_goto_def)

lemma mpmc_goto_idle: "sys_pc s t = Idle \<Longrightarrow> mpmc_goto t Idle s = s"
  by (simp add: mpmc_goto_def fun_upd_idem)

lemma solo_enqueue_run:
  assumes inv: "mpmc_inv c s" and few: "length (accepted s) + c < 2 ^ 63"
    and quiet: "\<And>t. sys_pc s t = Idle"
  shows "\<exists>s'. mpmc_run (solo_enqueue t ptr) s = Inr s' \<and> (\<forall>u. sys_pc s' u = Idle) \<and> returned s' = returned s \<and>
    mpmc_head (sys_queue s') = mpmc_head (sys_queue s) \<and>
    accepted s' = accepted s @ (if length (accepted s) < unat (mpmc_head (sys_queue s)) + c then [ptr] else [])"
proof -
  let ?q = "sys_queue s" and ?p = "mpmc_tail (sys_queue s)" and ?T = "length (accepted s)"
  let ?room = "?T < unat (mpmc_head ?q) + c"
  have shape: "mpmc_shape c ?q" and T: "unat ?p = ?T" and TH: "?T \<le> unat (mpmc_head ?q) + c" and c: "1 < c"
    using inv by (auto simp: mpmc_inv_def mpmc_shape_def)
  have get: "array_get (mpmc_buffer ?q) (int (mpmc_slot ?q ?p)) = Inr (mpmc_buffer ?q ! (?T mod c))"
    using mpmc_next_seq(1) [OF inv few, of ?p] T by simp
  have "unat ?p < 2 ^ 63" using few T by simp
  then have diff: "i64_diff (cell_seq (mpmc_buffer ?q ! (?T mod c))) ?p
      = Inr (if ?room then 0 else int (Suc (?T - c)) - int ?T)"
    using mpmc_next_seq(2) [OF inv few, of ?p ?p] mpmc_quiet_tail [OF inv quiet]
    unfolding T by (simp split del: if_split) simp
  have first: "mpmc_next (EnqRead ptr ?p) ?q = Inr (q', if ?room then EnqCas ptr ?p else Idle, [], [])" if "q' = ?q" for q'
    using TH c unfolding mpmc_next.simps get bind_res_simps diff that by auto
  show ?thesis
  proof (cases ?room)
    case False
    with first [OF refl] have "mpmc_run (solo_enqueue t ptr) s = Inr s"
      using quiet [of t]
      by (simp add: solo_enqueue_def numeral_eq_Suc mpmc_goto_idle)
    with False quiet show ?thesis by simp
  next
    case True
    let ?q1 = "?q\<lparr>mpmc_tail := ?p + 1\<rparr>"
    let ?b = "(mpmc_buffer ?q)[?T mod c := (mpmc_buffer ?q ! (?T mod c))\<lparr>cell_data := ptr\<rparr>]"
    let ?q2 = "?q1\<lparr>mpmc_buffer := ?b\<rparr>"
    let ?q3 = "?q2\<lparr>mpmc_buffer := ?b[?T mod c := (?b ! (?T mod c))\<lparr>cell_seq := ?p + 1\<rparr>]\<rparr>"
    note slot = mpmc_slot [OF shape, of ?p, unfolded T]
    have slots: "mpmc_slot ?q1 ?p = ?T mod c" "mpmc_slot ?q2 ?p = ?T mod c" using slot by simp_all
    have "array_get (mpmc_buffer ?q1) (int (?T mod c)) = Inr (mpmc_buffer ?q ! (?T mod c))"
      "array_get (mpmc_buffer ?q2) (int (?T mod c)) = Inr (?b ! (?T mod c))"
      by (subst array_get_nat; use slot(2) in simp)+
    then have steps: "mpmc_next (EnqCas ptr ?p) ?q = Inr (?q1, EnqData ptr ?p, [ptr], [])"
      "mpmc_next (EnqData ptr ?p) ?q1 = Inr (?q2, EnqSeq ?p, [], [])"
      "mpmc_next (EnqSeq ?p) ?q2 = Inr (?q3, Idle, [], [])"
      unfolding mpmc_next.simps slots by simp_all
    have "mpmc_run (solo_enqueue t ptr) s
      = Inr ((mpmc_goto t Idle s)\<lparr>sys_queue := ?q3, accepted := accepted s @ [ptr]\<rparr>)"
      unfolding solo_enqueue_def using quiet [of t] first [OF refl] True steps
      by (simp add: numeral_eq_Suc mpmc_goto_def del: mpmc_next.simps)
    then show ?thesis using True quiet by (simp add: mpmc_goto_def)
  qed
qed

lemma solo_dequeue_run:
  assumes inv: "mpmc_inv c s" and few: "length (accepted s) + c < 2 ^ 63"
    and quiet: "\<And>t. sys_pc s t = Idle"
  shows "\<exists>s'. mpmc_run (solo_dequeue t) s = Inr s' \<and> (\<forall>u. sys_pc s' u = Idle) \<and> accepted s' = accepted s \<and>
    (if unat (mpmc_head (sys_queue s)) < length (accepted s)
     then mpmc_head (sys_queue s') = mpmc_head (sys_queue s) + 1 \<and>
       returned s' = returned s @ [(mpmc_head (sys_queue s), accepted s ! unat (mpmc_head (sys_queue s)))]
     else s' = s)"
proof -
  let ?q = "sys_queue s" and ?p = "mpmc_head (sys_queue s)" and ?T = "length (accepted s)"
  let ?H = "unat (mpmc_head (sys_queue s))"
  have shape: "mpmc_shape c ?q" and T: "unat (mpmc_tail ?q) = ?T" and HT: "?H \<le> ?T" and c: "1 < c"
    and cells: "\<And>i. i < c \<Longrightarrow> cell_inv c (accepted s) (sys_pc s) ?q i"
    using inv by (auto simp: mpmc_inv_def mpmc_shape_def)
  have get: "array_get (mpmc_buffer ?q) (int (mpmc_slot ?q ?p)) = Inr (mpmc_buffer ?q ! (?H mod c))"
    using mpmc_next_seq(1) [OF inv few, of ?p] by simp
  have suc: "unat (?p + 1) = Suc ?H" by (rule unat_plus_one) (use few HT in simp)
  then have "unat (?p + 1) < 2 ^ 63" using few HT c by simp
  then have diff: "i64_diff (cell_seq (mpmc_buffer ?q ! (?H mod c))) (?p + 1)
      = Inr (if ?H < ?T then 0 else - 1)"
    using mpmc_next_seq(2) [OF inv few, of "?p + 1" ?p] mpmc_quiet_head [OF inv quiet]
    unfolding suc by (simp split: if_split_asm)
  have first: "mpmc_next (DeqRead ?p) ?q = Inr (?q, if ?H < ?T then DeqCas ?p else Idle, [], [])"
    unfolding mpmc_next.simps get bind_res_simps diff by simp
  show ?thesis
  proof (cases "?H < ?T")
    case False
    with first have "mpmc_run (solo_dequeue t) s = Inr s"
      using quiet [of t] by (simp add: solo_dequeue_def numeral_eq_Suc mpmc_goto_idle)
    with False quiet show ?thesis by simp
  next
    case True
    let ?q1 = "?q\<lparr>mpmc_head := ?p + 1\<rparr>" and ?v = "accepted s ! ?H"
    let ?q2 = "?q1\<lparr>mpmc_buffer := (mpmc_buffer ?q)[?H mod c :=
      (mpmc_buffer ?q ! (?H mod c))\<lparr>cell_seq := ?p + mpmc_capacity ?q\<rparr>]\<rparr>"
    note slot = mpmc_slot [OF shape, of ?p]
    have slots: "mpmc_slot ?q1 ?p = ?H mod c" using slot by simp
    have seq: "seq_at ?q (?H mod c) = Suc ?H" using mpmc_quiet_head [OF inv quiet] True by simp
    have "\<not> filling c (unat (mpmc_tail ?q)) (?H mod c) (Suc ?H)"
      using mod_pred_neq [OF c, of "Suc ?H"] by (auto simp: filling_def)
    then have v: "cell_data (mpmc_buffer ?q ! (?H mod c)) = ?v"
      using cells [OF slot(3)] seq by (simp add: cell_inv_def data_at_def)
    have "array_get (mpmc_buffer ?q1) (int (?H mod c)) = Inr (mpmc_buffer ?q ! (?H mod c))"
      by (subst array_get_nat) (use slot(2) in simp_all)
    then have steps: "mpmc_next (DeqCas ?p) ?q = Inr (?q1, DeqData ?p, [], [])"
      "mpmc_next (DeqData ?p) ?q1 = Inr (?q1, DeqSeq ?p ?v, [], [])"
      "mpmc_next (DeqSeq ?p ?v) ?q1 = Inr (?q2, Idle, [], [(?p, ?v)])"
      unfolding mpmc_next.simps slots by (simp_all add: v)
    have "mpmc_run (solo_dequeue t) s
      = Inr ((mpmc_goto t Idle s)\<lparr>sys_queue := ?q2, returned := returned s @ [(?p, ?v)]\<rparr>)"
      unfolding solo_dequeue_def using quiet [of t] first True steps
      by (simp add: numeral_eq_Suc mpmc_goto_def del: mpmc_next.simps)
    then show ?thesis using True quiet by (simp add: mpmc_goto_def)
  qed
qed

text \<open>
  Claim C20.  \<open>CustomMPMCLockFreeQueue\<close> with two or more cells, used by any number of threads
  whose accesses interleave in any order: fewer than \<open>2 ^ 63\<close> actions never reach undefined
  behaviour (no signed overflow, no index out of range); every value a \<open>dequeue\<close> returns is
  the one accepted under the same ticket, so in the order of the head tickets the values come out
  in the order they were accepted; no ticket is returned twice, and at most a capacity of accepted
  values is ever undelivered.
\<close>

theorem mpmc_tickets:
  assumes "mpmc_sys_new queueCapacity = Inr s0" and "1 < unat queueCapacity"
    and "length acts + unat queueCapacity < 2 ^ 63"
  shows "\<exists>s. mpmc_run acts s0 = Inr s \<and> distinct (map fst (returned s)) \<and>
    (\<forall>(pos, v) \<in> set (returned s). unat pos < length (accepted s) \<and> v = accepted s ! unat pos) \<and>
    length (accepted s) \<le> unat (mpmc_head (sys_queue s)) + unat queueCapacity"
proof -
  have "unat queueCapacity < 2 ^ 63" using assms(3) by simp
  note init = mpmc_sys_new_inv [OF assms(1,2) this]
  then obtain s where s: "mpmc_run acts s0 = Inr s" "mpmc_inv (unat queueCapacity) s"
    using mpmc_run_ok [of "unat queueCapacity" s0 acts] assms(3) by auto
  from s(2) have H: "unat (mpmc_head (sys_queue s)) \<le> length (accepted s)"
    and room: "length (accepted s) \<le> unat (mpmc_head (sys_queue s)) + unat queueCapacity"
    and ret: "distinct (map fst (returned s))"
      "\<forall>(pos, v) \<in> set (returned s). unat pos < unat (mpmc_head (sys_queue s)) \<and> v = accepted s ! unat pos"
    by (auto simp: mpmc_inv_def ret_inv_def)
  from ret(2) H have "\<forall>(pos, v) \<in> set (returned s). unat pos < length (accepted s) \<and> v = accepted s ! unat pos"
    by (auto intro: less_le_trans)
  with s(1) ret(1) room show ?thesis by blast
qed

text \<open>
  Claim C21.  From any reachable state in which no operation is under way, an uninterrupted
  \<open>enqueue\<close> ends and is accepted exactly when fewer than \<open>capacity\<close> values are undelivered, and
  an uninterrupted \<open>dequeue\<close> ends and delivers the oldest undelivered value, or changes nothing
  when there is none.
\<close>

theorem mpmc_quiescent_fifo:
  assumes "mpmc_sys_new queueCapacity = Inr s0" and "1 < unat queueCapacity"
    and "length acts + unat queueCapacity < 2 ^ 63"
    and "mpmc_run acts s0 = Inr s" and "\<forall>t. sys_pc s t = Idle"
  shows "(\<exists>s'. mpmc_run (solo_enqueue t ptr) s = Inr s' \<and> mpmc_head (sys_queue s') = mpmc_head (sys_queue s) \<and>
      accepted s' = accepted s @
        (if length (accepted s) - unat (mpmc_head (sys_queue s)) < unat queueCapacity then [ptr] else [])) \<and>
    (\<exists>s'. mpmc_run (solo_dequeue t) s = Inr s' \<and> accepted s' = accepted s \<and>
      (if unat (mpmc_head (sys_queue s)) < length (accepted s)
       then mpmc_head (sys_queue s') = mpmc_head (sys_queue s) + 1 \<and>
         returned s' = returned s @ [(mpmc_head (sys_queue s), accepted s ! unat (mpmc_head (sys_queue s)))]
       else s' = s))"
proof -
  have "unat queueCapacity < 2 ^ 63" using assms(3) by simp
  note init = mpmc_sys_new_inv [OF assms(1,2) this]
  then have inv: "mpmc_inv (unat queueCapacity) s" and few: "length (accepted s) + unat queueCapacity < 2 ^ 63"
    using mpmc_run_ok [of "unat queueCapacity" s0 acts] assms(3,4) by auto
  have quiet: "\<And>t. sys_pc s t = Idle" using assms(5) by simp
  have "length (accepted s) - unat (mpmc_head (sys_queue s)) < unat queueCapacity
    \<longleftrightarrow> length (accepted s) < unat (mpmc_head (sys_queue s)) + unat queueCapacity"
    using assms(2) by linarith
  with solo_enqueue_run [OF inv few quiet, of t ptr] have "\<exists>s'. mpmc_run (solo_enqueue t ptr) s = Inr s' \<and>
      mpmc_head (sys_queue s') = mpmc_head (sys_queue s) \<and> accepted s' = accepted s @
        (if length (accepted s) - unat (mpmc_head (sys_queue s)) < unat queueCapacity then [ptr] else [])"
    by auto
  moreover have "\<exists>s'. mpmc_run (solo_dequeue t) s = Inr s' \<and> accepted s' = accepted s \<and>
      (if unat (mpmc_head (sys_queue s)) < length (accepted s)
       then mpmc_head (sys_queue s') = mpmc_head (sys_queue s) + 1 \<and>
         returned s' = returned s @ [(mpmc_head (sys_queue s), accepted s ! unat (mpmc_head (sys_queue s)))]
       else s' = s)"
    using solo_dequeue_run [OF inv few quiet, of t] by metis
  ultimately show ?thesis by (rule conjI)
qed

definition two_cells :: "nat mpmc" where
  "two_cells = \<lparr>mpmc_buffer = [\<lparr>cell_seq = 0, cell_data = None\<rparr>, \<lparr>cell_seq = 1, cell_data = None\<rparr>],
     mpmc_head = 0, mpmc_tail = 0, mpmc_capacity = 2, mpmc_mask = 1\<rparr>"

lemma two_cells_new: "mpmc_sys_new 2
  = Inr \<lparr>sys_queue = two_cells, sys_pc = (\<lambda>_. Idle), accepted = [], returned = []\<rparr>"
  by (simp add: mpmc_sys_new_def mpmc_new_def two_cells_def upt_rec)

lemma mpmc_tickets_witness:
  "\<exists>s. mpmc_run [CallEnq 0 (Some 7), CallEnq 1 (Some 8), Next 0, Next 1, Next 1, Next 0]
      \<lparr>sys_queue = two_cells, sys_pc = (\<lambda>_. Idle), accepted = [], returned = []\<rparr> = Inr s \<and>
    length (accepted s) \<le> unat (mpmc_head (sys_queue s)) + 2"
  using mpmc_tickets [OF two_cells_new, of
    "[CallEnq 0 (Some 7), CallEnq 1 (Some 8), Next 0, Next 1, Next 1, Next 0]"]
  by (auto simp del: mpmc_run.simps)

lemma mpmc_quiescent_fifo_witness:
  "\<exists>s'. mpmc_run (solo_enqueue 3 (Some 7))
      \<lparr>sys_queue = two_cells, sys_pc = (\<lambda>_. Idle), accepted = [], returned = []\<rparr> = Inr s' \<and>
    accepted s' = [Some 7]"
  using mpmc_quiescent_fifo [OF two_cells_new, of "[]" _ 3 "Some 7"]
  by (auto simp: two_cells_def)

text \<open>A queue with a single cell after \<open>n\<close> accepted messages, the last of them \<open>x\<close>.\<close>

definition one_cell :: "u64 \<Rightarrow> 'a option \<Rightarrow> 'a option list \<Rightarrow> 'a mpmc_sys" where
  "one_cell n x acc = \<lparr>sys_queue = \<lparr>mpmc_buffer = [\<lparr>cell_seq = n, cell_data = x\<rparr>],
     mpmc_head = 0, mpmc_tail = n, mpmc_capacity = 1, mpmc_mask = 0\<rparr>,
     sys_pc = (\<lambda>_. Idle), accepted = acc, returned = []\<rparr>"

lemma one_cell_new: "mpmc_sys_new 1 = Inr (one_cell 0 None [])"
  by (simp add: mpmc_sys_new_def mpmc_new_def one_cell_def)

lemma one_cell_enqueue:
  "mpmc_run (solo_enqueue t p @ as) (one_cell n x acc) = mpmc_run as (one_cell (n + 1) p (acc @ [p]))"
  by (simp add: solo_enqueue_def numeral_eq_Suc one_cell_def mpmc_goto_def array_get_def
    i64_diff_def Let_def fun_upd_idem)

lemma one_cell_enqueues:
  "mpmc_run (concat (map (solo_enqueue t) ps)) (one_cell n x acc)
    = Inr (one_cell (n + of_nat (length ps)) (if ps = [] then x else last ps) (acc @ ps))"
proof (induction ps arbitrary: n x acc)
  case (Cons p ps)
  then show ?case using one_cell_enqueue [of t p "concat (map (solo_enqueue t) ps)" n x acc]
    by (simp add: algebra_simps)
qed simp

lemma one_cell_retries:
  assumes "2 \<le> n" and "n < 2 ^ 63"
  shows "mpmc_do (Next u) (mpmc_goto u (DeqRead 0) (one_cell (of_nat n) x acc))
    = Inr (mpmc_goto u (DeqRead 0) (one_cell (of_nat n) x acc))"
proof -
  have "sint (of_nat n :: u64) = int n"
    using assms(2) by (simp add: signed_of_nat signed_take_bit_int_eq_self)
  then show ?thesis
    using assms by (simp add: one_cell_def mpmc_goto_def array_get_def i64_diff_def Let_def)
qed

text \<open>
  Claim C22.  A capacity of one passes the constructor's check, but its single cell's sequence
  number cannot tell a free cell from a full one: of any two or more \<open>enqueue\<close>s in a row all are
  accepted, only the last message is left in the cell, and then a \<open>dequeue\<close> by any thread finds the
  cell ahead of its ticket and retries for ever: after any number of its steps it is where it began.
\<close>

theorem mpmc_capacity_one_loses:
  assumes "2 \<le> length ps" and "length ps < 2 ^ 63"
  shows "\<exists>s0 s. mpmc_sys_new 1 = Inr s0 \<and> mpmc_run (concat (map (solo_enqueue t) ps)) s0 = Inr s \<and>
     accepted s = ps \<and> map cell_data (mpmc_buffer (sys_queue s)) = [last ps] \<and>
     (\<forall>u n. mpmc_run (CallDeq u # replicate n (Next u)) s = Inr (mpmc_goto u (DeqRead 0) s))"
proof -
  let ?s = "one_cell (of_nat (length ps)) (last ps) ps"
  have "mpmc_run (concat (map (solo_enqueue t) ps)) (one_cell 0 None []) = Inr ?s"
    using one_cell_enqueues [of t ps 0 None "[]"] assms(1) by auto
  moreover have "mpmc_run (CallDeq u # replicate n (Next u)) ?s = Inr (mpmc_goto u (DeqRead 0) ?s)" for u n
  proof -
    have "mpmc_run (replicate n (Next u)) (mpmc_goto u (DeqRead 0) ?s) = Inr (mpmc_goto u (DeqRead 0) ?s)"
      by (induction n) (simp_all add: one_cell_retries [OF assms] del: mpmc_do.simps)
    then show ?thesis by (simp add: one_cell_def)
  qed
  ultimately show ?thesis using one_cell_new by (intro exI conjI) (auto simp: one_cell_def)
qed

theorem mpmc_capacity_one_loses_witness:
  "\<exists>s0 s. mpmc_sys_new 1 = Inr s0 \<and>
     mpmc_run (concat (map (solo_enqueue 0) [Some (10 :: nat), Some 20])) s0 = Inr s \<and>
     accepted s = [Some 10, Some 20] \<and> map cell_data (mpmc_buffer (sys_queue s)) = [Some 20]"
  using mpmc_capacity_one_loses [of "[Some (10 :: nat), Some 20]" 0] by auto

end
