(* ===== verification/MemoryPools.thy ===== *)
theory MemoryPools
  imports Prelude
begin

text \<open>
  The message pools of \<^verbatim>\<open>HFT/MemoryPool.hpp\<close>, one call at a time.  A message is its index in the
  pool's vector, so a \<open>MsgPtr\<close> is a \<open>nat option\<close> with \<open>None\<close> for \<open>nullptr\<close>; the size of
  the pool is the parameter \<open>poolMsgCount\<close>.  With no other thread, a \<open>compare_exchange\<close> of the
  value just loaded succeeds.  The contract of the concept \<open>MyPool\<close> is the locale
  \<open>message_pool\<close>; the interleavings are in \<open>PoolRace\<close>, and \<open>BoostPool\<close> is in \<open>Adapters\<close>.
\<close>

subsection \<open>The contract\<close>

record 'p pool_ops =
  allocate_op :: "'p \<Rightarrow> (nat option \<times> 'p) res"
  deallocate_op :: "nat option \<Rightarrow> 'p \<Rightarrow> 'p res"

text \<open>
  A client of \<open>MemoryPool\<close>: it keeps the messages it was given in a list and gives the \<open>k\<close>-th
  one back.  Each call has its answer: what \<open>allocate\<close> returned, \<open>nullptr\<close> included, or that a
  message was given back.
\<close>

datatype pool_call = Alloc | Dealloc nat

datatype pool_ret = Allocated "nat option" | Returned | No_such

fun pool_step :: "'p pool_ops \<Rightarrow> pool_call \<Rightarrow> nat list \<times> 'p \<Rightarrow> (pool_ret \<times> nat list \<times> 'p) res" where
  "pool_step P Alloc (held, p) = bind_res (allocate_op P p)
     (\<lambda>(msg, p'). Inr (Allocated msg, case msg of None \<Rightarrow> held | Some m \<Rightarrow> held @ [m], p'))"
| "pool_step P (Dealloc k) (held, p) =
     (if k < length held
      then bind_res (deallocate_op P (Some (held ! k)) p)
        (\<lambda>p'. Inr (Returned, take k held @ drop (Suc k) held, p'))
      else Inr (No_such, held, p))"

fun pool_run :: "'p pool_ops \<Rightarrow> pool_call list \<Rightarrow> nat list \<times> 'p \<Rightarrow> (pool_ret list \<times> nat list \<times> 'p) res" where
  "pool_run P [] s = Inr ([], s)"
| "pool_run P (c # cs) s = bind_res (pool_step P c s) (\<lambda>(r, s').
     bind_res (pool_run P cs s') (\<lambda>(rs, s''). Inr (r # rs, s'')))"

text \<open>
  What the client of a pool of \<open>n\<close> messages may expect of the answers: every \<open>allocate\<close> gives a
  message of the pool that the client does not hold.
\<close>

fun served :: "nat \<Rightarrow> nat list \<Rightarrow> pool_call list \<Rightarrow> pool_ret list \<Rightarrow> nat list \<Rightarrow> bool" where
  "served n held [] rs held' \<longleftrightarrow> rs = [] \<and> held' = held"
| "served n held (Alloc # cs) rs held' \<longleftrightarrow>
     (case rs of Allocated (Some m) # rs' \<Rightarrow> m < n \<and> m \<notin> set held \<and> served n (held @ [m]) cs rs' held' | _ \<Rightarrow> False)"
| "served n held (Dealloc k # cs) rs held' \<longleftrightarrow>
     (case rs of [] \<Rightarrow> False
      | r # rs' \<Rightarrow> if k < length held then r = Returned \<and> served n (take k held @ drop (Suc k) held) cs rs' held'
                  else r = No_such \<and> served n held cs rs' held')"

text \<open>The client never asks for more than \<open>limit\<close> messages at a time.\<close>

fun within :: "nat \<Rightarrow> nat \<Rightarrow> pool_call list \<Rightarrow> bool" where
  "within limit k [] = True"
| "within limit k (Alloc # cs) = (k < limit \<and> within limit (Suc k) cs)"
| "within limit k (Dealloc j # cs) = within limit (if j < k then k - 1 else k) cs"

lemma set_remove_nth:
  "distinct xs \<Longrightarrow> k < length xs \<Longrightarrow> set (take k xs @ drop (Suc k) xs) = set xs - {xs ! k}"
  "distinct xs \<Longrightarrow> k < length xs \<Longrightarrow> distinct (take k xs @ drop (Suc k) xs)"
proof -
  assume d: "distinct xs" and k: "k < length xs"
  then have "distinct (take k xs @ xs ! k # drop (Suc k) xs)" by (simp add: id_take_nth_drop [symmetric])
  moreover have "set xs = set (take k xs @ xs ! k # drop (Suc k) xs)"
    using k by (simp add: id_take_nth_drop [symmetric])
  ultimately show "set (take k xs @ drop (Suc k) xs) = set xs - {xs ! k}"
    and "distinct (take k xs @ drop (Suc k) xs)" by auto
qed

locale message_pool =
  fixes P :: "'p pool_ops"
    and free_msgs :: "'p \<Rightarrow> nat set"
    and pool_size :: "'p \<Rightarrow> nat"
    and good :: "'p \<Rightarrow> bool"
  assumes alloc_ok: "good p \<Longrightarrow> free_msgs p \<noteq> {} \<Longrightarrow>
      \<exists>m p'. allocate_op P p = Inr (Some m, p') \<and> m \<in> free_msgs p \<and> good p' \<and>
        free_msgs p' = free_msgs p - {m} \<and> pool_size p' = pool_size p"
    and dealloc_ok: "good p \<Longrightarrow> m < pool_size p \<Longrightarrow> m \<notin> free_msgs p \<Longrightarrow>
      \<exists>p'. deallocate_op P (Some m) p = Inr p' \<and> good p' \<and>
        free_msgs p' = insert m (free_msgs p) \<and> pool_size p' = pool_size p"
begin

definition accounted :: "nat list \<times> 'p \<Rightarrow> bool" where
  "accounted s = (case s of (held, p) \<Rightarrow> good p \<and> distinct held \<and>
     set held \<inter> free_msgs p = {} \<and> set held \<union> free_msgs p = {..<pool_size p})"

lemma accounted_alloc:
  assumes "accounted (held, p)" and "length held < pool_size p"
  shows "\<exists>m p'. pool_step P Alloc (held, p) = Inr (Allocated (Some m), held @ [m], p') \<and>
    m < pool_size p \<and> m \<notin> set held \<and> accounted (held @ [m], p') \<and> pool_size p' = pool_size p"
proof -
  have "free_msgs p \<noteq> {}"
  proof
    assume "free_msgs p = {}"
    then have sets: "set held = {..<pool_size p}" and d: "distinct held"
      using assms(1) by (auto simp: accounted_def)
    have "length held = pool_size p" using distinct_card [OF d] unfolding sets by simp
    with assms(2) show False by simp
  qed
  then obtain m p' where "allocate_op P p = Inr (Some m, p')" "m \<in> free_msgs p" "good p'"
      "free_msgs p' = free_msgs p - {m}" "pool_size p' = pool_size p"
    using alloc_ok [of p] assms(1) by (auto simp: accounted_def)
  moreover from this have "accounted (held @ [m], p')" and "m < pool_size p" and "m \<notin> set held"
    using assms(1) unfolding accounted_def prod.case by auto
  ultimately show ?thesis by auto
qed

lemma accounted_dealloc:
  assumes acc: "accounted (held, p)" and k: "k < length held"
  shows "\<exists>p'. pool_step P (Dealloc k) (held, p) = Inr (Returned, take k held @ drop (Suc k) held, p') \<and>
    accounted (take k held @ drop (Suc k) held, p') \<and> pool_size p' = pool_size p"
proof -
  have "held ! k \<in> set held" using k by simp
  then have "held ! k < pool_size p" and "held ! k \<notin> free_msgs p"
    using acc by (auto simp: accounted_def)
  then obtain p' where "deallocate_op P (Some (held ! k)) p = Inr p'" "good p'"
      "free_msgs p' = insert (held ! k) (free_msgs p)" "pool_size p' = pool_size p"
    using dealloc_ok [of p "held ! k"] acc by (auto simp: accounted_def)
  moreover have "distinct held" using acc by (simp add: accounted_def)
  note rest = set_remove_nth [OF this k]
  have "(set held - {held ! k}) \<union> insert (held ! k) (free_msgs p) = set held \<union> free_msgs p"
    using \<open>held ! k \<in> set held\<close> by blast
  then have "accounted (take k held @ drop (Suc k) held, p')" if "good p'"
      "free_msgs p' = insert (held ! k) (free_msgs p)" "pool_size p' = pool_size p" for p'
    using acc that unfolding accounted_def prod.case rest(1) by (auto simp only: rest)
  ultimately show ?thesis using k by auto
qed

text \<open>
  The client's lemma: within the pool's size every call is served, and at the end the held messages
  are pairwise distinct and, with the free ones, all the messages there are.
\<close>

lemma run_accounted:
  assumes "accounted (held, p)" and "within (pool_size p) (length held) cs"
  shows "\<exists>rs held' p'. pool_run P cs (held, p) = Inr (rs, held', p') \<and> served (pool_size p) held cs rs held' \<and>
    accounted (held', p') \<and> pool_size p' = pool_size p"
  using assms
proof (induction cs arbitrary: held p)
  case Nil
  then show ?case by auto
next
  case (Cons c cs)
  have go: ?case if "pool_step P c (held, p) = Inr (r, held1, p1)" "accounted (held1, p1)"
      "pool_size p1 = pool_size p" "within (pool_size p) (length held1) cs"
      "\<And>rs held'. served (pool_size p) held1 cs rs held' \<Longrightarrow> served (pool_size p) held (c # cs) (r # rs) held'"
    for r held1 p1
  proof -
    note step = that
    obtain rs held' p' where "pool_run P cs (held1, p1) = Inr (rs, held', p')"
        "served (pool_size p) held1 cs rs held'" "accounted (held', p')" "pool_size p' = pool_size p"
      using Cons.IH [of held1 p1] step(2-4) by auto
    then show ?thesis using step(1,5) by (intro exI [of _ "r # rs"] exI [of _ held'] exI [of _ p']) simp
  qed
  show ?case
  proof (cases c)
    case Alloc
    then obtain m p' where m: "m < pool_size p" "m \<notin> set held"
        and step: "pool_step P c (held, p) = Inr (Allocated (Some m), held @ [m], p')"
          "accounted (held @ [m], p')" "pool_size p' = pool_size p"
      using accounted_alloc [of held p] Cons.prems by auto
    show ?thesis by (rule go [OF step]) (use m Cons.prems(2) Alloc in simp_all)
  next
    case (Dealloc k)
    show ?thesis
    proof (cases "k < length held")
      case True
      then obtain p' where
        step: "pool_step P c (held, p) = Inr (Returned, take k held @ drop (Suc k) held, p')"
          "accounted (take k held @ drop (Suc k) held, p')" "pool_size p' = pool_size p"
        using accounted_dealloc [OF Cons.prems(1)] Dealloc by blast
      show ?thesis by (rule go [OF step]) (use Cons.prems(2) Dealloc True in simp_all)
    next
      case False
      then show ?thesis using Cons.prems Dealloc by (intro go [of No_such held p]) simp_all
    qed
  qed
qed

end

subsection \<open>CustomLockedPool\<close>

text \<open>
  A stack of free messages, every operation under the mutex; without \<open>ThreadSafe\<close> the same
  statements run without it.  The stack's top is the end of the list.
\<close>

record clp =
  clp_pool :: nat
  clp_free :: "nat option list"

definition clp_new :: "nat \<Rightarrow> clp" where
  "clp_new poolMsgCount = \<lparr>clp_pool = poolMsgCount, clp_free = map Some [0..<poolMsgCount]\<rparr>"

definition clp_allocate :: "clp \<Rightarrow> (nat option \<times> clp) res" where
  "clp_allocate p =
     (if clp_free p = [] then Inl (Throw ''No free messages available in the pool'')
      else let msg = last (clp_free p) in Inr (msg, p\<lparr>clp_free := butlast (clp_free p)\<rparr>))"

definition clp_deallocate :: "nat option \<Rightarrow> clp \<Rightarrow> clp res" where
  "clp_deallocate msg p = Inr (p\<lparr>clp_free := clp_free p @ [msg]\<rparr>)"

definition clp_ops :: "clp pool_ops" where
  "clp_ops = \<lparr>allocate_op = clp_allocate, deallocate_op = clp_deallocate\<rparr>"

definition clp_good :: "clp \<Rightarrow> bool" where
  "clp_good p \<longleftrightarrow> distinct (clp_free p) \<and> set (clp_free p) \<subseteq> Some ` {..<clp_pool p}"

definition clp_free_msgs :: "clp \<Rightarrow> nat set" where
  "clp_free_msgs p = {m. Some m \<in> set (clp_free p)}"

lemma butlast_stack:
  assumes "distinct xs" and "xs \<noteq> []"
  shows "set (butlast xs) = set xs - {last xs}" and "distinct (butlast xs)" and "last xs \<in> set xs"
  using assms by (cases xs rule: rev_cases; simp)+

interpretation clp: message_pool clp_ops clp_free_msgs clp_pool clp_good
proof
  fix p assume good: "clp_good p" and ne: "clp_free_msgs p \<noteq> {}"
  then have some: "clp_free p \<noteq> []" by (auto simp: clp_free_msgs_def)
  note top = butlast_stack [OF _ some]
  obtain m where m: "last (clp_free p) = Some m"
    using good top(3) some by (auto simp: clp_good_def dest!: last_in_set)
  then show "\<exists>m p'. allocate_op clp_ops p = Inr (Some m, p') \<and> m \<in> clp_free_msgs p \<and> clp_good p' \<and>
      clp_free_msgs p' = clp_free_msgs p - {m} \<and> clp_pool p' = clp_pool p"
    using good some top by (auto simp: clp_ops_def clp_allocate_def clp_good_def clp_free_msgs_def Let_def)
next
  fix p m assume "clp_good p" and "m < clp_pool p" and "m \<notin> clp_free_msgs p"
  then show "\<exists>p'. deallocate_op clp_ops (Some m) p = Inr p' \<and> clp_good p' \<and>
      clp_free_msgs p' = insert m (clp_free_msgs p) \<and> clp_pool p' = clp_pool p"
    by (auto simp: clp_ops_def clp_deallocate_def clp_good_def clp_free_msgs_def)
qed

lemma clp_new_accounted: "clp.accounted ([], clp_new n)"
  by (auto simp: clp.accounted_def clp_new_def clp_good_def clp_free_msgs_def distinct_map)

subsection \<open>CustomLockFreePool\<close>

record lfp =
  lfp_free :: "nat list"
  lfp_head :: int

definition lfp_new :: "nat \<Rightarrow> lfp" where
  "lfp_new poolMsgCount = \<lparr>lfp_free = [0..<poolMsgCount], lfp_head = int poolMsgCount - 1\<rparr>"

definition lfp_allocate :: "lfp \<Rightarrow> (nat option \<times> lfp) res" where
  "lfp_allocate p =
     (let currentHead = lfp_head p in
      if currentHead \<ge> 0
      then bind_res (array_get (lfp_free p) currentHead)
        (\<lambda>msg. Inr (Some msg, p\<lparr>lfp_head := currentHead - 1\<rparr>))
      else Inr (None, p))"

definition lfp_deallocate :: "nat option \<Rightarrow> lfp \<Rightarrow> lfp res" where
  "lfp_deallocate msg p = (case msg of
     None \<Rightarrow> Inl (Throw ''Cannot deallocate a null message'')
   | Some m \<Rightarrow>
       (let nextHead = lfp_head p + 1 in
        if nextHead \<ge> int (length (lfp_free p)) then Inl (Throw ''Pool overflow on deallocate'')
        else bind_res (array_set (lfp_free p) nextHead m)
          (\<lambda>msgs. Inr (p\<lparr>lfp_free := msgs, lfp_head := nextHead\<rparr>))))"

definition lfp_ops :: "lfp pool_ops" where
  "lfp_ops = \<lparr>allocate_op = lfp_allocate, deallocate_op = lfp_deallocate\<rparr>"

definition lfp_stack :: "lfp \<Rightarrow> nat list" where
  "lfp_stack p = take (nat (lfp_head p + 1)) (lfp_free p)"

definition lfp_good :: "lfp \<Rightarrow> bool" where
  "lfp_good p \<longleftrightarrow> - 1 \<le> lfp_head p \<and> lfp_head p < int (length (lfp_free p)) \<and>
     distinct (lfp_stack p) \<and> set (lfp_stack p) \<subseteq> {..<length (lfp_free p)}"

lemma lfp_alloc_ok:
  assumes "lfp_good p" and "lfp_stack p \<noteq> []"
  shows "\<exists>m p'. allocate_op lfp_ops p = Inr (Some m, p') \<and> m \<in> set (lfp_stack p) \<and> lfp_good p' \<and>
      set (lfp_stack p') = set (lfp_stack p) - {m} \<and> length (lfp_free p') = length (lfp_free p)"
proof -
  have "lfp_head p \<noteq> - 1" using assms(2) by (auto simp: lfp_stack_def)
  define k where "k = nat (lfp_head p)"
  have k: "lfp_head p = int k" "k < length (lfp_free p)"
    using assms(1) \<open>lfp_head p \<noteq> - 1\<close> by (auto simp: lfp_good_def k_def)
  define p' where "p' = p\<lparr>lfp_head := int k - 1\<rparr>"
  have "lfp_stack p = take (Suc k) (lfp_free p)" using k by (simp add: lfp_stack_def nat_add_distrib)
  then have st: "lfp_stack p = take k (lfp_free p) @ [lfp_free p ! k]"
    using k by (simp add: take_Suc_conv_app_nth)
  have "lfp_stack p' = take k (lfp_free p)" using k by (simp add: p'_def lfp_stack_def)
  then have st': "lfp_stack p' = butlast (lfp_stack p)" using st by simp
  have "allocate_op lfp_ops p = Inr (Some (last (lfp_stack p)), p')"
    using k st by (simp add: lfp_ops_def lfp_allocate_def p'_def array_get_def Let_def)
  moreover have "lfp_good p'"
    using assms k st' butlast_stack [of "lfp_stack p"] by (auto simp: lfp_good_def p'_def)
  ultimately show ?thesis
    using assms st' butlast_stack [of "lfp_stack p"] by (auto simp: lfp_good_def p'_def)
qed

lemma lfp_dealloc_ok:
  assumes "lfp_good p" and "m < length (lfp_free p)" and "m \<notin> set (lfp_stack p)"
  shows "\<exists>p'. deallocate_op lfp_ops (Some m) p = Inr p' \<and> lfp_good p' \<and>
      set (lfp_stack p') = insert m (set (lfp_stack p)) \<and> length (lfp_free p') = length (lfp_free p)"
proof -
  let ?n = "length (lfp_free p)"
  define k where "k = nat (lfp_head p + 1)"
  have k: "lfp_head p = int k - 1" "k \<le> ?n" using assms(1) by (auto simp: lfp_good_def k_def)
  then have st: "lfp_stack p = take k (lfp_free p)" by (simp add: lfp_stack_def)
  have "length (lfp_stack p) < ?n"
  proof -
    have "card (set (lfp_stack p)) < card {..<?n}"
      using assms by (intro psubset_card_mono) (auto simp: lfp_good_def)
    then show ?thesis using assms(1) by (simp add: lfp_good_def distinct_card)
  qed
  then have kn: "k < ?n" using st k by simp
  define p' where "p' = p\<lparr>lfp_free := (lfp_free p)[k := m], lfp_head := int k\<rparr>"
  have "lfp_stack p' = take (Suc k) ((lfp_free p)[k := m])"
    by (simp add: p'_def lfp_stack_def nat_add_distrib)
  then have st': "lfp_stack p' = lfp_stack p @ [m]"
    using kn st by (simp add: take_Suc_conv_app_nth)
  have "deallocate_op lfp_ops (Some m) p = Inr p'"
    using k kn by (simp add: lfp_ops_def lfp_deallocate_def p'_def array_set_def Let_def)
  moreover have "lfp_good p'"
    using assms st' kn by (auto simp: lfp_good_def p'_def)
  ultimately show ?thesis using st' by (auto simp: p'_def)
qed

interpretation lfp: message_pool lfp_ops "\<lambda>p. set (lfp_stack p)" "\<lambda>p. length (lfp_free p)" lfp_good
  by unfold_locales (simp_all add: lfp_alloc_ok lfp_dealloc_ok)

lemma lfp_new_accounted: "lfp.accounted ([], lfp_new n)"
proof -
  have "lfp_stack (lfp_new n) = [0..<n]" by (simp add: lfp_stack_def lfp_new_def)
  then show ?thesis by (auto simp: lfp.accounted_def lfp_good_def) (simp_all add: lfp_new_def)
qed

end
