(* ===== verification/TaggedPool.thy ===== *)
theory TaggedPool
  imports MemoryPools
begin

text \<open>
  \<open>LockFreeThreadSafePool\<close> of \<^verbatim>\<open>HFT/MemoryPool.hpp\<close>: a linked stack of free messages whose
  head is a single 64-bit word, the index of the first free message in the low half and a tag, that
  every successful exchange increments, in the high half.  First the packing, then the pool with one
  caller, then any number of threads.
\<close>

subsection \<open>Packing an index and a tag\<close>

definition INDEX_MASK :: u64 where "INDEX_MASK = 0xFFFFFFFF"
definition TAG_SHIFT :: nat where "TAG_SHIFT = 32"

definition tag_pack :: "u64 \<Rightarrow> u32 \<Rightarrow> u64" where
  "tag_pack index tag = push_bit TAG_SHIFT (ucast tag) OR ucast (ucast index :: u32)"

definition tag_unpack :: "u64 \<Rightarrow> u64 \<times> u32" where
  "tag_unpack packed = (packed AND INDEX_MASK, ucast (drop_bit TAG_SHIFT packed))"

lemma INDEX_MASK_mask: "INDEX_MASK = mask 32"
  by (simp add: INDEX_MASK_def mask_eq_exp_minus_1)

lemma tag_unpack_pack: "tag_unpack (tag_pack index tag) = (index AND INDEX_MASK, tag)"
  unfolding tag_unpack_def tag_pack_def TAG_SHIFT_def INDEX_MASK_mask
  by (auto intro!: bit_word_eqI simp: bit_simps)

lemma tag_pack_unpack: "tag_pack (fst (tag_unpack w)) (snd (tag_unpack w)) = w"
  unfolding tag_unpack_def tag_pack_def TAG_SHIFT_def INDEX_MASK_mask
  by (auto intro!: bit_word_eqI simp: bit_simps)

abbreviation low_index :: "u64 \<Rightarrow> nat" where
  "low_index w \<equiv> unat (w AND INDEX_MASK)"

abbreviation high_tag :: "u64 \<Rightarrow> nat" where
  "high_tag w \<equiv> unat (snd (tag_unpack w))"

definition no_index :: nat where "no_index = 2 ^ 32 - 1"

lemma low_index_mod: "low_index w = unat w mod 2 ^ 32"
  using unat_and_mask [of 32 w] by (simp add: INDEX_MASK_def)

lemma low_index_of_nat: "n < 2 ^ 32 \<Longrightarrow> low_index (of_nat n) = n"
  unfolding low_index_mod by (simp add: unsigned_of_nat take_bit_eq_mod mod_mod_cancel)

lemma low_index_pack [simp]: "low_index (tag_pack w t) = low_index w"
  using tag_unpack_pack [of w t] by (simp add: tag_unpack_def)

lemma high_tag_pack [simp]: "high_tag (tag_pack w t) = unat t"
  by (simp add: tag_unpack_pack)

subsection \<open>The pool with one caller\<close>

record tsp =
  tsp_next :: "u64 list"
  tsp_head :: u64

definition tsp_new :: "nat \<Rightarrow> tsp" where
  "tsp_new poolMsgCount = \<lparr>tsp_next = map (\<lambda>i. of_nat i - 1) [0..<poolMsgCount],
     tsp_head = tag_pack (of_nat poolMsgCount - 1) 0\<rparr>"

text \<open>The test \<open>index == -1\<close> compares the masked index with all 64 bits set.\<close>

definition tsp_allocate :: "tsp \<Rightarrow> (nat option \<times> tsp) res" where
  "tsp_allocate p =
     (let oldHead = tsp_head p; (index, tag) = tag_unpack oldHead in
      if index = - 1 then Inr (None, p)
      else bind_res (array_get (tsp_next p) (uint index))
        (\<lambda>nextIndex. Inr (Some (unat index), p\<lparr>tsp_head := tag_pack nextIndex (tag + 1)\<rparr>)))"

definition tsp_deallocate :: "nat option \<Rightarrow> tsp \<Rightarrow> tsp res" where
  "tsp_deallocate msg p = (case msg of
     None \<Rightarrow> Inl (Throw ''Cannot deallocate nullptr'')
   | Some index \<Rightarrow>
       (let oldHead = tsp_head p; (headIndex, tag) = tag_unpack oldHead in
        bind_res (array_set (tsp_next p) (int index) headIndex)
          (\<lambda>next. Inr (p\<lparr>tsp_next := next, tsp_head := tag_pack (of_nat index) (tag + 1)\<rparr>))))"

definition tsp_ops :: "tsp pool_ops" where
  "tsp_ops = \<lparr>allocate_op = tsp_allocate, deallocate_op = tsp_deallocate\<rparr>"

text \<open>The chain of free messages that starts at an index.\<close>

fun tsp_chain :: "u64 list \<Rightarrow> nat \<Rightarrow> nat list \<Rightarrow> bool" where
  "tsp_chain next i [] \<longleftrightarrow> i = no_index"
| "tsp_chain next i (m # ms) \<longleftrightarrow> i = m \<and> m < length next \<and> tsp_chain next (low_index (next ! m)) ms"

lemma tsp_chain_update: "m \<notin> set ms \<Longrightarrow> tsp_chain (next[m := w]) i ms = tsp_chain next i ms"
  by (induction ms arbitrary: i) auto

lemma tsp_chain_unique:
  assumes "tsp_chain next i ms" and "tsp_chain next i ms'" and "length next \<le> no_index"
  shows "ms = ms'"
  using assms
proof (induction ms arbitrary: i ms')
  case Nil
  then show ?case by (cases ms') auto
next
  case (Cons m ms)
  then show ?case by (cases ms') auto
qed

definition tsp_stack :: "tsp \<Rightarrow> nat list" where
  "tsp_stack p = (THE ms. tsp_chain (tsp_next p) (low_index (tsp_head p)) ms)"

definition tsp_good :: "tsp \<Rightarrow> bool" where
  "tsp_good p \<longleftrightarrow> length (tsp_next p) < no_index \<and>
     (\<exists>ms. tsp_chain (tsp_next p) (low_index (tsp_head p)) ms \<and> distinct ms)"

lemma tsp_stackI:
  "tsp_chain (tsp_next p) (low_index (tsp_head p)) ms \<Longrightarrow> length (tsp_next p) < no_index \<Longrightarrow> tsp_stack p = ms"
  unfolding tsp_stack_def by (rule the_equality) (auto intro: tsp_chain_unique)

lemma tsp_good_stack:
  assumes "tsp_good p"
  shows "tsp_chain (tsp_next p) (low_index (tsp_head p)) (tsp_stack p)" and "distinct (tsp_stack p)"
  using assms tsp_stackI by (auto simp: tsp_good_def)

lemma index_not_minus_one: "w AND INDEX_MASK \<noteq> - 1"
proof
  assume "w AND INDEX_MASK = - 1"
  then have "bit (w AND INDEX_MASK) 63" by simp
  then show False by (simp add: INDEX_MASK_mask bit_simps)
qed

lemma uint_low_index: "uint (w AND INDEX_MASK) = int (low_index w)"
  by simp

lemma tsp_alloc_ok:
  assumes good: "tsp_good p" and ne: "tsp_stack p \<noteq> []"
  shows "\<exists>m p'. allocate_op tsp_ops p = Inr (Some m, p') \<and> m \<in> set (tsp_stack p) \<and> tsp_good p' \<and>
    set (tsp_stack p') = set (tsp_stack p) - {m} \<and> length (tsp_next p') = length (tsp_next p)"
proof -
  obtain m ms where st: "tsp_stack p = m # ms" using ne by (cases "tsp_stack p") auto
  then have m: "low_index (tsp_head p) = m" "m < length (tsp_next p)"
    and ms: "tsp_chain (tsp_next p) (low_index (tsp_next p ! m)) ms"
    using tsp_good_stack(1) [OF good] by auto
  obtain tag where tag: "tag_unpack (tsp_head p) = (tsp_head p AND INDEX_MASK, tag)"
    by (simp add: tag_unpack_def)
  define p' where "p' = p\<lparr>tsp_head := tag_pack (tsp_next p ! m) (tag + 1)\<rparr>"
  have st': "tsp_stack p' = ms"
    using ms good by (intro tsp_stackI) (auto simp: p'_def tsp_good_def)
  have d: "distinct (m # ms)" using tsp_good_stack(2) [OF good] st by simp
  have get: "array_get (tsp_next p) (uint (tsp_head p AND INDEX_MASK)) = Inr (tsp_next p ! m)"
    unfolding uint_low_index m(1) by (rule array_get_nat [OF m(2)])
  have "allocate_op tsp_ops p = Inr (Some m, p')"
    by (simp add: tsp_ops_def tsp_allocate_def tag get index_not_minus_one m(1) p'_def del: uint_and)
  moreover have "tsp_good p'"
    using good ms d by (auto simp: tsp_good_def p'_def)
  ultimately show ?thesis using st st' d by (auto simp: p'_def)
qed

lemma tsp_dealloc_ok:
  assumes good: "tsp_good p" and m: "m < length (tsp_next p)" and new: "m \<notin> set (tsp_stack p)"
  shows "\<exists>p'. deallocate_op tsp_ops (Some m) p = Inr p' \<and> tsp_good p' \<and>
    set (tsp_stack p') = insert m (set (tsp_stack p)) \<and> length (tsp_next p') = length (tsp_next p)"
proof -
  obtain tag where tag: "tag_unpack (tsp_head p) = (tsp_head p AND INDEX_MASK, tag)"
    by (simp add: tag_unpack_def)
  define p' where "p' = p\<lparr>tsp_next := (tsp_next p)[m := tsp_head p AND INDEX_MASK],
    tsp_head := tag_pack (of_nat m) (tag + 1)\<rparr>"
  have "length (tsp_next p) < no_index" using good by (simp add: tsp_good_def)
  then have low: "low_index (of_nat m) = m" using m by (intro low_index_of_nat) (simp add: no_index_def)
  have ch: "tsp_chain (tsp_next p') (low_index (tsp_head p')) (m # tsp_stack p)"
    using tsp_good_stack(1) [OF good] m new low
    by (simp add: p'_def tsp_chain_update and.assoc)
  then have st': "tsp_stack p' = m # tsp_stack p"
    using good by (intro tsp_stackI) (auto simp: p'_def tsp_good_def)
  have "deallocate_op tsp_ops (Some m) p = Inr p'"
    by (simp add: tsp_ops_def tsp_deallocate_def tag p'_def array_set_nat [OF m])
  moreover have "tsp_good p'"
    using good ch new tsp_good_stack(2) [OF good] unfolding tsp_good_def
    by (intro conjI exI [of _ "m # tsp_stack p"]) (auto simp: p'_def)
  ultimately show ?thesis using st' by (auto simp: p'_def)
qed

interpretation tsp: message_pool tsp_ops "\<lambda>p. set (tsp_stack p)" "\<lambda>p. length (tsp_next p)" tsp_good
  by unfold_locales (simp_all add: tsp_alloc_ok tsp_dealloc_ok)

lemma tsp_new_chain:
  assumes "n < no_index"
  shows "tsp_chain (tsp_next (tsp_new n)) (low_index (tsp_head (tsp_new n))) (rev [0..<n])"
proof -
  have "tsp_chain (tsp_next (tsp_new n)) (low_index (of_nat k - 1)) (rev [0..<k])" if "k \<le> n" for k
    using that
  proof (induction k)
    case 0
    have "low_index (- 1) = no_index" by (simp add: INDEX_MASK_def no_index_def)
    then show ?case by simp
  next
    case (Suc k)
    have "low_index (of_nat k) = k" using Suc.prems assms by (intro low_index_of_nat) (simp add: no_index_def)
    with Suc show ?case by (simp add: tsp_new_def)
  qed
  from this [of n] show ?thesis by (simp add: tsp_new_def)
qed

lemma tsp_new_accounted: "n < no_index \<Longrightarrow> tsp.accounted ([], tsp_new n)"
proof -
  assume n: "n < no_index"
  have len: "length (tsp_next (tsp_new n)) = n" by (simp add: tsp_new_def)
  then have "tsp_stack (tsp_new n) = rev [0..<n]"
    using tsp_stackI [OF tsp_new_chain [OF n]] n by simp
  moreover have "tsp_good (tsp_new n)"
    using tsp_new_chain [OF n] n len unfolding tsp_good_def by (auto intro!: exI [of _ "rev [0..<n]"])
  ultimately show ?thesis
    using len by (auto simp: tsp.accounted_def)
qed

subsection \<open>An exhausted pool\<close>

text \<open>
  When every message of a \<open>LockFreeThreadSafePool\<close> is out, \<open>allocate\<close> does not
  answer \<open>nullptr\<close>: the index it unpacks is masked to 32 bits and never equals \<open>-1\<close>, so it reads
  \<open>nextFree_\<close> at position \<open>2 ^ 32 - 1\<close>, outside the vector.
\<close>

lemma tsp_exhausted_out_of_bounds:
  assumes "tsp_good p" and "tsp_stack p = []"
  shows "tsp_allocate p = Inl (UB OutOfBounds)"
proof -
  have low: "low_index (tsp_head p) = no_index" and len: "length (tsp_next p) < no_index"
    using tsp_good_stack(1) [OF assms(1)] assms by (auto simp: tsp_good_def)
  obtain tag where tag: "tag_unpack (tsp_head p) = (tsp_head p AND INDEX_MASK, tag)"
    by (simp add: tag_unpack_def)
  have "array_get (tsp_next p) (uint (tsp_head p AND INDEX_MASK)) = Inl (UB OutOfBounds)"
    unfolding uint_low_index low array_get_def using len by simp
  then show ?thesis
    unfolding tsp_allocate_def tag by (simp only: Let_def tag prod.case index_not_minus_one if_False bind_res_simps)
qed

definition drained_pool :: tsp where
  "drained_pool = \<lparr>tsp_next = [- 1], tsp_head = tag_pack (- 1) 1\<rparr>"

lemma drained_pool_alloc: "tsp_allocate (tsp_new 1) = Inr (Some 0, drained_pool)"
proof -
  have low: "low_index (tsp_head (tsp_new 1)) = 0" by (simp add: tsp_new_def)
  have tag: "tag_unpack (tsp_head (tsp_new 1)) = (tsp_head (tsp_new 1) AND INDEX_MASK, 0)"
    unfolding tsp_new_def by (simp add: tag_unpack_pack) (simp add: tag_pack_def)
  have get: "array_get (tsp_next (tsp_new 1)) (uint (tsp_head (tsp_new 1) AND INDEX_MASK)) = Inr (- 1)"
    unfolding uint_low_index low by (simp add: tsp_new_def array_get_def)
  show ?thesis
    unfolding tsp_allocate_def Let_def tag prod.case get bind_res_simps low
    by (simp add: index_not_minus_one drained_pool_def tsp_new_def)
qed

lemma drained_pool_good: "tsp_good drained_pool" "tsp_stack drained_pool = []"
proof -
  have ch: "tsp_chain (tsp_next drained_pool) (low_index (tsp_head drained_pool)) []"
    by (simp add: drained_pool_def) (simp add: INDEX_MASK_def no_index_def)
  moreover have len: "length (tsp_next drained_pool) < no_index" by (simp add: drained_pool_def no_index_def)
  ultimately show "tsp_stack drained_pool = []" by (rule tsp_stackI)
  show "tsp_good drained_pool" using ch len unfolding tsp_good_def by (intro conjI exI [of _ "[]"]) auto
qed

lemma drained_pool_out_of_bounds: "tsp_allocate drained_pool = Inl (UB OutOfBounds)"
  by (rule tsp_exhausted_out_of_bounds [OF drained_pool_good])

end
