(* ===== verification/PoolRace.thy ===== *)
theory PoolRace
  imports TaggedPool
begin

text \<open>
  The two lock-free pools of \<^verbatim>\<open>HFT/MemoryPool.hpp\<close> with any number of threads.  As in
  \<open>MpmcQueue\<close>, every access to shared memory is a step, a program counter holds a thread's local
  variables, and a \<open>compare_exchange_weak\<close> may fail spuriously.  Each thread keeps the list of the
  messages it holds and only gives back one of those.
\<close>

datatype pool_act = CallAlloc nat | CallDealloc nat nat | Next nat | Spurious nat

definition remove_nth :: "nat \<Rightarrow> 'a list \<Rightarrow> 'a list" where
  "remove_nth k xs = take k xs @ drop (Suc k) xs"

subsection \<open>CustomLockFreePool\<close>

datatype lfp_pc = Idle | AlLoop int | AlCas int nat | DeLoop nat int | DeCas nat int

record lfp_sys =
  lf_pool :: lfp
  lf_pc :: "nat \<Rightarrow> lfp_pc"
  lf_held :: "nat \<Rightarrow> nat list"

fun lfp_next :: "lfp_pc \<Rightarrow> lfp \<Rightarrow> (lfp \<times> lfp_pc \<times> nat list) res" where
  "lfp_next Idle p = Inr (p, Idle, [])"
| "lfp_next (AlLoop currentHead) p =
     (if currentHead \<ge> 0
      then bind_res (array_get (lfp_free p) currentHead) (\<lambda>msg. Inr (p, AlCas currentHead msg, []))
      else Inr (p, Idle, []))"
| "lfp_next (AlCas currentHead msg) p =
     (if lfp_head p = currentHead then Inr (p\<lparr>lfp_head := currentHead - 1\<rparr>, Idle, [msg])
      else Inr (p, AlLoop (lfp_head p), []))"
| "lfp_next (DeLoop msg currentHead) p =
     (let nextHead = currentHead + 1 in
      if nextHead \<ge> int (length (lfp_free p)) then Inl (Throw ''Pool overflow on deallocate'')
      else bind_res (array_set (lfp_free p) nextHead msg)
        (\<lambda>msgs. Inr (p\<lparr>lfp_free := msgs\<rparr>, DeCas msg currentHead, [])))"
| "lfp_next (DeCas msg currentHead) p =
     (if lfp_head p = currentHead then Inr (p\<lparr>lfp_head := currentHead + 1\<rparr>, Idle, [])
      else Inr (p, DeLoop msg (lfp_head p), []))"

fun lfp_do :: "pool_act \<Rightarrow> lfp_sys \<Rightarrow> lfp_sys res" where
  "lfp_do (CallAlloc t) s =
     Inr (if lf_pc s t = Idle then s\<lparr>lf_pc := (lf_pc s)(t := AlLoop (lfp_head (lf_pool s)))\<rparr> else s)"
| "lfp_do (CallDealloc t k) s =
     Inr (if lf_pc s t = Idle \<and> k < length (lf_held s t)
          then s\<lparr>lf_pc := (lf_pc s)(t := DeLoop (lf_held s t ! k) (lfp_head (lf_pool s))),
                 lf_held := (lf_held s)(t := remove_nth k (lf_held s t))\<rparr>
          else s)"
| "lfp_do (Next t) s = bind_res (lfp_next (lf_pc s t) (lf_pool s)) (\<lambda>(p, pc, got).
     Inr (s\<lparr>lf_pool := p, lf_pc := (lf_pc s)(t := pc), lf_held := (lf_held s)(t := lf_held s t @ got)\<rparr>))"
| "lfp_do (Spurious t) s = Inr (case lf_pc s t of
     AlCas currentHead msg \<Rightarrow> s\<lparr>lf_pc := (lf_pc s)(t := AlLoop (lfp_head (lf_pool s)))\<rparr>
   | DeCas msg currentHead \<Rightarrow> s\<lparr>lf_pc := (lf_pc s)(t := DeLoop msg (lfp_head (lf_pool s)))\<rparr>
   | _ \<Rightarrow> s)"

fun lfp_run :: "pool_act list \<Rightarrow> lfp_sys \<Rightarrow> lfp_sys res" where
  "lfp_run [] s = Inr s"
| "lfp_run (a # as) s = bind_res (lfp_do a s) (lfp_run as)"

definition lfp_sys_new :: "nat \<Rightarrow> lfp_sys" where
  "lfp_sys_new n = \<lparr>lf_pool = lfp_new n, lf_pc = (\<lambda>_. Idle), lf_held = (\<lambda>_. [])\<rparr>"

text \<open>Two threads that give a message back at the same time and allocate again afterwards.\<close>

definition clash :: "nat \<Rightarrow> nat \<Rightarrow> pool_act list" where
  "clash t u = [CallDealloc t 0, Next t, CallDealloc u 0, Next u, Next t, Next u, Next u, Next u]"

definition realloc :: "nat \<Rightarrow> nat \<Rightarrow> pool_act list" where
  "realloc t u = [CallAlloc t, Next t, Next t, CallAlloc u, Next u, Next u]"

lemma lfp_run_append: "lfp_run (as @ bs) s = bind_res (lfp_run as s) (lfp_run bs)"
  by (induction as arbitrary: s) (simp_all split: sum.split add: bind_res_def)

text \<open>Both messages go to the slots above the stack, but the later write replaces the first one.\<close>

lemma clash_pushes_twice:
  assumes "t \<noteq> u" and "lf_pc s t = Idle" and "lf_pc s u = Idle" and "lf_held s t = a # as" and "lf_held s u = b # bs"
    and "lfp_head (lf_pool s) = int n - 1" and "Suc n < length (lfp_free (lf_pool s))"
  shows "lfp_run (clash t u) s = Inr (s\<lparr>lf_pool := \<lparr>lfp_free = (lfp_free (lf_pool s))[n := b, Suc n := b],
      lfp_head = int n + 1\<rparr>, lf_pc := (lf_pc s)(t := Idle, u := Idle), lf_held := (lf_held s)(t := as, u := bs)\<rparr>)"
  using assms
  by (cases s; cases "lf_pool s")
    (auto simp: clash_def array_set_def remove_nth_def Let_def fun_upd_twist nat_add_distrib
      cong: bind_res_weak_cong)

text \<open>
  Claim C24.  In \<open>CustomLockFreePool\<close> a \<open>deallocate\<close> writes its message into the next slot before
  it owns the slot.  In any state in which two threads each hold a message, \<open>a\<close> and \<open>b\<close>, and give
  them back at the same time, the later write wins the slot whoever wins the exchange: \<open>b\<close> is pushed
  twice, so that both threads are given \<open>b\<close> when they allocate again, and \<open>a\<close> is lost: the free
  list is the one from before it was returned.
\<close>

theorem lfp_double_allocation:
  assumes "t \<noteq> u" and "lf_pc s t = Idle" and "lf_pc s u = Idle" and "lf_held s t = a # as" and "lf_held s u = b # bs"
    and "- 1 \<le> lfp_head (lf_pool s)" and "lfp_head (lf_pool s) + 2 < int (length (lfp_free (lf_pool s)))"
  shows "\<exists>s'. lfp_run (clash t u @ realloc t u) s = Inr s' \<and> lf_held s' t = as @ [b] \<and> lf_held s' u = bs @ [b] \<and>
    lfp_stack (lf_pool s') = lfp_stack (lf_pool s) \<and> lf_pc s' t = Idle \<and> lf_pc s' u = Idle"
proof -
  define n where "n = nat (lfp_head (lf_pool s) + 1)"
  have n: "lfp_head (lf_pool s) = int n - 1" "Suc n < length (lfp_free (lf_pool s))"
    using assms(6,7) by (auto simp: n_def)
  show ?thesis
    unfolding lfp_run_append clash_pushes_twice [OF assms(1-5) n] bind_res_simps
    using assms(1) n
    by (simp add: realloc_def array_get_def Let_def nat_add_distrib lfp_stack_def cong: bind_res_weak_cong)
qed

definition two_out :: lfp_sys where
  "two_out = \<lparr>lf_pool = \<lparr>lfp_free = [0, 1], lfp_head = - 1\<rparr>, lf_pc = (\<lambda>_. Idle),
     lf_held = (\<lambda>_. [])(0 := [1], 1 := [0])\<rparr>"

theorem lfp_double_allocation_witness:
  "lfp_run (realloc 0 1) (lfp_sys_new 2) = Inr two_out \<and>
   (\<exists>s'. lfp_run (clash 0 1 @ realloc 0 1) two_out = Inr s' \<and> lf_held s' 0 = [0] \<and> lf_held s' 1 = [0])"
proof
  show "lfp_run (realloc 0 1) (lfp_sys_new 2) = Inr two_out"
    by (simp add: realloc_def lfp_sys_new_def lfp_new_def array_get_def upt_rec two_out_def fun_eq_iff Let_def
      cong: bind_res_weak_cong)
  show "\<exists>s'. lfp_run (clash 0 1 @ realloc 0 1) two_out = Inr s' \<and> lf_held s' 0 = [0] \<and> lf_held s' 1 = [0]"
    using lfp_double_allocation [of 0 1 two_out 1 "[]" 0 "[]"] by (auto simp: two_out_def)
qed

subsection \<open>LockFreeThreadSafePool\<close>

datatype tsp_pc = TIdle | TAlRead u64 | TAlCas u64 u64 | TDeWrite nat u64 | TDeCas nat u64

record tsp_sys =
  ts_pool :: tsp
  ts_pc :: "nat \<Rightarrow> tsp_pc"
  ts_held :: "nat \<Rightarrow> nat list"

fun tsp_step :: "tsp_pc \<Rightarrow> tsp \<Rightarrow> (tsp \<times> tsp_pc \<times> nat list) res" where
  "tsp_step TIdle p = Inr (p, TIdle, [])"
| "tsp_step (TAlRead oldHead) p =
     (let (index, tag) = tag_unpack oldHead in
      if index = - 1 then Inr (p, TIdle, [])
      else bind_res (array_get (tsp_next p) (int (unat index))) (\<lambda>nextIndex. Inr (p, TAlCas oldHead nextIndex, [])))"
| "tsp_step (TAlCas oldHead nextIndex) p =
     (let (index, tag) = tag_unpack oldHead in
      if tsp_head p = oldHead then Inr (p\<lparr>tsp_head := tag_pack nextIndex (tag + 1)\<rparr>, TIdle, [unat index])
      else Inr (p, TAlRead (tsp_head p), []))"
| "tsp_step (TDeWrite index oldHead) p =
     (let (headIndex, tag) = tag_unpack oldHead in
      bind_res (array_set (tsp_next p) (int index) headIndex)
        (\<lambda>next. Inr (p\<lparr>tsp_next := next\<rparr>, TDeCas index oldHead, [])))"
| "tsp_step (TDeCas index oldHead) p =
     (let (headIndex, tag) = tag_unpack oldHead in
      if tsp_head p = oldHead then Inr (p\<lparr>tsp_head := tag_pack (of_nat index) (tag + 1)\<rparr>, TIdle, [])
      else Inr (p, TDeWrite index (tsp_head p), []))"

definition tsp_goto :: "nat \<Rightarrow> tsp_pc \<Rightarrow> tsp_sys \<Rightarrow> tsp_sys" where
  "tsp_goto t pc s = s\<lparr>ts_pc := (ts_pc s)(t := pc)\<rparr>"

fun tsp_do :: "pool_act \<Rightarrow> tsp_sys \<Rightarrow> tsp_sys res" where
  "tsp_do (CallAlloc t) s =
     Inr (if ts_pc s t = TIdle then tsp_goto t (TAlRead (tsp_head (ts_pool s))) s else s)"
| "tsp_do (CallDealloc t k) s =
     Inr (if ts_pc s t = TIdle \<and> k < length (ts_held s t)
          then (tsp_goto t (TDeWrite (ts_held s t ! k) (tsp_head (ts_pool s))) s)
                 \<lparr>ts_held := (ts_held s)(t := remove_nth k (ts_held s t))\<rparr>
          else s)"
| "tsp_do (Next t) s = bind_res (tsp_step (ts_pc s t) (ts_pool s)) (\<lambda>(p, pc, got).
     Inr ((tsp_goto t pc s)\<lparr>ts_pool := p, ts_held := (ts_held s)(t := ts_held s t @ got)\<rparr>))"
| "tsp_do (Spurious t) s = Inr (case ts_pc s t of
     TAlCas oldHead nextIndex \<Rightarrow> tsp_goto t (TAlRead (tsp_head (ts_pool s))) s
   | TDeCas index oldHead \<Rightarrow> tsp_goto t (TDeWrite index (tsp_head (ts_pool s))) s
   | _ \<Rightarrow> s)"

fun tsp_run :: "pool_act list \<Rightarrow> tsp_sys \<Rightarrow> tsp_sys res" where
  "tsp_run [] s = Inr s"
| "tsp_run (a # as) s = bind_res (tsp_do a s) (tsp_run as)"

definition tsp_sys_new :: "nat \<Rightarrow> tsp_sys" where
  "tsp_sys_new n = \<lparr>ts_pool = tsp_new n, ts_pc = (\<lambda>_. TIdle), ts_held = (\<lambda>_. [])\<rparr>"

text \<open>
  The messages in a thread's hands: those it holds and the one it is giving back.  A head word a
  thread has loaded is the current one or has an older tag.
\<close>

fun returning :: "tsp_pc \<Rightarrow> nat list" where
  "returning (TDeWrite m old) = [m]"
| "returning (TDeCas m old) = [m]"
| "returning _ = []"

definition in_hand :: "tsp_sys \<Rightarrow> nat \<Rightarrow> nat list" where
  "in_hand s t = returning (ts_pc s t) @ ts_held s t"

definition seen :: "u64 \<Rightarrow> u64 \<Rightarrow> bool" where
  "seen old head \<longleftrightarrow> high_tag old \<le> high_tag head \<and> (high_tag old = high_tag head \<longrightarrow> old = head)"

fun tsp_pc_inv :: "tsp \<Rightarrow> tsp_pc \<Rightarrow> bool" where
  "tsp_pc_inv p TIdle = True"
| "tsp_pc_inv p (TAlRead old) = (seen old (tsp_head p) \<and>
     (low_index old = no_index \<or> low_index old < length (tsp_next p)))"
| "tsp_pc_inv p (TAlCas old next) = (seen old (tsp_head p) \<and> low_index old < length (tsp_next p) \<and>
     (old = tsp_head p \<longrightarrow> next = tsp_next p ! low_index old))"
| "tsp_pc_inv p (TDeWrite m old) = seen old (tsp_head p)"
| "tsp_pc_inv p (TDeCas m old) = (seen old (tsp_head p) \<and> low_index (tsp_next p ! m) = low_index old)"

definition shared_out :: "nat \<Rightarrow> nat list \<Rightarrow> (nat \<Rightarrow> nat list) \<Rightarrow> bool" where
  "shared_out n free hand \<longleftrightarrow> distinct free \<and> (\<forall>t. distinct (hand t)) \<and>
     (\<forall>t. set (hand t) \<inter> set free = {}) \<and> (\<forall>t u. t \<noteq> u \<longrightarrow> set (hand t) \<inter> set (hand u) = {}) \<and>
     set free \<union> (\<Union>t. set (hand t)) = {..<n}"

definition tsp_inv :: "nat \<Rightarrow> nat list \<Rightarrow> tsp_sys \<Rightarrow> bool" where
  "tsp_inv n free s \<longleftrightarrow> n < no_index \<and> length (tsp_next (ts_pool s)) = n \<and>
     tsp_chain (tsp_next (ts_pool s)) (low_index (tsp_head (ts_pool s))) free \<and>
     shared_out n free (in_hand s) \<and> (\<forall>t. tsp_pc_inv (ts_pool s) (ts_pc s t))"

lemma seen_refl [simp]: "seen w w"
  by (simp add: seen_def)

lemma seen_push:
  assumes "seen old w" and "high_tag w < 2 ^ 32 - 1"
  shows "seen old (tag_pack i (snd (tag_unpack w) + 1)) \<and> old \<noteq> tag_pack i (snd (tag_unpack w) + 1) \<and>
    high_tag (tag_pack i (snd (tag_unpack w) + 1)) = Suc (high_tag w)"
proof -
  have "unat (snd (tag_unpack w) + 1) = Suc (unat (snd (tag_unpack w)))"
    using assms(2) by (simp add: unat_word_ariths)
  then have "high_tag (tag_pack i (snd (tag_unpack w) + 1)) = Suc (high_tag w)" by simp
  with assms(1) show ?thesis unfolding seen_def by (auto simp del: high_tag_pack)
qed

lemma tsp_pc_inv_push:
  assumes "tsp_pc_inv p pc" and "high_tag (tsp_head p) < 2 ^ 32 - 1"
  shows "tsp_pc_inv (p\<lparr>tsp_head := tag_pack i (snd (tag_unpack (tsp_head p)) + 1)\<rparr>) pc"
proof -
  have "seen old (tag_pack i (snd (tag_unpack (tsp_head p)) + 1)) \<and> old \<noteq> tag_pack i (snd (tag_unpack (tsp_head p)) + 1)"
    if "seen old (tsp_head p)" for old
    using seen_push [OF that assms(2), of i] by blast
  then show ?thesis using assms(1) by (cases pc) auto
qed

lemma shared_out_upd:
  assumes "shared_out n free hand" and "distinct (xs @ free')"
    and "set xs \<union> set free' = set (hand t) \<union> set free"
  shows "shared_out n free' (hand(t := xs))"
proof -
  have sets: "set free \<union> (\<Union>u. set (hand u)) = {..<n}" using assms(1) by (simp add: shared_out_def)
  have "(\<Union>u. set ((hand(t := xs)) u)) = set xs \<union> (\<Union>u\<in>- {t}. set (hand u))"
    by (auto split: if_splits)
  moreover have "(\<Union>u. set (hand u)) = set (hand t) \<union> (\<Union>u\<in>- {t}. set (hand u))" by auto
  ultimately have "set free' \<union> (\<Union>u. set ((hand(t := xs)) u)) = {..<n}"
    using sets assms(3) by auto
  moreover have "set (hand u) \<inter> (set xs \<union> set free') = {}" if "u \<noteq> t" for u
    using assms(1) that unfolding assms(3) shared_out_def by blast
  then have "set (hand u) \<inter> set xs = {}" "set xs \<inter> set (hand u) = {}" "set (hand u) \<inter> set free' = {}"
    if "u \<noteq> t" for u
    using that by blast+
  ultimately show ?thesis
    using assms(1,2) unfolding shared_out_def by simp
qed

lemma in_hand_upd:
  "in_hand ((tsp_goto t pc s)\<lparr>ts_pool := p, ts_held := (ts_held s)(t := xs)\<rparr>)
    = (in_hand s)(t := returning pc @ xs)"
  by (auto simp: in_hand_def tsp_goto_def fun_eq_iff)

lemma tsp_inv_local:
  assumes inv: "tsp_inv n free s" and pc: "tsp_pc_inv (ts_pool s) pc"
    and same: "distinct (returning pc @ xs)" "set (returning pc @ xs) = set (in_hand s t)"
  shows "tsp_inv n free ((tsp_goto t pc s)\<lparr>ts_pool := ts_pool s, ts_held := (ts_held s)(t := xs)\<rparr>)"
proof -
  have "shared_out n free ((in_hand s)(t := returning pc @ xs))"
  proof (rule shared_out_upd)
    show "shared_out n free (in_hand s)" using inv by (simp add: tsp_inv_def)
    then show "distinct ((returning pc @ xs) @ free)"
      using same unfolding shared_out_def distinct_append [of "returning pc @ xs"] by (metis Int_commute)
    show "set (returning pc @ xs) \<union> set free = set (in_hand s t) \<union> set free" by (simp only: same)
  qed
  then show ?thesis
    using inv pc unfolding tsp_inv_def in_hand_upd by (simp add: tsp_goto_def)
qed

lemma tsp_inv_pop:
  assumes inv: "tsp_inv n free s" and pc: "ts_pc s t = TAlCas (tsp_head (ts_pool s)) nxt"
    and few: "high_tag (tsp_head (ts_pool s)) < 2 ^ 32 - 1"
  shows "\<exists>free'. tsp_inv n free' ((tsp_goto t TIdle s)\<lparr>ts_pool := (ts_pool s)\<lparr>tsp_head :=
      tag_pack nxt (snd (tag_unpack (tsp_head (ts_pool s))) + 1)\<rparr>,
    ts_held := (ts_held s)(t := ts_held s t @ [low_index (tsp_head (ts_pool s))])\<rparr>)"
proof -
  let ?p = "ts_pool s" and ?m = "low_index (tsp_head (ts_pool s))"
  have pcs: "\<And>t. tsp_pc_inv ?p (ts_pc s t)" and out: "shared_out n free (in_hand s)"
    and ch: "tsp_chain (tsp_next ?p) ?m free" and n: "n < no_index" "length (tsp_next ?p) = n"
    using inv by (auto simp: tsp_inv_def)
  have m: "?m < n" "nxt = tsp_next ?p ! ?m" using pcs [of t] pc n by auto
  obtain ms where free: "free = ?m # ms" and ms: "tsp_chain (tsp_next ?p) (low_index nxt) ms"
    using ch m n by (cases free) auto
  have hand: "in_hand s t = ts_held s t" using pc by (simp add: in_hand_def)
  have "shared_out n ms ((in_hand s)(t := returning TIdle @ ts_held s t @ [?m]))"
  proof (rule shared_out_upd [OF out])
    show "distinct ((returning TIdle @ ts_held s t @ [?m]) @ ms)"
      using out hand [symmetric] free unfolding shared_out_def by auto
    show "set (returning TIdle @ ts_held s t @ [?m]) \<union> set ms = set (in_hand s t) \<union> set free"
      using hand free by auto
  qed
  then have "tsp_inv n ms ((tsp_goto t TIdle s)\<lparr>ts_pool := ?p\<lparr>tsp_head :=
      tag_pack nxt (snd (tag_unpack (tsp_head ?p)) + 1)\<rparr>, ts_held := (ts_held s)(t := ts_held s t @ [?m])\<rparr>)"
    using n ms pcs tsp_pc_inv_push [OF _ few] unfolding tsp_inv_def in_hand_upd by (simp add: tsp_goto_def)
  then show ?thesis by blast
qed

lemma tsp_inv_link:
  assumes inv: "tsp_inv n free s" and pc: "ts_pc s t = TDeWrite m old"
  shows "tsp_inv n free ((tsp_goto t (TDeCas m old) s)\<lparr>ts_pool := (ts_pool s)\<lparr>tsp_next :=
      (tsp_next (ts_pool s))[m := old AND INDEX_MASK]\<rparr>, ts_held := (ts_held s)(t := ts_held s t)\<rparr>)"
    and "m < n"
proof -
  let ?p = "ts_pool s"
  let ?p' = "?p\<lparr>tsp_next := (tsp_next ?p)[m := old AND INDEX_MASK]\<rparr>"
  have pcs: "\<And>t. tsp_pc_inv ?p (ts_pc s t)" and out: "shared_out n free (in_hand s)"
    and ch: "tsp_chain (tsp_next ?p) (low_index (tsp_head ?p)) free" and n: "n < no_index" "length (tsp_next ?p) = n"
    using inv by (auto simp: tsp_inv_def)
  have mt: "m \<in> set (in_hand s t)" using pc by (simp add: in_hand_def)
  then show mn: "m < n" using out unfolding shared_out_def by blast
  have mf: "m \<notin> set free" using out mt unfolding shared_out_def by blast
  have mu: "m \<notin> set (in_hand s u)" if "u \<noteq> t" for u using out mt that unfolding shared_out_def by blast
  have others: "tsp_pc_inv ?p' (ts_pc s u)" if u: "u \<noteq> t" for u
  proof (cases "ts_pc s u")
    case (TAlCas old' nxt)
    have "low_index (tsp_head ?p) \<noteq> m" if "low_index (tsp_head ?p) < n"
      using ch mf that n by (cases free) auto
    then show ?thesis using pcs [of u] TAlCas n by auto
  next
    case (TDeCas m' old')
    then have "m' \<noteq> m" using mu [OF u] by (auto simp: in_hand_def)
    then show ?thesis using pcs [of u] TDeCas by simp
  qed (use pcs [of u] in simp_all)
  have "tsp_pc_inv ?p' (TDeCas m old)"
    using pcs [of t] pc mn n by (simp add: and.assoc)
  moreover have "tsp_chain (tsp_next ?p') (low_index (tsp_head ?p')) free"
    using ch mf by (simp add: tsp_chain_update)
  moreover have "(in_hand s)(t := returning (TDeCas m old) @ ts_held s t) = in_hand s"
    using pc by (auto simp: in_hand_def fun_eq_iff)
  ultimately show "tsp_inv n free ((tsp_goto t (TDeCas m old) s)\<lparr>ts_pool := ?p', ts_held := (ts_held s)(t := ts_held s t)\<rparr>)"
    using n out others unfolding tsp_inv_def in_hand_upd by (simp add: tsp_goto_def)
qed

lemma tsp_inv_push:
  assumes inv: "tsp_inv n free s" and pc: "ts_pc s t = TDeCas m (tsp_head (ts_pool s))"
    and few: "high_tag (tsp_head (ts_pool s)) < 2 ^ 32 - 1"
  shows "\<exists>free'. tsp_inv n free' ((tsp_goto t TIdle s)\<lparr>ts_pool := (ts_pool s)\<lparr>tsp_head :=
      tag_pack (of_nat m) (snd (tag_unpack (tsp_head (ts_pool s))) + 1)\<rparr>,
    ts_held := (ts_held s)(t := ts_held s t @ [])\<rparr>)"
proof -
  let ?p = "ts_pool s"
  have pcs: "\<And>t. tsp_pc_inv ?p (ts_pc s t)" and out: "shared_out n free (in_hand s)"
    and ch: "tsp_chain (tsp_next ?p) (low_index (tsp_head ?p)) free" and n: "n < no_index" "length (tsp_next ?p) = n"
    using inv by (auto simp: tsp_inv_def)
  have hand: "in_hand s t = m # ts_held s t" using pc by (simp add: in_hand_def)
  then have "m \<in> set (in_hand s t)" by simp
  then have mn: "m < n" using out unfolding shared_out_def by blast
  then have low: "low_index (of_nat m) = m" using n by (intro low_index_of_nat) (simp add: no_index_def)
  have link: "low_index (tsp_next ?p ! m) = low_index (tsp_head ?p)" using pcs [of t] pc by simp
  have chain: "tsp_chain (tsp_next ?p) (low_index (of_nat m)) (m # free)"
    unfolding tsp_chain.simps low link using mn n ch by blast
  have "shared_out n (m # free) ((in_hand s)(t := returning TIdle @ ts_held s t @ []))"
  proof (rule shared_out_upd [OF out])
    have "distinct (m # ts_held s t)" "set (m # ts_held s t) \<inter> set free = {}" "distinct free"
      using out unfolding hand [symmetric] shared_out_def by blast+
    then show "distinct ((returning TIdle @ ts_held s t @ []) @ m # free)" by auto
    show "set (returning TIdle @ ts_held s t @ []) \<union> set (m # free) = set (in_hand s t) \<union> set free"
      using hand by auto
  qed
  then have "tsp_inv n (m # free) ((tsp_goto t TIdle s)\<lparr>ts_pool := ?p\<lparr>tsp_head :=
      tag_pack (of_nat m) (snd (tag_unpack (tsp_head ?p)) + 1)\<rparr>, ts_held := (ts_held s)(t := ts_held s t @ [])\<rparr>)"
    using n chain pcs tsp_pc_inv_push [OF _ few] unfolding tsp_inv_def in_hand_upd
    by (simp add: tsp_goto_def del: tsp_chain.simps)
  then show ?thesis by blast
qed

lemma remove_nth_sets:
  assumes "distinct xs" and "k < length xs"
  shows "set xs = insert (xs ! k) (set (remove_nth k xs))" and "distinct (xs ! k # remove_nth k xs)"
proof -
  note sets = set_remove_nth [OF assms, folded remove_nth_def]
  show "set xs = insert (xs ! k) (set (remove_nth k xs))"
    unfolding sets using insert_Diff [of "xs ! k" "set xs"] assms(2) by simp
  show "distinct (xs ! k # remove_nth k xs)" using sets by simp
qed

text \<open>One action: it succeeds and keeps the invariant, or it is a read past the end of the free list.\<close>

definition exhausted_read :: "tsp_sys \<Rightarrow> pool_act \<Rightarrow> bool" where
  "exhausted_read s a \<longleftrightarrow> (\<exists>t old. a = Next t \<and> ts_pc s t = TAlRead old \<and> low_index old = no_index)"

lemma tsp_step_unpacked:
  "tsp_step (TAlRead old) p = bind_res (array_get (tsp_next p) (int (low_index old)))
     (\<lambda>nextIndex. Inr (p, TAlCas old nextIndex, []))"
  "tsp_step (TAlCas old nxt) p = (if tsp_head p = old
     then Inr (p\<lparr>tsp_head := tag_pack nxt (snd (tag_unpack old) + 1)\<rparr>, TIdle, [low_index old])
     else Inr (p, TAlRead (tsp_head p), []))"
  "tsp_step (TDeWrite m old) p = bind_res (array_set (tsp_next p) (int m) (old AND INDEX_MASK))
     (\<lambda>next. Inr (p\<lparr>tsp_next := next\<rparr>, TDeCas m old, []))"
  "tsp_step (TDeCas m old) p = (if tsp_head p = old
     then Inr (p\<lparr>tsp_head := tag_pack (of_nat m) (snd (tag_unpack old) + 1)\<rparr>, TIdle, [])
     else Inr (p, TDeWrite m (tsp_head p), []))"
  by (simp_all add: tag_unpack_def index_not_minus_one Let_def)

definition tsp_kept :: "nat \<Rightarrow> tsp_sys \<Rightarrow> tsp_sys res \<Rightarrow> bool" where
  "tsp_kept n s r \<longleftrightarrow> (\<exists>s' free'. r = Inr s' \<and> tsp_inv n free' s' \<and>
     high_tag (tsp_head (ts_pool s')) \<le> Suc (high_tag (tsp_head (ts_pool s))))"

lemma tsp_inv_facts:
  assumes "tsp_inv n free s"
  shows "tsp_pc_inv (ts_pool s) (ts_pc s t)" and "n < no_index" and "length (tsp_next (ts_pool s)) = n"
    and "distinct (in_hand s t)" and "low_index (tsp_head (ts_pool s)) = no_index \<or> low_index (tsp_head (ts_pool s)) < n"
  using assms by (cases free; auto simp: tsp_inv_def shared_out_def)+

text \<open>An action of a thread that leaves the pool and what it has in hand alone.\<close>

lemma tsp_kept_stay:
  assumes inv: "tsp_inv n free s" and "tsp_pc_inv (ts_pool s) pc" and "returning pc = returning (ts_pc s t)"
    and "tsp_step (ts_pc s t) (ts_pool s) = Inr (ts_pool s, pc, [])"
  shows "tsp_kept n s (tsp_do (Next t) s)"
proof -
  have "tsp_inv n free ((tsp_goto t pc s)\<lparr>ts_pool := ts_pool s, ts_held := (ts_held s)(t := ts_held s t @ [])\<rparr>)"
    using tsp_inv_local [OF inv assms(2), of "ts_held s t" t] tsp_inv_facts(4) [OF inv, of t] assms(3)
    by (simp add: in_hand_def)
  then show ?thesis using assms(4) by (auto simp: tsp_goto_def tsp_kept_def)
qed

text \<open>A successful compare-and-swap: the tag goes up by one.\<close>

lemma tsp_kept_swap:
  assumes few: "high_tag (tsp_head (ts_pool s)) < 2 ^ 32 - 1"
    and "tsp_step (ts_pc s t) (ts_pool s)
      = Inr ((ts_pool s)\<lparr>tsp_head := tag_pack i (snd (tag_unpack (tsp_head (ts_pool s))) + 1)\<rparr>, TIdle, ms)"
    and "tsp_inv n free' ((tsp_goto t TIdle s)\<lparr>ts_pool := (ts_pool s)\<lparr>tsp_head :=
      tag_pack i (snd (tag_unpack (tsp_head (ts_pool s))) + 1)\<rparr>, ts_held := (ts_held s)(t := ts_held s t @ ms)\<rparr>)"
  shows "tsp_kept n s (tsp_do (Next t) s)"
proof -
  have "high_tag (tag_pack i (snd (tag_unpack (tsp_head (ts_pool s))) + 1)) \<le> Suc (high_tag (tsp_head (ts_pool s)))"
    using seen_push [OF seen_refl few, of i] by (simp only: order_refl)
  then show ?thesis using assms(2,3) by (auto simp: tsp_kept_def)
qed

lemma tsp_alloc_read_ok:
  assumes inv: "tsp_inv n free s" and live: "\<not> exhausted_read s (Next t)" and at: "ts_pc s t = TAlRead old"
  shows "tsp_kept n s (tsp_do (Next t) s)"
proof -
  let ?p = "ts_pool s"
  note n = tsp_inv_facts(2,3) [OF inv]
  have old: "seen old (tsp_head ?p)" "low_index old < n"
    using tsp_inv_facts(1) [OF inv, of t] at live n by (auto simp: exhausted_read_def)
  then have get: "array_get (tsp_next ?p) (int (low_index old)) = Inr (tsp_next ?p ! low_index old)"
    using n by (intro array_get_nat) simp
  show ?thesis
  proof (rule tsp_kept_stay [OF inv])
    show "tsp_step (ts_pc s t) ?p = Inr (?p, TAlCas old (tsp_next ?p ! low_index old), [])"
      unfolding at tsp_step_unpacked get by simp
  qed (use old n at in auto)
qed

lemma tsp_alloc_cas_ok:
  assumes inv: "tsp_inv n free s" and few: "high_tag (tsp_head (ts_pool s)) < 2 ^ 32 - 1"
    and at: "ts_pc s t = TAlCas old nxt"
  shows "tsp_kept n s (tsp_do (Next t) s)"
proof (cases "tsp_head (ts_pool s) = old")
  case True
  then have here: "ts_pc s t = TAlCas (tsp_head (ts_pool s)) nxt" using at by simp
  obtain free' where "tsp_inv n free' ((tsp_goto t TIdle s)\<lparr>ts_pool := (ts_pool s)\<lparr>tsp_head :=
      tag_pack nxt (snd (tag_unpack (tsp_head (ts_pool s))) + 1)\<rparr>,
      ts_held := (ts_held s)(t := ts_held s t @ [low_index (tsp_head (ts_pool s))])\<rparr>)"
    using tsp_inv_pop [OF inv here few] by blast
  then show ?thesis by (rule tsp_kept_swap [OF few, rotated]) (unfold here tsp_step_unpacked, simp)
next
  case False
  show ?thesis
    by (rule tsp_kept_stay [OF inv, of "TAlRead (tsp_head (ts_pool s))"])
      (use tsp_inv_facts(5) [OF inv] tsp_inv_facts(2,3) [OF inv] at False in \<open>auto simp: tsp_step_unpacked\<close>)
qed

lemma tsp_dealloc_write_ok:
  assumes inv: "tsp_inv n free s" and at: "ts_pc s t = TDeWrite m old"
  shows "tsp_kept n s (tsp_do (Next t) s)"
proof -
  let ?p = "ts_pool s"
  note link = tsp_inv_link [OF inv at]
  have put: "array_set (tsp_next ?p) (int m) (old AND INDEX_MASK) = Inr ((tsp_next ?p)[m := old AND INDEX_MASK])"
    using link(2) tsp_inv_facts(3) [OF inv] by (intro array_set_nat) simp
  have "tsp_step (ts_pc s t) ?p
    = Inr (?p\<lparr>tsp_next := (tsp_next ?p)[m := old AND INDEX_MASK]\<rparr>, TDeCas m old, [])"
    unfolding at tsp_step_unpacked put by simp
  then show ?thesis using link(1) by (auto simp: tsp_goto_def tsp_kept_def)
qed

lemma tsp_dealloc_cas_ok:
  assumes inv: "tsp_inv n free s" and few: "high_tag (tsp_head (ts_pool s)) < 2 ^ 32 - 1"
    and at: "ts_pc s t = TDeCas m old"
  shows "tsp_kept n s (tsp_do (Next t) s)"
proof (cases "tsp_head (ts_pool s) = old")
  case True
  then have here: "ts_pc s t = TDeCas m (tsp_head (ts_pool s))" using at by simp
  obtain free' where "tsp_inv n free' ((tsp_goto t TIdle s)\<lparr>ts_pool := (ts_pool s)\<lparr>tsp_head :=
      tag_pack (of_nat m) (snd (tag_unpack (tsp_head (ts_pool s))) + 1)\<rparr>,
      ts_held := (ts_held s)(t := ts_held s t @ [])\<rparr>)"
    using tsp_inv_push [OF inv here few] by blast
  then show ?thesis by (rule tsp_kept_swap [OF few, rotated]) (unfold here tsp_step_unpacked, simp)
next
  case False
  show ?thesis
    by (rule tsp_kept_stay [OF inv, of "TDeWrite m (tsp_head (ts_pool s))"])
      (use at False in \<open>auto simp: tsp_step_unpacked\<close>)
qed

lemma tsp_next_ok:
  assumes inv: "tsp_inv n free s" and few: "high_tag (tsp_head (ts_pool s)) < 2 ^ 32 - 1"
    and live: "\<not> exhausted_read s (Next t)"
  shows "tsp_kept n s (tsp_do (Next t) s)"
proof (cases "ts_pc s t")
  case TIdle
  then show ?thesis using inv by (intro tsp_kept_stay [OF inv, of TIdle]) auto
qed (use tsp_alloc_read_ok [OF inv live] tsp_alloc_cas_ok [OF inv few] tsp_dealloc_write_ok [OF inv]
      tsp_dealloc_cas_ok [OF inv few] in blast)+

lemma tsp_do_ok:
  assumes inv: "tsp_inv n free s" and few: "high_tag (tsp_head (ts_pool s)) < 2 ^ 32 - 1"
    and live: "\<not> exhausted_read s a"
  shows "\<exists>s' free'. tsp_do a s = Inr s' \<and> tsp_inv n free' s' \<and>
    high_tag (tsp_head (ts_pool s')) \<le> Suc (high_tag (tsp_head (ts_pool s)))"
proof -
  let ?p = "ts_pool s"
  have out: "shared_out n free (in_hand s)" and n: "n < no_index" "length (tsp_next ?p) = n"
    using inv by (auto simp: tsp_inv_def)
  have hand: "distinct (in_hand s t)" for t using out by (simp add: shared_out_def)
  have head: "low_index (tsp_head ?p) = no_index \<or> low_index (tsp_head ?p) < n"
    using inv by (cases free) (auto simp: tsp_inv_def)
  have goto: "tsp_inv n free (tsp_goto t pc s)"
    if "tsp_pc_inv ?p pc" "returning pc = returning (ts_pc s t)" for pc t
    using tsp_inv_local [OF inv that(1), of "ts_held s t" t] hand [of t] that(2)
    by (simp add: in_hand_def tsp_goto_def)
  show ?thesis
  proof (cases a)
    case (CallAlloc t)
    have "tsp_inv n free (tsp_goto t (TAlRead (tsp_head ?p)) s)" if "ts_pc s t = TIdle"
      by (rule goto) (use head n that in auto)
    with inv CallAlloc show ?thesis by (auto simp: tsp_goto_def)
  next
    case (CallDealloc t k)
    have "tsp_inv n free ((tsp_goto t (TDeWrite (ts_held s t ! k) (tsp_head ?p)) s)
        \<lparr>ts_pool := ?p, ts_held := (ts_held s)(t := remove_nth k (ts_held s t))\<rparr>)"
      if "ts_pc s t = TIdle" "k < length (ts_held s t)"
    proof (rule tsp_inv_local [OF inv])
      have "in_hand s t = ts_held s t" using that by (simp add: in_hand_def)
      moreover from this hand [of t] have "distinct (ts_held s t)" by simp
      ultimately show "distinct (returning (TDeWrite (ts_held s t ! k) (tsp_head ?p)) @ remove_nth k (ts_held s t))"
        and "set (returning (TDeWrite (ts_held s t ! k) (tsp_head ?p)) @ remove_nth k (ts_held s t)) = set (in_hand s t)"
        using remove_nth_sets [of "ts_held s t" k] that by simp_all
    qed simp
    with inv CallDealloc show ?thesis by (auto simp: tsp_goto_def)
  next
    case (Next t)
    with tsp_next_ok [OF inv few, of t] live show ?thesis by (simp add: tsp_kept_def)
  next
    case (Spurious t)
    have "tsp_inv n free (tsp_goto t (TAlRead (tsp_head ?p)) s)" if "ts_pc s t = TAlCas old nxt" for old nxt
      by (rule goto) (use head n that in auto)
    moreover have "tsp_inv n free (tsp_goto t (TDeWrite m (tsp_head ?p)) s)" if "ts_pc s t = TDeCas m old" for m old
      by (rule goto) (use that in auto)
    moreover have "ts_pool (tsp_goto t pc s) = ?p" for pc by (simp add: tsp_goto_def)
    ultimately show ?thesis
      using inv Spurious by (cases "ts_pc s t") auto
  qed
qed

lemma tsp_run_inv:
  assumes "tsp_inv n free s" and "high_tag (tsp_head (ts_pool s)) + length acts < 2 ^ 32 - 1"
    and "tsp_run acts s = Inr s'"
  shows "\<exists>free'. tsp_inv n free' s' \<and> high_tag (tsp_head (ts_pool s')) \<le> high_tag (tsp_head (ts_pool s)) + length acts"
  using assms
proof (induction acts arbitrary: s free)
  case Nil
  then show ?case by auto
next
  case (Cons a acts)
  then obtain s1 where s1: "tsp_do a s = Inr s1" "tsp_run acts s1 = Inr s'" by auto
  have "\<not> exhausted_read s a"
  proof
    assume "exhausted_read s a"
    then obtain t old where a: "a = Next t" "ts_pc s t = TAlRead old" "low_index old = no_index"
      by (auto simp: exhausted_read_def)
    have "array_get (tsp_next (ts_pool s)) (int (low_index old)) = Inl (UB OutOfBounds)"
      using Cons.prems(1) a(3) unfolding array_get_def by (simp add: tsp_inv_def)
    then have "tsp_step (ts_pc s t) (ts_pool s) = Inl (UB OutOfBounds)"
      unfolding a(2) tsp_step_unpacked by simp
    with s1(1) a(1) show False by simp
  qed
  then obtain free1 where "tsp_inv n free1 s1"
      "high_tag (tsp_head (ts_pool s1)) \<le> Suc (high_tag (tsp_head (ts_pool s)))"
    using tsp_do_ok [OF Cons.prems(1), of a] Cons.prems(2) s1(1) by auto
  with Cons.IH [OF this(1)] Cons.prems(2) s1(2) show ?case by fastforce
qed

lemma tsp_sys_new_inv:
  assumes "n < no_index"
  shows "tsp_inv n (rev [0..<n]) (tsp_sys_new n)" and "high_tag (tsp_head (ts_pool (tsp_sys_new n))) = 0"
proof -
  have hand: "in_hand (tsp_sys_new n) t = []" for t by (simp add: in_hand_def tsp_sys_new_def)
  have "shared_out n (rev [0..<n]) (in_hand (tsp_sys_new n))"
    unfolding shared_out_def by (auto simp: hand)
  then show "tsp_inv n (rev [0..<n]) (tsp_sys_new n)"
    using tsp_new_chain [OF assms] assms by (simp add: tsp_inv_def tsp_sys_new_def) (simp add: tsp_new_def)
  show "high_tag (tsp_head (ts_pool (tsp_sys_new n))) = 0"
    by (simp add: tsp_sys_new_def tsp_new_def)
qed

text \<open>
  Claim C23.  \<open>LockFreeThreadSafePool\<close> with any number of threads that give back only what they
  hold: while fewer than \<open>2 ^ 32 - 1\<close> actions have been taken (so no tag repeats) no message is
  held twice, by two threads or by one, and the messages in the threads' hands and on the free list
  are exactly the messages of the pool.  The only action that can fail is an \<open>allocate\<close> that loaded
  the head of an empty free list.
\<close>

theorem tsp_exclusive:
  assumes "n < no_index" and "length acts < 2 ^ 32 - 1" and "tsp_run acts (tsp_sys_new n) = Inr s"
  shows "(\<forall>t. distinct (in_hand s t)) \<and>
    (\<forall>t u. t \<noteq> u \<longrightarrow> set (ts_held s t) \<inter> set (ts_held s u) = {}) \<and>
    (\<exists>free. tsp_chain (tsp_next (ts_pool s)) (low_index (tsp_head (ts_pool s))) free \<and> distinct free \<and>
      set free \<union> (\<Union>t. set (in_hand s t)) = {..<n} \<and> (\<forall>t. set (in_hand s t) \<inter> set free = {})) \<and>
    (\<forall>a. length acts + 1 < 2 ^ 32 - 1 \<and> \<not> exhausted_read s a \<longrightarrow> (\<exists>s'. tsp_do a s = Inr s'))"
proof -
  note init = tsp_sys_new_inv [OF assms(1)]
  obtain free where inv: "tsp_inv n free s" and tag: "high_tag (tsp_head (ts_pool s)) \<le> length acts"
    using tsp_run_inv [OF init(1) _ assms(3)] init(2) assms(2) by auto
  then have out: "shared_out n free (in_hand s)"
    and ch: "tsp_chain (tsp_next (ts_pool s)) (low_index (tsp_head (ts_pool s))) free"
    by (auto simp: tsp_inv_def)
  have held: "set (ts_held s t) \<subseteq> set (in_hand s t)" for t by (auto simp: in_hand_def)
  have "set (in_hand s t) \<inter> set (in_hand s u) = {}" if "t \<noteq> u" for t u
    using out that unfolding shared_out_def by simp
  then have "set (ts_held s t) \<inter> set (ts_held s u) = {}" if "t \<noteq> u" for t u
    using held [of t] held [of u] that by fast
  moreover have "\<exists>s'. tsp_do a s = Inr s'" if "length acts + 1 < 2 ^ 32 - 1" "\<not> exhausted_read s a" for a
    using tsp_do_ok [OF inv _ that(2)] tag that(1) by (meson add_lessD1 le_less_trans)
  moreover have "\<exists>free. tsp_chain (tsp_next (ts_pool s)) (low_index (tsp_head (ts_pool s))) free \<and> distinct free \<and>
      set free \<union> (\<Union>t. set (in_hand s t)) = {..<n} \<and> (\<forall>t. set (in_hand s t) \<inter> set free = {})"
    using ch out unfolding shared_out_def by (intro exI [of _ free]) simp
  moreover have "\<forall>t. distinct (in_hand s t)" using out by (simp add: shared_out_def)
  ultimately show ?thesis by meson
qed

lemma tsp_exclusive_witness:
  "distinct (in_hand (tsp_sys_new 3) 0) \<and> (\<exists>s'. tsp_do (CallAlloc 0) (tsp_sys_new 3) = Inr s')"
  using tsp_exclusive [of 3 "[]" "tsp_sys_new 3"] by (auto simp: no_index_def exhausted_read_def)

text \<open>
  Claim C25.  Called one at a time and within its size, each of the three pools serves every
  sequence of calls: no call fails, every \<open>allocate\<close> hands out a message of the pool, never
  \<open>nullptr\<close> and never one that is still held, and every message of the pool is either held or free.
\<close>

theorem pools_account:
  assumes "within n 0 cs" and "n < no_index"
  shows "(\<exists>rs held p. pool_run clp_ops cs ([], clp_new n) = Inr (rs, held, p) \<and> served n [] cs rs held \<and>
      distinct held \<and> set held \<inter> clp_free_msgs p = {} \<and> set held \<union> clp_free_msgs p = {..<n}) \<and>
    (\<exists>rs held p. pool_run lfp_ops cs ([], lfp_new n) = Inr (rs, held, p) \<and> served n [] cs rs held \<and>
      distinct held \<and> set held \<inter> set (lfp_stack p) = {} \<and> set held \<union> set (lfp_stack p) = {..<n}) \<and>
    (\<exists>rs held p. pool_run tsp_ops cs ([], tsp_new n) = Inr (rs, held, p) \<and> served n [] cs rs held \<and>
      distinct held \<and> set held \<inter> set (tsp_stack p) = {} \<and> set held \<union> set (tsp_stack p) = {..<n})"
proof -
  have size: "clp_pool (clp_new n) = n" "length (lfp_free (lfp_new n)) = n" "length (tsp_next (tsp_new n)) = n"
    by (simp_all add: clp_new_def lfp_new_def tsp_new_def)
  show ?thesis
    using clp.run_accounted [OF clp_new_accounted [of n], of cs] lfp.run_accounted [OF lfp_new_accounted [of n], of cs]
      tsp.run_accounted [OF tsp_new_accounted [OF assms(2)], of cs] assms(1)
    unfolding clp.accounted_def lfp.accounted_def tsp.accounted_def size by fastforce
qed

lemma pools_account_witness:
  "(\<exists>rs held p. pool_run tsp_ops [Alloc, Alloc, Dealloc 0, Alloc] ([], tsp_new 2) = Inr (rs, held, p) \<and>
      served 2 [] [Alloc, Alloc, Dealloc 0, Alloc] rs held \<and> set held \<union> set (tsp_stack p) = {..<2})"
  using pools_account [of 2 "[Alloc, Alloc, Dealloc 0, Alloc]"]
  by (auto simp: no_index_def simp del: pool_run.simps served.simps)

text \<open>
  Claim C26.  \<open>pack\<close> and \<open>unpack\<close> are inverse to each other on words, and on an index that fits
  32 bits with any tag.
\<close>

theorem tag_pack_roundtrip:
  "tag_pack (fst (tag_unpack w)) (snd (tag_unpack w)) = w \<and>
   tag_unpack (tag_pack (ucast (index :: u32)) tag) = (ucast index, tag)"
proof -
  have short: "n < 32" if "bit index n" for n
    using bit_imp_le_length [OF that] by simp
  have "(ucast index :: u64) AND INDEX_MASK = ucast index"
    unfolding INDEX_MASK_mask by (auto intro!: bit_word_eqI simp: bit_simps short)
  then show ?thesis by (simp add: tag_pack_unpack tag_unpack_pack)
qed

end
