(* ===== verification/Floats.thy ===== *)
theory Floats
  imports Prelude
begin

text \<open>
  IEEE rounding, as far as the program needs it: a positive number is rounded to \<open>p\<close>
  significant bits, to nearest with ties to even (\<open>p = 24\<close> for \<open>float\<close>, \<open>p = 53\<close> for
  \<open>double\<close>).  Overflow, underflow, infinities and NaN play no part where it is used.
\<close>

fun bits :: "nat \<Rightarrow> nat" where
  "bits n = (if n = 0 then 0 else Suc (bits (n div 2)))"

declare bits.simps [simp del]

definition round_even :: "nat \<Rightarrow> nat \<Rightarrow> nat" where
  "round_even p n =
     (let e = bits n - p; q = n div 2 ^ e; r = n mod 2 ^ e; half = 2 ^ (e - 1)
      in if e = 0 then n
         else (if r > half \<or> (r = half \<and> odd q) then q + 1 else q) * 2 ^ e)"

lemma bits_0 [simp]: "bits 0 = 0"
  by (simp add: bits.simps)

lemma bits_numeral: "bits (Suc 0) = 1" "bits (numeral n) = Suc (bits (numeral n div 2))"
  by (simp_all add: bits.simps)

lemma bits_bounds:
  "n < 2 ^ bits n" "0 < n \<Longrightarrow> 2 ^ (bits n - 1) \<le> n"
proof (induction n rule: bits.induct)
  case (1 n)
  {
    case 1
    show ?case
    proof (cases "n = 0")
      case False
      then have "n div 2 < 2 ^ bits (n div 2)" by (rule "1.IH"(1))
      then have "n < 2 * 2 ^ bits (n div 2)" by linarith
      then show ?thesis using False by (simp add: bits.simps [of n])
    qed simp
  next
    case 2
    then show ?case
    proof (cases "n div 2 = 0")
      case True
      with 2 have "n = 1" by auto
      then show ?thesis by (simp add: bits.simps)
    next
      case False
      with 2 have "2 ^ (bits (n div 2) - 1) \<le> n div 2" using "1.IH"(2) by simp
      moreover have "bits (n div 2) \<noteq> 0" using False by (simp add: bits.simps [of "n div 2"])
      then have "(2 :: nat) ^ bits (n div 2) = 2 * 2 ^ (bits (n div 2) - 1)"
        by (metis Suc_diff_1 bot_nat_0.not_eq_extremum power_Suc)
      ultimately show ?thesis using 2 by (simp add: bits.simps [of n])
    qed
  }
qed

lemma bits_le_iff: "bits n \<le> k \<longleftrightarrow> n < 2 ^ k"
proof
  assume "bits n \<le> k"
  then have "(2 :: nat) ^ bits n \<le> 2 ^ k" by (intro power_increasing) simp_all
  then show "n < 2 ^ k" using bits_bounds(1) [of n] by linarith
next
  assume less: "n < 2 ^ k"
  show "bits n \<le> k"
  proof (rule ccontr)
    assume "\<not> bits n \<le> k"
    then have "n \<noteq> 0" and "k \<le> bits n - 1" by (auto intro!: Nat.gr0I)
    then have "(2 :: nat) ^ k \<le> 2 ^ (bits n - 1)" by (intro power_increasing) simp_all
    also have "\<dots> \<le> n" using bits_bounds(2) \<open>n \<noteq> 0\<close> by simp
    finally have "2 ^ k \<le> n" .
    with less show False by simp
  qed
qed

lemma bits_mono: "m \<le> n \<Longrightarrow> bits m \<le> bits n"
  using bits_bounds(1) [of n] by (simp add: bits_le_iff)

lemma round_even_small: "n < 2 ^ p \<Longrightarrow> round_even p n = n"
  by (simp add: round_even_def bits_le_iff [symmetric])

text \<open>Rounding at the grid \<open>2 ^ e\<close>: between the two neighbours, and monotone.\<close>

definition round_at :: "nat \<Rightarrow> nat \<Rightarrow> nat" where
  "round_at e n = (let q = n div 2 ^ e; r = n mod 2 ^ e; half = 2 ^ (e - 1)
     in if e = 0 then n else (if r > half \<or> (r = half \<and> odd q) then q + 1 else q) * 2 ^ e)"

lemma round_even_at: "round_even p n = round_at (bits n - p) n"
  by (simp add: round_even_def round_at_def Let_def)

lemma round_at_multiple: "round_at e (q * 2 ^ e) = q * 2 ^ e"
  by (simp add: round_at_def Let_def)

lemma round_at_bounds:
  "n div 2 ^ e * 2 ^ e \<le> round_at e n" "round_at e n \<le> (n div 2 ^ e + 1) * 2 ^ e"
  by (simp_all add: round_at_def Let_def)

lemma round_at_mono:
  assumes "m \<le> n"
  shows "round_at e m \<le> round_at e n"
proof (cases "m div 2 ^ e = n div 2 ^ e")
  case True
  then have "m mod 2 ^ e \<le> n mod 2 ^ e"
    using assms by (metis add_le_cancel_left mult_div_mod_eq)
  then show ?thesis using True assms by (auto simp: round_at_def Let_def)
next
  case False
  then have "m div 2 ^ e + 1 \<le> n div 2 ^ e"
    using div_le_mono [OF assms, of "2 ^ e"] by simp
  then have "(m div 2 ^ e + 1) * 2 ^ e \<le> n div 2 ^ e * 2 ^ e" by (intro mult_right_mono) simp_all
  then show ?thesis
    using round_at_bounds(2) [where e = e and n = m] round_at_bounds(1) [where e = e and n = n] by linarith
qed

text \<open>A number below a power of two above the grid rounds to at most that power.\<close>

lemma round_at_le_pow2: "n \<le> 2 ^ k \<Longrightarrow> e \<le> k \<Longrightarrow> round_at e n \<le> 2 ^ k"
  using round_at_mono [of n "2 ^ k" e] round_at_multiple [of e "2 ^ (k - e)"]
  by (simp flip: power_add)

lemma round_at_ge_pow2: "2 ^ k \<le> n \<Longrightarrow> e \<le> k \<Longrightarrow> 2 ^ k \<le> round_at e n"
  using round_at_mono [of "2 ^ k" n e] round_at_multiple [of e "2 ^ (k - e)"]
  by (simp flip: power_add)

lemma round_even_mono:
  assumes "m \<le> n" and "0 < p"
  shows "round_even p m \<le> round_even p n"
proof (cases "bits m = bits n")
  case True
  then show ?thesis using round_at_mono [OF assms(1)] by (simp add: round_even_at)
next
  case False
  then have less: "bits m \<le> bits n - 1" "0 < n" using bits_mono [OF assms(1)] by (auto intro: Nat.gr0I)
  have "m \<le> 2 ^ bits m" using bits_bounds(1) [of m] by simp
  then have "round_even p m \<le> 2 ^ bits m"
    unfolding round_even_at by (rule round_at_le_pow2) simp
  also have "\<dots> \<le> 2 ^ (bits n - 1)" using less(1) by (intro power_increasing) simp_all
  also have "\<dots> \<le> round_even p n"
    unfolding round_even_at using bits_bounds(2) [OF less(2)] assms(2) by (intro round_at_ge_pow2) simp_all
  finally show ?thesis .
qed

text \<open>Numbers of at most \<open>p\<close> significant bits are exact.\<close>

lemma bits_mult_pow2: "0 < c \<Longrightarrow> bits (c * 2 ^ k) = bits c + k"
proof (induction k)
  case (Suc k)
  have "bits (c * 2 ^ Suc k) = Suc (bits (c * 2 ^ k))"
    using Suc.prems bits.simps [of "c * 2 ^ Suc k"] by (simp add: ac_simps)
  then show ?case using Suc by simp
qed simp

lemma round_even_exact:
  assumes "c < 2 ^ p"
  shows "round_even p (c * 2 ^ k) = c * 2 ^ k"
proof (cases "c = 0")
  case False
  let ?e = "bits (c * 2 ^ k) - p"
  have "?e \<le> k" using False assms by (simp add: bits_mult_pow2 bits_le_iff [symmetric])
  then have "c * 2 ^ k = c * 2 ^ (k - ?e) * 2 ^ ?e" by (simp add: mult.assoc flip: power_add)
  then show ?thesis unfolding round_even_at using round_at_multiple by metis
qed (simp add: round_even_def)

lemma round_even_pow2: "0 < p \<Longrightarrow> round_even p (2 ^ k) = 2 ^ k"
  using round_even_exact [of 1 p k] one_less_power [of "2 :: nat" p] by simp

text \<open>The rounding error is at most one part in \<open>2 ^ p\<close>.\<close>

lemma round_at_error:
  "round_at e n * 2 \<le> n * 2 + 2 ^ e" "n * 2 \<le> round_at e n * 2 + 2 ^ e"
proof -
  define q r h where "q = n div 2 ^ e" and "r = n mod 2 ^ e" and "h = (2 :: nat) ^ (e - 1)"
  have n: "q * 2 ^ e + r = n" unfolding q_def r_def by (rule div_mult_mod_eq)
  have "round_at e n * 2 \<le> n * 2 + 2 ^ e \<and> n * 2 \<le> round_at e n * 2 + 2 ^ e"
  proof (cases "e = 0")
    case False
    then have e: "2 ^ e = 2 * h" by (simp add: h_def flip: power_Suc)
    have "r < 2 * h" unfolding r_def using e by (metis mod_less_divisor zero_less_numeral zero_less_power)
    moreover have "round_at e n = (if r > h \<or> r = h \<and> odd q then q * 2 ^ e + 2 * h else q * 2 ^ e)"
      using False e by (simp add: round_at_def q_def r_def h_def Let_def)
    ultimately show ?thesis using n e by (auto split: if_splits)
  qed (simp add: round_at_def)
  then show "round_at e n * 2 \<le> n * 2 + 2 ^ e" "n * 2 \<le> round_at e n * 2 + 2 ^ e" by blast+
qed

lemma round_even_error:
  assumes "0 < p"
  shows "round_even p n * 2 ^ p \<le> n * 2 ^ p + n" and "n * 2 ^ p \<le> round_even p n * 2 ^ p + n"
proof -
  have "round_even p n * 2 ^ p \<le> n * 2 ^ p + n \<and> n * 2 ^ p \<le> round_even p n * 2 ^ p + n"
  proof (cases "bits n \<le> p")
    case True
    then show ?thesis by (simp add: round_even_small bits_le_iff)
  next
    case False
    then have "0 < n" by (auto intro: Nat.gr0I)
    have le: "2 ^ (bits n - p) * 2 ^ p \<le> 2 * n"
    proof -
      have "(2 :: nat) ^ (bits n - p) * 2 ^ p = 2 * 2 ^ (bits n - 1)"
        using False assms by (simp flip: power_add power_Suc)
      then show ?thesis using bits_bounds(2) [OF \<open>0 < n\<close>] by simp
    qed
    have "round_even p n * 2 * 2 ^ p \<le> (n * 2 + 2 ^ (bits n - p)) * 2 ^ p"
      "n * 2 * 2 ^ p \<le> (round_even p n * 2 + 2 ^ (bits n - p)) * 2 ^ p"
      unfolding round_even_at by (intro mult_right_mono round_at_error; simp)+
    with le show ?thesis by (simp add: algebra_simps)
  qed
  then show "round_even p n * 2 ^ p \<le> n * 2 ^ p + n" and "n * 2 ^ p \<le> round_even p n * 2 ^ p + n"
    by blast+
qed

subsection \<open>Finite doubles\<close>

text \<open>\<open>Dbl m e\<close> is the number \<open>m * 2 ^ e\<close>.  A product is rounded to 53 bits.\<close>

datatype dbl = Dbl int int

fun dbl_mul :: "dbl \<Rightarrow> dbl \<Rightarrow> dbl" where
  "dbl_mul (Dbl m e) (Dbl n f) = Dbl (sgn (m * n) * int (round_even 53 (nat \<bar>m * n\<bar>))) (e + f)"

text \<open>A sum is exact at the smaller of the two exponents before it is rounded.\<close>

fun dbl_add :: "dbl \<Rightarrow> dbl \<Rightarrow> dbl" where
  "dbl_add (Dbl m e) (Dbl n f) =
     (let k = min e f; s = m * 2 ^ nat (e - k) + n * 2 ^ nat (f - k)
      in Dbl (sgn s * int (round_even 53 (nat \<bar>s\<bar>))) k)"

text \<open>
  The double nearest to a quotient of natural numbers.  The quotient is taken to more than 55 bits
  with a sticky last bit, so one rounding to 53 bits is exact.
\<close>

definition nearest_dbl :: "nat \<Rightarrow> nat \<Rightarrow> dbl" where
  "nearest_dbl num den =
     (let k = bits den + 56; q = num * 2 ^ k div den; sticky = (if q * den = num * 2 ^ k then 0 else 1)
      in Dbl (int (round_even 53 (2 * q + sticky))) (- int (k + 1)))"

text \<open>Conversion to an integer drops the fraction.\<close>

fun dbl_trunc :: "dbl \<Rightarrow> int" where
  "dbl_trunc (Dbl m e) = (if 0 \<le> e then m * 2 ^ nat e else sgn m * (\<bar>m\<bar> div 2 ^ nat (- e)))"

end
