(* ===== verification/TickerServer.thy ===== *)
theory TickerServer
  imports Floats
begin

text \<open>
  \<^verbatim>\<open>HFT/TickerServer/ITCHTickerServer.cpp\<close> and \<^verbatim>\<open>HFT/ITCHMessages.hpp\<close>: the store of
  trades parsed from the lines of a file, the replies of the snapshot server to gap requests, its
  event loop over the descriptors of its clients, and the multicast of the whole store.  The
  results of the system calls are arguments; what is sent is a list of messages.  A
  \<open>send\<close> from a null pointer fails with \<open>EFAULT\<close> and transmits nothing, and the code ignores it.
\<close>

subsection \<open>Numbers and tokens\<close>

definition digit_of :: "char \<Rightarrow> nat option" where
  "digit_of c =
     (let n = of_char c :: nat in if 48 \<le> n \<and> n \<le> 57 then Some (n - 48) else None)"

text \<open>The digits a string starts with: their value after \<open>acc\<close>, how many, and what follows.\<close>

fun digits :: "nat \<Rightarrow> string \<Rightarrow> nat \<times> nat \<times> string" where
  "digits acc [] = (acc, 0, [])"
| "digits acc (c # cs) = (case digit_of c of
     None \<Rightarrow> (acc, 0, c # cs)
   | Some d \<Rightarrow> (let (v, n, rest) = digits (10 * acc + d) cs in (v, Suc n, rest)))"

definition is_space :: "char \<Rightarrow> bool" where
  "is_space c \<longleftrightarrow> c \<in> {CHR '' '', CHR 0x09, CHR 0x0A, CHR 0x0B, CHR 0x0C, CHR 0x0D}"

definition signed_part :: "string \<Rightarrow> bool \<times> string" where
  "signed_part s = (case dropWhile is_space s of
     [] \<Rightarrow> (False, [])
   | c # cs \<Rightarrow> if c = CHR ''-'' then (True, cs) else if c = CHR ''+'' then (False, cs) else (False, c # cs))"

text \<open>\<open>std::stoull\<close>: leading blanks, a sign (a minus negates modulo \<open>2 ^ 64\<close>), digits; the rest is ignored.\<close>

definition stoull :: "string \<Rightarrow> u64 res" where
  "stoull token =
     (let (neg, s) = signed_part token; (v, n, rest) = digits 0 s in
      if n = 0 \<or> 2 ^ 64 \<le> v then Inl (Throw ''stoull'')
      else Inr (if neg then - of_nat v else of_nat v))"

text \<open>
  \<open>std::stod\<close> on decimal literals: digits with an optional point and exponent, rounded to the
  nearest double (\<open>nearest_dbl\<close>); out-of-range values, hexadecimal, \<open>inf\<close> and \<open>nan\<close> are left out.
\<close>

definition exponent_part :: "string \<Rightarrow> int" where
  "exponent_part s = (case s of
     c # cs \<Rightarrow> (if c = CHR ''e'' \<or> c = CHR ''E''
       then (let (neg, t) = (case cs of
                 x # xs \<Rightarrow> if x = CHR ''-'' then (True, xs) else if x = CHR ''+'' then (False, xs) else (False, cs)
               | [] \<Rightarrow> (False, []));
               (v, n, rest) = digits 0 t
             in if neg then - int v else int v)
       else 0)
   | [] \<Rightarrow> 0)"

definition stod :: "string \<Rightarrow> dbl res" where
  "stod token =
     (let (neg, s) = signed_part token; (v, n, rest) = digits 0 s;
          (v', m, rest') = (case rest of
             c # cs \<Rightarrow> if c = CHR ''.'' then digits v cs else (v, 0, rest)
           | [] \<Rightarrow> (v, 0, []));
          e = exponent_part rest' - int m;
          r = (if 0 \<le> e then nearest_dbl (v' * 10 ^ nat e) 1 else nearest_dbl v' (10 ^ nat (- e)))
      in if n + m = 0 then Inl (Throw ''stod'')
         else Inr (case r of Dbl x k \<Rightarrow> Dbl (if neg then - x else x) k))"

text \<open>
  \<open>std::getline(ss, token, ',')\<close>.  The stream is the rest of the line, or \<open>None\<close> once it has hit
  the end; then the call fails before it clears the token, which keeps its old value.
\<close>

definition get_token :: "string option \<Rightarrow> string \<Rightarrow> string \<times> string option" where
  "get_token ss token = (case ss of
     None \<Rightarrow> (token, None)
   | Some s \<Rightarrow> (case dropWhile (\<lambda>c. c \<noteq> CHR '','') s of
       [] \<Rightarrow> (s, None)
     | _ # rest \<Rightarrow> (takeWhile (\<lambda>c. c \<noteq> CHR '','') s, Some rest)))"

subsection \<open>TradeMsgStore\<close>

record trade =
  message_type :: char
  sequence_number :: u64
  trade_id :: u64
  timestamp :: u64
  price :: dbl
  quantity :: dbl
  buyer_is_maker :: bool
  best_match :: bool

type_synonym store = "trade list"

definition parseTrade :: "string \<Rightarrow> store \<Rightarrow> store res" where
  "parseTrade line vec =
     (let (t0, s0) = get_token (Some line) [] in
      bind_res (stoull t0) (\<lambda>trade_id.
      let (t1, s1) = get_token s0 t0 in
      bind_res (stod t1) (\<lambda>price.
      let (t2, s2) = get_token s1 t1 in
      bind_res (stod t2) (\<lambda>quantity.
      let (t3, s3) = get_token s2 t2; (t4, s4) = get_token s3 t3 in
      bind_res (stoull t4) (\<lambda>timestamp.
      let (t5, s5) = get_token s4 t4; (t6, s6) = get_token s5 t5 in
      Inr (vec @ [\<lparr>message_type = CHR ''P'', sequence_number = of_nat (length vec), trade_id = trade_id,
        timestamp = timestamp, price = price, quantity = quantity,
        buyer_is_maker = (t5 = ''True''), best_match = (t6 = ''True'')\<rparr>]))))))"

fun parse_lines :: "string list \<Rightarrow> store \<Rightarrow> store res" where
  "parse_lines [] vec = Inr vec"
| "parse_lines (line # lines) vec = bind_res (parseTrade line vec) (parse_lines lines)"

text \<open>The file is the list of its lines, or \<open>None\<close> if it cannot be opened.\<close>

definition load_store :: "string list option \<Rightarrow> store res" where
  "load_store file = (case file of
     None \<Rightarrow> Inl (Throw ''Trade file open failed'')
   | Some lines \<Rightarrow> parse_lines lines [])"

definition store_get :: "store \<Rightarrow> u64 \<Rightarrow> trade option" where
  "store_get vec index = (if unat index \<ge> length vec then None else Some (vec ! unat index))"

subsection \<open>Replies of the snapshot server\<close>

record gap_request =
  req_type :: char
  start_seq :: u64
  end_seq :: u64

text \<open>An \<open>int\<close> made from a 64-bit word, and an \<open>int\<close> as a 64-bit word.\<close>

definition int_of_u64 :: "u64 \<Rightarrow> int" where
  "int_of_u64 w = sint (ucast w :: u32)"

definition u64_of_int :: "int \<Rightarrow> u64" where
  "u64_of_int i = word_of_int i"

definition send_trade :: "trade option \<Rightarrow> trade list" where
  "send_trade msg = (case msg of None \<Rightarrow> [] | Some m \<Rightarrow> [m])"

function gap_loop :: "store \<Rightarrow> u64 \<Rightarrow> int \<Rightarrow> trade list res" where
  "gap_loop vec seq_end i =
     (if u64_of_int i \<le> seq_end
      then (if i < int_max
            then bind_res (gap_loop vec seq_end (i + 1))
                   (\<lambda>rest. Inr (send_trade (store_get vec (u64_of_int i)) @ rest))
            else Inl (UB SignedOverflow))
      else Inr [])"
  by auto
termination by (relation "measure (\<lambda>(vec, e, i). nat (int_max - i))") auto

declare gap_loop.simps [simp del]

text \<open>The validity test only prints; the loop runs either way.\<close>

definition serveGapRequest :: "store \<Rightarrow> gap_request \<Rightarrow> trade list res" where
  "serveGapRequest vec msg = gap_loop vec (end_seq msg) (int_of_u64 (start_seq msg))"

function replay_loop :: "store \<Rightarrow> int \<Rightarrow> trade list res" where
  "replay_loop vec i =
     (if u64_of_int i < of_nat (length vec)
      then (if i < int_max
            then bind_res (replay_loop vec (i + 1))
                   (\<lambda>rest. Inr (send_trade (store_get vec (u64_of_int i)) @ rest))
            else Inl (UB SignedOverflow))
      else Inr [])"
  by auto
termination by (relation "measure (\<lambda>(vec, i). nat (int_max - i))") auto

declare replay_loop.simps [simp del]

definition replayAll :: "store \<Rightarrow> trade list res" where
  "replayAll vec = replay_loop vec 0"

text \<open>The multicast; \<open>gaps\<close> is \<open>createMulticastGap\<close>, which leaves out two messages in every thousand.\<close>

function multicast_loop :: "bool \<Rightarrow> store \<Rightarrow> int \<Rightarrow> trade list res" where
  "multicast_loop gaps vec i =
     (if u64_of_int i < of_nat (length vec)
      then (if i < int_max \<and> (gaps \<longrightarrow> i + 2 \<le> int_max)
            then bind_res (multicast_loop gaps vec (i + 1))
                   (\<lambda>rest. Inr ((if gaps \<and> ((i + 1) mod 1000 = 0 \<or> (i + 2) mod 1000 = 0) then []
                                 else send_trade (store_get vec (u64_of_int i))) @ rest))
            else Inl (UB SignedOverflow))
      else Inr [])"
  by auto
termination by (relation "measure (\<lambda>(g, vec, i). nat (int_max - i))") auto

declare multicast_loop.simps [simp del]

subsection \<open>Requests on the wire\<close>

text \<open>
  \<open>ITCHGapRequestMsg\<close> is packed: one byte and two little-endian 64-bit words, 17 bytes.
\<close>

fun bytes_of :: "nat \<Rightarrow> u64 \<Rightarrow> 8 word list" where
  "bytes_of 0 w = []"
| "bytes_of (Suc n) w = ucast w # bytes_of n (drop_bit 8 w)"

fun word_of_bytes :: "8 word list \<Rightarrow> u64" where
  "word_of_bytes [] = 0"
| "word_of_bytes (b # bs) = ucast b OR push_bit 8 (word_of_bytes bs)"

definition encode_request :: "gap_request \<Rightarrow> 8 word list" where
  "encode_request r = of_nat (of_char (req_type r)) # bytes_of 8 (start_seq r) @ bytes_of 8 (end_seq r)"

definition decode_request :: "8 word list \<Rightarrow> gap_request" where
  "decode_request bs = \<lparr>req_type = char_of (unat (hd bs)), start_seq = word_of_bytes (take 8 (drop 1 bs)),
     end_seq = word_of_bytes (take 8 (drop 9 bs))\<rparr>"

text \<open>What one \<open>read\<close> from a client leads to; no bytes at all is end of file or an error.\<close>

datatype reply = Disconnect | Unknown_message | Unknown_request | Sends "trade list"

definition handle_read :: "store \<Rightarrow> 8 word list \<Rightarrow> reply res" where
  "handle_read vec bs =
     (if bs = [] then Inr Disconnect
      else if length bs \<noteq> 17 then Inr Unknown_message
      else let msg = decode_request bs in
        if req_type msg = CHR ''0'' then bind_res (serveGapRequest vec msg) (\<lambda>ms. Inr (Sends ms))
        else if req_type msg = CHR ''1'' then bind_res (replayAll vec) (\<lambda>ms. Inr (Sends ms))
        else Inr Unknown_request)"

text \<open>
  The event loop: the descriptors registered with epoll, the open ones, and the messages sent on
  each.  An event is a new connection, with the descriptor \<open>accept\<close> returned (negative on failure)
  and whether \<open>epoll_ctl\<close> took it, or a readable client with the bytes it sent.
\<close>

datatype server_event = Connection int bool | Readable int "8 word list"

record server =
  registered :: "int list"
  open_fds :: "int list"
  sent_on :: "int \<Rightarrow> trade list"

definition server_step :: "store \<Rightarrow> server_event \<Rightarrow> server \<Rightarrow> server res" where
  "server_step vec ev s = (case ev of
     Connection fd ok \<Rightarrow> Inr
       (if fd < 0 then s
        else if ok then s\<lparr>registered := registered s @ [fd], open_fds := open_fds s @ [fd], sent_on := (sent_on s)(fd := [])\<rparr>
        else s)
   | Readable fd bs \<Rightarrow> bind_res (handle_read vec bs) (\<lambda>r. Inr (case r of
       Disconnect \<Rightarrow> s\<lparr>registered := removeAll fd (registered s), open_fds := removeAll fd (open_fds s)\<rparr>
     | Sends ms \<Rightarrow> s\<lparr>sent_on := (sent_on s)(fd := sent_on s fd @ ms)\<rparr>
     | _ \<Rightarrow> s)))"

fun server_run :: "store \<Rightarrow> server_event list \<Rightarrow> server \<Rightarrow> server res" where
  "server_run vec [] s = Inr s"
| "server_run vec (ev # evs) s = bind_res (server_step vec ev s) (server_run vec evs)"

text \<open>
  Setting a server up: the results of its system calls, in order.  The first that fails decides
  the exception; \<open>inet_pton\<close>'s result is not looked at.
\<close>

record setup_calls =
  socket_rc :: int
  setsockopt_rc :: int
  bind_rc :: int
  listen_rc :: int
  epoll_create_rc :: int
  epoll_ctl_rc :: int

definition createSnapshotServer :: "setup_calls \<Rightarrow> (int \<times> int) res" where
  "createSnapshotServer r =
     (if socket_rc r < 0 then Inl (Throw ''Failed to create SnapshotServer socket'')
      else if setsockopt_rc r < 0 then Inl (Throw ''setsockopt SnapshotServer failed'')
      else if bind_rc r < 0 then Inl (Throw ''bind SnapshotServer failed'')
      else if listen_rc r < 0 then Inl (Throw ''listen SnapshotServer failed'')
      else if epoll_create_rc r < 0 then Inl (Throw ''epoll_create1 SnapshotServer failed'')
      else if epoll_ctl_rc r < 0 then Inl (Throw ''epoll_ctl SnapshotServer failed'')
      else Inr (socket_rc r, epoll_create_rc r))"

definition createMulticastServer :: "int \<Rightarrow> int res" where
  "createMulticastServer rc =
     (if rc < 0 then Inl (Throw ''Failed to create MulticastServer socket'') else Inr rc)"

definition multicast_run :: "bool \<Rightarrow> int \<Rightarrow> store \<Rightarrow> trade list res" where
  "multicast_run gaps rc vec = bind_res (createMulticastServer rc) (\<lambda>_. multicast_loop gaps vec 0)"

text \<open>\<open>TickerServer::run\<close> starts the snapshot server's thread, if it is wanted, and the multicast's.\<close>

datatype server_thread = Snapshot_thread | Multicast_thread

definition ticker_run :: "bool \<Rightarrow> server_thread list" where
  "ticker_run needSnapshotServer = (if needSnapshotServer then [Snapshot_thread] else []) @ [Multicast_thread]"

subsection \<open>What the loops send\<close>

lemma u64_of_int_nat: "n < 2 ^ 64 \<Longrightarrow> unat (u64_of_int (int n)) = n"
proof -
  assume "n < 2 ^ 64"
  then have "take_bit 64 n = n" by (intro take_bit_nat_eq_self)
  moreover have "unat (of_nat n :: u64) = take_bit 64 n" by (simp add: unsigned_of_nat)
  ultimately show ?thesis by (simp add: u64_of_int_def)
qed

lemma int_of_u64_small: "unat w < 2 ^ 31 \<Longrightarrow> int_of_u64 w = int (unat w)"
proof -
  assume w: "unat w < 2 ^ 31"
  then have "unat (ucast w :: u32) = unat w"
    by (simp add: unsigned_ucast_eq take_bit_nat_eq_self)
  then have u: "uint (ucast w :: u32) = int (unat w)" by (metis uint_nat)
  have "int (unat w) < int (2 ^ 31)" using w by (simp only: of_nat_less_iff)
  then have "signed_take_bit 31 (uint (ucast w :: u32)) = uint (ucast w :: u32)"
    unfolding u of_nat_power of_nat_numeral
    by (intro signed_take_bit_int_eq_self order_trans [of "- (2 ^ 31)" 0 "int (unat w)"]) simp_all
  moreover have "sint (ucast w :: u32) = signed_take_bit 31 (uint (ucast w :: u32))"
    by (simp only: sint_uint) simp
  ultimately show ?thesis using u by (simp add: int_of_u64_def)
qed

lemma store_get_in: "k < length vec \<Longrightarrow> k < 2 ^ 64 \<Longrightarrow> store_get vec (u64_of_int (int k)) = Some (vec ! k)"
  by (simp add: store_get_def u64_of_int_nat)

lemma store_get_out: "length vec \<le> k \<Longrightarrow> k < 2 ^ 64 \<Longrightarrow> store_get vec (u64_of_int (int k)) = None"
  by (simp add: store_get_def u64_of_int_nat)

text \<open>The messages of a range of indexes that are in the store.\<close>

definition stored :: "store \<Rightarrow> nat \<Rightarrow> nat \<Rightarrow> trade list" where
  "stored vec i n = concat (map (\<lambda>k. send_trade (store_get vec (u64_of_int (int k)))) [i..<i + n])"

lemma stored_Suc: "stored vec i (Suc n) = send_trade (store_get vec (u64_of_int (int i))) @ stored vec (Suc i) n"
proof -
  have "[i..<i + Suc n] = i # [Suc i..<Suc i + n]" by (simp add: upt_conv_Cons del: upt_Suc)
  then show ?thesis by (simp add: stored_def del: upt_Suc)
qed

lemma stored_inside:
  assumes "i + n \<le> length vec" and "i + n \<le> 2 ^ 64"
  shows "stored vec i n = take n (drop i vec)"
  using assms
proof (induction n arbitrary: i)
  case 0
  then show ?case by (simp add: stored_def)
next
  case (Suc n)
  then have "stored vec i (Suc n) = vec ! i # take n (drop (Suc i) vec)"
    by (simp add: stored_Suc store_get_in send_trade_def)
  also have "\<dots> = take (Suc n) (drop i vec)"
    using Suc.prems by (simp add: Cons_nth_drop_Suc [symmetric])
  finally show ?case .
qed

lemma gap_loop_stored:
  assumes "unat e < 2 ^ 31 - 1" and "i \<le> Suc (unat e)"
  shows "gap_loop vec e (int i) = Inr (stored vec i (Suc (unat e) - i))"
  using assms
proof (induction "Suc (unat e) - i" arbitrary: i)
  case 0
  then have "i = Suc (unat e)" by simp
  moreover from this have "unat (u64_of_int (int i)) = i" using assms(1) by (intro u64_of_int_nat) simp
  ultimately show ?case
    by (subst gap_loop.simps) (simp add: word_le_nat_alt stored_def)
next
  case (Suc n)
  then have i: "i \<le> unat e" "n = Suc (unat e) - Suc i" by simp_all
  then have "unat (u64_of_int (int i)) = i" using assms(1) by (intro u64_of_int_nat) simp
  moreover have "int i < int_max" using i assms(1) by (simp add: int_max_def)
  moreover have "gap_loop vec e (int i + 1) = Inr (stored vec (Suc i) n)"
    using Suc.hyps(1) [of "Suc i"] i assms(1) by (simp add: add.commute)
  moreover have "stored vec i (Suc (unat e) - i) = send_trade (store_get vec (u64_of_int (int i))) @ stored vec (Suc i) n"
    unfolding Suc.hyps(2) [symmetric] by (rule stored_Suc)
  ultimately show ?case
    using i by (subst gap_loop.simps) (simp add: word_le_nat_alt)
qed

lemma gap_loop_overflows:
  assumes "2 ^ 31 - 1 \<le> unat e" and "i < 2 ^ 31"
  shows "gap_loop vec e (int i) = Inl (UB SignedOverflow)"
  using assms(2)
proof (induction "2 ^ 31 - i" arbitrary: i rule: less_induct)
  case less
  have "unat (u64_of_int (int i)) = i" using less.prems by (intro u64_of_int_nat) simp
  then have le: "u64_of_int (int i) \<le> e" using assms(1) less.prems by (simp add: word_le_nat_alt)
  show ?case
  proof (cases "int i < int_max")
    case True
    then have "gap_loop vec e (int i + 1) = Inl (UB SignedOverflow)"
      using less.hyps [of "Suc i"] less.prems by (simp add: int_max_def add.commute)
    with le show ?thesis by (subst gap_loop.simps) simp
  next
    case False
    with le show ?thesis by (subst gap_loop.simps) simp
  qed
qed

lemma replay_loop_all:
  assumes "length vec < 2 ^ 31" and "i \<le> length vec"
  shows "replay_loop vec (int i) = Inr (drop i vec)"
  using assms(2)
proof (induction "length vec - i" arbitrary: i)
  case 0
  then have "i = length vec" by simp
  moreover have "unat (u64_of_int (int i)) = i" using assms 0 by (intro u64_of_int_nat) simp
  moreover have "unat (of_nat (length vec) :: u64) = length vec"
    using u64_of_int_nat [of "length vec"] assms(1) by (simp add: u64_of_int_def)
  ultimately show ?case by (subst replay_loop.simps) (simp add: word_less_nat_alt)
next
  case (Suc n)
  then have i: "i < length vec" "n = length vec - Suc i" by simp_all
  have "unat (u64_of_int (int i)) = i" using assms(1) i by (intro u64_of_int_nat) simp
  moreover have "unat (of_nat (length vec) :: u64) = length vec"
    using u64_of_int_nat [of "length vec"] assms(1) by (simp add: u64_of_int_def)
  moreover have "int i < int_max" using i assms(1) by (simp add: int_max_def)
  moreover have "replay_loop vec (int i + 1) = Inr (drop (Suc i) vec)"
    using Suc.hyps(1) [of "Suc i"] i by (simp add: add.commute)
  moreover have "send_trade (store_get vec (u64_of_int (int i))) @ drop (Suc i) vec = drop i vec"
    using i assms(1) by (simp add: store_get_in send_trade_def Cons_nth_drop_Suc)
  ultimately show ?case
    using i by (subst replay_loop.simps) (simp add: word_less_nat_alt)
qed

subsection \<open>The wire format\<close>

lemma length_bytes_of [simp]: "length (bytes_of n w) = n"
  by (induction n arbitrary: w) simp_all

lemma word_of_bytes_bytes_of: "word_of_bytes (bytes_of n w) = take_bit (8 * n) w"
proof (induction n arbitrary: w)
  case 0
  then show ?case by simp
next
  case (Suc n)
  show ?case
    by (simp add: Suc.IH) (auto intro!: bit_word_eqI simp: bit_simps)
qed

lemma decode_encode: "decode_request (encode_request r) = r"
proof -
  have "word_of_bytes (bytes_of 8 w) = w" for w
    using word_of_bytes_bytes_of [of 8 w] by (simp add: take_bit_word_eq_self)
  moreover have "char_of (unat (of_nat (of_char c) :: 8 word)) = c" for c
  proof -
    have "(of_char c :: nat) < 256" by simp
    then have "take_bit 8 (of_char c :: nat) = of_char c" by (intro take_bit_nat_eq_self) simp
    then show ?thesis by (simp add: unsigned_of_nat)
  qed
  ultimately show ?thesis
    by (simp add: decode_request_def encode_request_def)
qed

lemma length_encode [simp]: "length (encode_request r) = 17"
  by (simp add: encode_request_def)

subsection \<open>The store\<close>

lemma parseTrade_shape:
  assumes "parseTrade line vec = Inr vec'"
  shows "\<exists>m. vec' = vec @ [m] \<and> message_type m = CHR ''P'' \<and> sequence_number m = of_nat (length vec)"
  using assms by (auto simp: parseTrade_def Let_def split: prod.splits)

lemma parse_lines_shape:
  assumes "parse_lines lines vec = Inr vec'"
  shows "\<exists>ms. vec' = vec @ ms \<and> length ms = length lines \<and>
    (\<forall>k<length ms. message_type (ms ! k) = CHR ''P'' \<and> sequence_number (ms ! k) = of_nat (length vec + k))"
  using assms
proof (induction lines arbitrary: vec)
  case Nil
  then show ?case by simp
next
  case (Cons line lines)
  then obtain vec1 where "parseTrade line vec = Inr vec1" and rest: "parse_lines lines vec1 = Inr vec'" by auto
  then obtain m where m: "vec1 = vec @ [m]" "message_type m = CHR ''P''" "sequence_number m = of_nat (length vec)"
    using parseTrade_shape by blast
  obtain ms where ms: "vec' = vec1 @ ms" "length ms = length lines"
      "\<forall>k<length ms. message_type (ms ! k) = CHR ''P'' \<and> sequence_number (ms ! k) = of_nat (length vec1 + k)"
    using Cons.IH [OF rest] by blast
  then have "message_type ((m # ms) ! k) = CHR ''P'' \<and> sequence_number ((m # ms) ! k) = of_nat (length vec + k)"
    if "k < length (m # ms)" for k
    using that m by (cases k) (auto simp: add.commute add.left_commute)
  then show ?case using ms m by (intro exI [of _ "m # ms"]) auto
qed

text \<open>The tokens of a line: comma-free fields joined by commas.\<close>

lemma get_token_field:
  assumes "CHR '','' \<notin> set f"
  shows "get_token (Some (f @ CHR '','' # rest)) tok = (f, Some rest)"
    and "get_token (Some f) tok = (f, None)"
proof -
  have "takeWhile (\<lambda>c. c \<noteq> CHR '','') (f @ CHR '','' # rest) = f"
    and "dropWhile (\<lambda>c. c \<noteq> CHR '','') (f @ CHR '','' # rest) = CHR '','' # rest"
    using assms by (induction f) auto
  then show "get_token (Some (f @ CHR '','' # rest)) tok = (f, Some rest)" by (simp add: get_token_def)
  have none: "dropWhile (\<lambda>c. c \<noteq> CHR '','') f = []" using assms by (induction f) auto
  show "get_token (Some f) tok = (f, None)" unfolding get_token_def option.case none list.case ..
qed

lemma parseTrade_fields:
  assumes "\<And>f. f \<in> {f0, f1, f2, f3, f4, f5, f6} \<Longrightarrow> CHR '','' \<notin> set f"
    and "stoull f0 = Inr tid" and "stod f1 = Inr p" and "stod f2 = Inr q" and "stoull f4 = Inr ts"
  shows "parseTrade (f0 @ CHR '','' # f1 @ CHR '','' # f2 @ CHR '','' # f3 @ CHR '','' # f4 @ CHR '','' # f5 @
      CHR '','' # f6) vec =
    Inr (vec @ [\<lparr>message_type = CHR ''P'', sequence_number = of_nat (length vec), trade_id = tid,
      timestamp = ts, price = p, quantity = q, buyer_is_maker = (f5 = ''True''), best_match = (f6 = ''True'')\<rparr>])"
  using assms by (simp add: parseTrade_def get_token_field Let_def)

lemma load_store_numbers:
  assumes "load_store (Some file_lines) = Inr vec"
  shows "length vec = length file_lines \<and>
    (\<forall>k<length vec. message_type (vec ! k) = CHR ''P'' \<and> sequence_number (vec ! k) = of_nat k \<and>
      (k < 2 ^ 64 \<longrightarrow> store_get vec (of_nat k) = Some (vec ! k)))"
proof -
  from parse_lines_shape [of file_lines "[]" vec] assms have len: "length vec = length file_lines"
    and all: "\<forall>k<length vec. message_type (vec ! k) = CHR ''P'' \<and> sequence_number (vec ! k) = of_nat k"
    by (auto simp: load_store_def)
  have "store_get vec (of_nat k) = Some (vec ! k)" if "k < length vec" "k < 2 ^ 64" for k
    using store_get_in [OF that] by (simp add: u64_of_int_def)
  with len all show ?thesis by blast
qed

text \<open>
  Claim C27.  Loading a file either fails or stores one message of type \<open>'P'\<close> per line, and the
  sequence number of each message is its index, which is what a gap request is answered by.
\<close>

theorem load_store_sequence:
  assumes "load_store (Some file_lines) = Inr vec"
  shows "length vec = length file_lines \<and>
    (\<forall>k<length vec. message_type (vec ! k) = CHR ''P'' \<and> sequence_number (vec ! k) = of_nat k \<and>
      (k < 2 ^ 64 \<longrightarrow> store_get vec (of_nat k) = Some (vec ! k)))"
  using load_store_numbers [OF assms] .

lemma load_store_sequence_witness:
  "\<exists>vec. load_store (Some [''17,2.5,1,2.5,99,True,False'', ''18,3,4,12,100,False,True'']) = Inr vec \<and> length vec = 2"
proof -
  have "\<exists>vec. load_store (Some [''17,2.5,1,2.5,99,True,False'', ''18,3,4,12,100,False,True'']) = Inr vec"
    by (simp add: load_store_def parseTrade_def get_token_def stoull_def stod_def signed_part_def is_space_def
      digit_of_def exponent_part_def Let_def cong: bind_res_weak_cong)
  then obtain vec where "load_store (Some [''17,2.5,1,2.5,99,True,False'', ''18,3,4,12,100,False,True'']) = Inr vec" ..
  from this load_store_sequence [OF this] show ?thesis by auto
qed

lemma gap_reply:
  assumes "req_type r = CHR ''0''" and "unat (start_seq r) \<le> unat (end_seq r)"
    and "unat (end_seq r) < length vec" and "length vec < 2 ^ 31"
  shows "handle_read vec (encode_request r) =
      Inr (Sends (take (Suc (unat (end_seq r)) - unat (start_seq r)) (drop (unat (start_seq r)) vec))) \<and>
    handle_read vec (encode_request (r\<lparr>req_type := CHR ''1''\<rparr>)) = Inr (Sends vec)"
proof -
  let ?s = "unat (start_seq r)" and ?e = "unat (end_seq r)"
  have "int_of_u64 (start_seq r) = int ?s" using assms by (intro int_of_u64_small) simp
  moreover have "gap_loop vec (end_seq r) (int ?s) = Inr (stored vec ?s (Suc ?e - ?s))"
    using assms by (intro gap_loop_stored) auto
  moreover have "stored vec ?s (Suc ?e - ?s) = take (Suc ?e - ?s) (drop ?s vec)"
    using assms by (intro stored_inside) auto
  ultimately have "serveGapRequest vec r = Inr (take (Suc ?e - ?s) (drop ?s vec))"
    by (simp add: serveGapRequest_def)
  moreover have "replayAll vec = Inr vec"
    using replay_loop_all [of vec 0] assms by (simp add: replayAll_def)
  ultimately show ?thesis
    using assms(1) by (auto simp: handle_read_def decode_encode Let_def dest: arg_cong [of _ _ length])
qed

text \<open>
  Claim C28.  A valid gap request, as the bytes its sender writes, is answered by exactly the
  requested messages, in order; a replay request is answered by the whole store.
\<close>

theorem gap_request_answered:
  assumes "req_type r = CHR ''0''" and "unat (start_seq r) \<le> unat (end_seq r)"
    and "unat (end_seq r) < length vec" and "length vec < 2 ^ 31"
  shows "handle_read vec (encode_request r) =
      Inr (Sends (take (Suc (unat (end_seq r)) - unat (start_seq r)) (drop (unat (start_seq r)) vec))) \<and>
    handle_read vec (encode_request (r\<lparr>req_type := CHR ''1''\<rparr>)) = Inr (Sends vec)"
  using gap_reply [OF assms] .

lemma gap_request_answered_witness:
  "\<exists>m. handle_read [m] (encode_request \<lparr>req_type = CHR ''0'', start_seq = 0, end_seq = 0\<rparr>) = Inr (Sends [m])"
  using gap_request_answered [of "\<lparr>req_type = CHR ''0'', start_seq = 0, end_seq = 0\<rparr>" "[m]" for m] by auto

text \<open>
  Claim C29.  The check of a gap request only prints: a request whose end is at or past
  \<open>2 ^ 31 - 1\<close> is served all the same, and its loop over an \<open>int\<close> overflows whatever the
  store holds.
\<close>

theorem gap_request_overflows:
  assumes "req_type r = CHR ''0''" and "unat (start_seq r) < 2 ^ 31" and "2 ^ 31 - 1 \<le> unat (end_seq r)"
  shows "handle_read vec (encode_request r) = Inl (UB SignedOverflow)"
proof -
  have "int_of_u64 (start_seq r) = int (unat (start_seq r))" using assms(2) by (rule int_of_u64_small)
  then have "serveGapRequest vec r = Inl (UB SignedOverflow)"
    using gap_loop_overflows [OF assms(3,2)] by (simp add: serveGapRequest_def)
  then show ?thesis
    using assms(1) by (auto simp: handle_read_def decode_encode Let_def dest: arg_cong [of _ _ length])
qed

lemma gap_request_overflows_witness:
  "handle_read [] (encode_request \<lparr>req_type = CHR ''0'', start_seq = 0, end_seq = 0xFFFFFFFF\<rparr>) = Inl (UB SignedOverflow)"
  by (rule gap_request_overflows) simp_all

end
