(* ===== verification/TradeReceiver.thy ===== *)
theory TradeReceiver
  imports TickerServer SpscQueue
begin

text \<open>
  \<^verbatim>\<open>HFT/TickerServer/ITCHTradeReceiver.cpp\<close>: the receiver of the multicast, the sequencer that
  puts its messages in order and asks the snapshot server for those that are missing, and the
  recovery connection.  Queues are given by their \<open>enqueue\<close> function; the network is what
  \<open>epoll_wait\<close> and \<open>recv\<close> report, one event after the other, and a list of events that runs
  out is a peer that stays silent, on which the code waits for ever.
\<close>

subsection \<open>Recovery\<close>

datatype recv_event = Timeout | Epoll_error | Received trade | Partial_message | Closed

text \<open>
  The sequencer: the next sequence number, the queue it sends to, the messages it gave back to the
  pool and those whose \<open>enqueue\<close> failed, which nobody owns any more.
\<close>

record 'q sequencer =
  nextSequence :: u64
  sendQueue :: 'q
  recycled :: "trade list"
  leaked :: "trade list"

definition send_on :: "(trade \<Rightarrow> 'q \<Rightarrow> bool \<times> 'q) \<Rightarrow> trade \<Rightarrow> 'q sequencer \<Rightarrow> 'q sequencer" where
  "send_on enq msg s =
     (let (ok, q) = enq msg (sendQueue s) in
      s\<lparr>sendQueue := q, leaked := (if ok then leaked s else leaked s @ [msg]), nextSequence := nextSequence s + 1\<rparr>)"

definition onRecoveredMsg :: "(trade \<Rightarrow> 'q \<Rightarrow> bool \<times> 'q) \<Rightarrow> trade \<Rightarrow> 'q sequencer \<Rightarrow> 'q sequencer res" where
  "onRecoveredMsg enq msg s =
     (if sequence_number msg \<noteq> nextSequence s then Inl (Throw ''Failed to recover message'')
      else Inr (send_on enq msg s))"

fun receiveRecoveryMessages :: "(trade \<Rightarrow> 'q \<Rightarrow> bool \<times> 'q) \<Rightarrow> u64 \<Rightarrow> u64 \<Rightarrow> recv_event list
    \<Rightarrow> 'q sequencer \<Rightarrow> 'q sequencer res" where
  "receiveRecoveryMessages enq messagesReceived numMessages [] s =
     (if messagesReceived < numMessages then Inl Diverges else Inr s)"
| "receiveRecoveryMessages enq messagesReceived numMessages (ev # evs) s =
     (if messagesReceived < numMessages
      then (case ev of
          Timeout \<Rightarrow> receiveRecoveryMessages enq messagesReceived numMessages evs s
        | Epoll_error \<Rightarrow> Inr s
        | Partial_message \<Rightarrow> receiveRecoveryMessages enq messagesReceived numMessages evs s
        | Closed \<Rightarrow> Inr s
        | Received msg \<Rightarrow> bind_res (onRecoveredMsg enq msg s)
            (receiveRecoveryMessages enq (messagesReceived + 1) numMessages evs))
      else Inr s)"

text \<open>
  The peer maps a request to the events that follow it, or to \<open>None\<close> when \<open>send\<close> does not take
  the whole request.
\<close>

type_synonym peer = "gap_request \<Rightarrow> recv_event list option"

definition recover :: "(trade \<Rightarrow> 'q \<Rightarrow> bool \<times> 'q) \<Rightarrow> peer \<Rightarrow> u64 \<Rightarrow> u64 \<Rightarrow> 'q sequencer \<Rightarrow> 'q sequencer res" where
  "recover enq server startSeq endSeq s =
     (case server \<lparr>req_type = CHR ''0'', start_seq = startSeq, end_seq = endSeq\<rparr> of
        None \<Rightarrow> Inl (Throw ''Failed to send full recovery request at sendRecoveryRequest'')
      | Some evs \<Rightarrow> receiveRecoveryMessages enq 0 (endSeq - startSeq + 1) evs s)"

text \<open>Connecting: the socket, the option, the address, then up to \<open>attempts\<close> tries.\<close>

definition recovery_connect :: "nat \<Rightarrow> int \<Rightarrow> int \<Rightarrow> int \<Rightarrow> int list \<Rightarrow> int res" where
  "recovery_connect attempts socket_fd option_rc pton_rc connect_rcs =
     (if socket_fd < 0 then Inl (Throw ''Failed to create TradeRecoveryManager socket'')
      else if option_rc < 0 then Inl (Throw ''Failed to set TCP_NODELAY'')
      else if pton_rc < 0 then Inl (Throw ''Failed to create inet_pton at TradeRecoveryManager'')
      else let tries = take attempts connect_rcs; failed = takeWhile (\<lambda>rc. rc \<noteq> 0) tries in
        if length failed = length tries \<and> (if failed = [] then - 1 else last failed) < 0
        then Inl (Throw ''Failed to connect at TradeRecoveryManager'') else Inr socket_fd)"

subsection \<open>The sequencer\<close>

definition sequencer_step :: "(trade \<Rightarrow> 'q \<Rightarrow> bool \<times> 'q) \<Rightarrow> peer \<Rightarrow> trade \<Rightarrow> 'q sequencer \<Rightarrow> 'q sequencer res" where
  "sequencer_step enq server msg s =
     (if sequence_number msg > nextSequence s
      then bind_res (recover enq server (nextSequence s) (sequence_number msg - 1) s)
             (\<lambda>s'. Inr (send_on enq msg s'))
      else if sequence_number msg < nextSequence s then Inr (s\<lparr>recycled := recycled s @ [msg]\<rparr>)
      else Inr (send_on enq msg s))"

fun sequencer_run :: "(trade \<Rightarrow> 'q \<Rightarrow> bool \<times> 'q) \<Rightarrow> peer \<Rightarrow> trade option list \<Rightarrow> 'q sequencer \<Rightarrow> 'q sequencer res" where
  "sequencer_run enq server [] s = Inr s"
| "sequencer_run enq server (None # ms) s = sequencer_run enq server ms s"
| "sequencer_run enq server (Some msg # ms) s =
     bind_res (sequencer_step enq server msg s) (sequencer_run enq server ms)"

definition sequencer_new :: "'q \<Rightarrow> 'q sequencer" where
  "sequencer_new q = \<lparr>nextSequence = 0, sendQueue = q, recycled = [], leaked = []\<rparr>"

definition setSequenceNum :: "u64 \<Rightarrow> 'q sequencer \<Rightarrow> 'q sequencer" where
  "setSequenceNum sequence s = s\<lparr>nextSequence := sequence + 1\<rparr>"

definition getSequenceNum :: "'q sequencer \<Rightarrow> u64" where
  "getSequenceNum s = nextSequence s - 1"

lemma get_set_sequence [simp]: "getSequenceNum (setSequenceNum n s) = n"
  by (simp add: getSequenceNum_def setSequenceNum_def)

subsection \<open>The multicast receiver\<close>

text \<open>
  One turn of \<open>MulticastTradeDataReceiver::run\<close>: whether the pool had a message, then what
  \<open>recv\<close> did.  An \<open>enqueue\<close> that fails is not looked at, and its message is lost to the pool.
\<close>

datatype mc_event = No_message | Recv_failed | Datagram trade

record 'q mc_receiver =
  mc_queue :: 'q
  mc_out :: nat
  mc_leaked :: "trade list"

definition mc_step :: "(trade \<Rightarrow> 'q \<Rightarrow> bool \<times> 'q) \<Rightarrow> mc_event \<Rightarrow> 'q mc_receiver \<Rightarrow> 'q mc_receiver res" where
  "mc_step enq ev r = (case ev of
     No_message \<Rightarrow> Inl (Throw ''Msg Pool exhausted at MulticastTradeDataReceiver'')
   | Recv_failed \<Rightarrow> Inr r
   | Datagram m \<Rightarrow> (let (ok, q) = enq m (mc_queue r) in
       Inr (r\<lparr>mc_queue := q, mc_out := Suc (mc_out r), mc_leaked := (if ok then mc_leaked r else mc_leaked r @ [m])\<rparr>)))"

fun mc_run :: "(trade \<Rightarrow> 'q \<Rightarrow> bool \<times> 'q) \<Rightarrow> mc_event list \<Rightarrow> 'q mc_receiver \<Rightarrow> 'q mc_receiver res" where
  "mc_run enq [] r = Inr r"
| "mc_run enq (ev # evs) r = bind_res (mc_step enq ev r) (mc_run enq evs)"

definition mc_connect :: "int \<Rightarrow> int \<Rightarrow> int \<Rightarrow> int \<Rightarrow> int \<Rightarrow> int res" where
  "mc_connect fd reuse_rc bind_result pton_rc membership_rc =
     (if fd < 0 then Inl (Throw ''Failed to create MulticastTradeDataReceiver socket'')
      else if reuse_rc < 0 then Inl (Throw ''Failed to SO_REUSEADDR at MulticastTradeDataReceiver'')
      else if bind_result < 0 then Inl (Throw ''Failed to bind at MulticastTradeDataReceiver'')
      else if pton_rc < 0 then Inl (Throw ''Failed to create inet_pton at MulticastTradeDataReceiver'')
      else if membership_rc < 0 then Inl (Throw ''Failed to IP_ADD_MEMBERSHIP at MulticastTradeDataReceiver'')
      else Inr fd)"

subsection \<open>Receiver and server together\<close>

text \<open>The snapshot server as the sequencer's peer: the request travels as bytes, the replies arrive whole.\<close>

definition snapshot_peer :: "store \<Rightarrow> peer" where
  "snapshot_peer vec r = (case handle_read vec (encode_request r) of
     Inr (Sends ms) \<Rightarrow> Some (map Received ms) | _ \<Rightarrow> Some [])"

definition numbered :: "store \<Rightarrow> bool" where
  "numbered vec \<longleftrightarrow> length vec < 2 ^ 31 \<and> (\<forall>k<length vec. sequence_number (vec ! k) = of_nat k)"

text \<open>A send queue that never fills: \<open>LockedQueue\<close>.\<close>

abbreviation locked_send :: "trade \<Rightarrow> trade list \<Rightarrow> bool \<times> trade list" where
  "locked_send \<equiv> locked_enqueue"

definition in_step :: "store \<Rightarrow> nat \<Rightarrow> trade list sequencer \<Rightarrow> bool" where
  "in_step vec n s \<longleftrightarrow> n \<le> length vec \<and> nextSequence s = of_nat n \<and> sendQueue s = take n vec \<and> leaked s = []"

lemma in_step_send:
  assumes "in_step vec n s" and "n < length vec"
  shows "in_step vec (Suc n) (send_on locked_send (vec ! n) s) \<and>
    recycled (send_on locked_send (vec ! n) s) = recycled s"
  using assms by (auto simp: in_step_def send_on_def locked_enqueue_def take_Suc_conv_app_nth add.commute)

lemma receive_in_step:
  assumes vec: "numbered vec" and "in_step vec n s" and "n + j \<le> length vec"
    and "unat due = got + j"
  shows "\<exists>s'. receiveRecoveryMessages locked_send (of_nat got) due (map Received (take j (drop n vec))) s = Inr s' \<and>
    in_step vec (n + j) s' \<and> recycled s' = recycled s"
  using assms(2-)
proof (induction j arbitrary: n s got)
  case 0
  then have got: "unat due = got" by simp
  have "of_nat (unat due) = due" by simp
  then have "due = of_nat got" unfolding got ..
  with 0 show ?case by simp
next
  case (Suc j)
  have got: "got < 2 ^ 64" using Suc.prems(3) unat_u64_less [of due] by linarith
  then have less: "(of_nat got :: u64) < due"
    using Suc.prems(3) by (simp add: word_less_nat_alt unat_small)
  have hd: "take (Suc j) (drop n vec) = vec ! n # take j (drop (Suc n) vec)"
    using Suc.prems(2) by (simp add: Cons_nth_drop_Suc [symmetric])
  have seq: "sequence_number (vec ! n) = nextSequence s"
    using vec Suc.prems by (simp add: numbered_def in_step_def)
  note sent = in_step_send [OF Suc.prems(1), of]
  from Suc.prems(2) have n: "n < length vec" by simp
  obtain s' where "receiveRecoveryMessages locked_send (of_nat (Suc got)) due (map Received (take j (drop (Suc n) vec)))
      (send_on locked_send (vec ! n) s) = Inr s'" "in_step vec (Suc n + j) s'"
      "recycled s' = recycled (send_on locked_send (vec ! n) s)"
    using Suc.IH [of "Suc n" "send_on locked_send (vec ! n) s" "Suc got"] sent [OF n] Suc.prems by auto
  then show ?case
    unfolding hd using less seq sent [OF n] by (simp add: onRecoveredMsg_def add.commute)
qed

lemma in_step_sequencer:
  assumes vec: "numbered vec" and s: "in_step vec n s" and k: "k < length vec"
  shows "\<exists>s'. sequencer_step locked_send (snapshot_peer vec) (vec ! k) s = Inr s' \<and>
    in_step vec (max n (Suc k)) s' \<and> recycled s' = recycled s @ (if k < n then [vec ! k] else [])"
proof -
  have len: "length vec < 2 ^ 31" and num: "\<And>k. k < length vec \<Longrightarrow> sequence_number (vec ! k) = of_nat k"
    using vec by (auto simp: numbered_def)
  have n: "n \<le> length vec" "nextSequence s = of_nat n" using s by (auto simp: in_step_def)
  have u: "unat (of_nat n :: u64) = n" "unat (of_nat k :: u64) = k" using n k len by (simp_all add: unat_small)
  consider "k < n" | "k = n" | "n < k" by linarith
  then show ?thesis
  proof cases
    case 1
    then have "max n (Suc k) = n" by simp
    with 1 s u n num [OF k] show ?thesis
      by (simp add: sequencer_step_def word_less_nat_alt in_step_def)
  next
    case 2
    with in_step_send [OF s] k u n num [OF k] show ?thesis
      by (simp add: sequencer_step_def max_def)
  next
    case 3
    let ?r = "\<lparr>req_type = CHR ''0'', start_seq = of_nat n, end_seq = of_nat k - 1\<rparr>"
    have e: "unat (of_nat k - 1 :: u64) = k - 1" using 3 u unat_minus_one_pos [of "of_nat k"] by simp
    have "handle_read vec (encode_request ?r) = Inr (Sends (take (Suc (k - 1) - n) (drop n vec)))"
      using gap_reply [of ?r vec] 3 k len u e by simp
    then have peer: "snapshot_peer vec ?r = Some (map Received (take (k - n) (drop n vec)))"
      using 3 by (simp add: snapshot_peer_def)
    have due: "unat (of_nat k - 1 - of_nat n + 1 :: u64) = 0 + (k - n)"
    proof -
      have "(of_nat k - 1 - of_nat n + 1 :: u64) = of_nat (k - n)" using 3 by (simp add: of_nat_diff)
      then show ?thesis using k len by (simp add: unat_small)
    qed
    obtain s1 where s1: "receiveRecoveryMessages locked_send 0 (of_nat k - 1 - of_nat n + 1)
        (map Received (take (k - n) (drop n vec))) s = Inr s1" "in_step vec k s1" "recycled s1 = recycled s"
      using receive_in_step [OF vec s _ due] 3 k by auto
    then show ?thesis
      using in_step_send [OF s1(2) k] 3 u n num [OF k] peer
      by (simp add: sequencer_step_def word_less_nat_alt recover_def max_def)
  qed
qed

lemma in_step_run:
  assumes vec: "numbered vec" and "in_step vec n s0" and "\<forall>m \<in> set ms. m \<in> set vec"
  shows "\<exists>s n'. sequencer_run locked_send (snapshot_peer vec) (map Some ms) s0 = Inr s \<and> in_step vec n' s \<and> n \<le> n' \<and>
    (\<forall>m \<in> set ms. m \<in> set (take n' vec)) \<and> (n' = n \<or> vec ! (n' - 1) \<in> set ms)"
  using assms(2-)
proof (induction ms arbitrary: s0 n)
  case Nil
  then show ?case by auto
next
  case (Cons m ms)
  then obtain k where k: "k < length vec" "m = vec ! k" by (auto simp: in_set_conv_nth)
  from in_step_sequencer [OF vec Cons.prems(1) k(1)] obtain s1 where
    s1: "sequencer_step locked_send (snapshot_peer vec) m s0 = Inr s1" "in_step vec (max n (Suc k)) s1"
    unfolding k(2) by blast
  from Cons.IH [OF s1(2)] Cons.prems(2) obtain s n' where
    s: "sequencer_run locked_send (snapshot_peer vec) (map Some ms) s1 = Inr s" "in_step vec n' s" "max n (Suc k) \<le> n'"
      "\<forall>m \<in> set ms. m \<in> set (take n' vec)" "n' = max n (Suc k) \<or> vec ! (n' - 1) \<in> set ms" by auto
  have "m \<in> set (take n' vec)"
    using s(3) k by (auto simp: in_set_conv_nth intro!: exI [of _ k])
  moreover have "n' = n \<or> vec ! (n' - 1) \<in> set (m # ms)"
    using s(5) k(2) by (auto simp: max_def split: if_splits)
  ultimately show ?case using s s1(1) by auto
qed

text \<open>
  Claim C30.  The sequencer against the snapshot server of the same store: whatever subset of the
  store the multicast delivers, in whatever order and however often, the messages it passes on are
  exactly the store's messages from the first up to the highest one delivered, each once and in
  order.
\<close>

theorem sequencer_in_order:
  assumes "load_store (Some file_lines) = Inr vec" and "length vec < 2 ^ 31"
    and "\<forall>m \<in> set received. m \<in> set vec"
  shows "\<exists>s n. sequencer_run locked_send (snapshot_peer vec) (map Some received) (sequencer_new []) = Inr s \<and>
    sendQueue s = take n vec \<and> n \<le> length vec \<and> nextSequence s = of_nat n \<and> leaked s = [] \<and>
    (\<forall>m \<in> set received. m \<in> set (sendQueue s)) \<and> (received \<noteq> [] \<longrightarrow> last (sendQueue s) \<in> set received)"
proof -
  have vec: "numbered vec"
    using load_store_numbers [OF assms(1)] assms(2) by (simp add: numbered_def)
  have "in_step vec 0 (sequencer_new [])" by (simp add: in_step_def sequencer_new_def)
  from in_step_run [OF vec this assms(3)] obtain s n where
    s: "sequencer_run locked_send (snapshot_peer vec) (map Some received) (sequencer_new []) = Inr s" "in_step vec n s"
      "\<forall>m \<in> set received. m \<in> set (take n vec)" "n = 0 \<or> vec ! (n - 1) \<in> set received" by auto
  have "last (take n vec) \<in> set received" if "received \<noteq> []"
  proof -
    have "n \<noteq> 0"
    proof
      assume "n = 0"
      with s(3) that show False by (cases received) auto
    qed
    moreover from this have "last (take n vec) = vec ! (n - 1)"
      using s(2) by (subst last_conv_nth) (auto simp: in_step_def)
    ultimately show ?thesis using s(4) by simp
  qed
  with s show ?thesis by (auto simp: in_step_def)
qed

lemma sequencer_in_order_witness:
  "\<exists>vec s n. load_store (Some [''17,2.5,1,2.5,99,True,False'', ''18,3,4,12,100,False,True'']) = Inr vec \<and>
    sequencer_run locked_send (snapshot_peer vec) (map Some [vec ! 1, vec ! 0]) (sequencer_new []) = Inr s \<and>
    sendQueue s = take n vec \<and> (\<forall>m \<in> set [vec ! 1, vec ! 0]. m \<in> set (sendQueue s))"
proof -
  have "\<exists>vec. load_store (Some [''17,2.5,1,2.5,99,True,False'', ''18,3,4,12,100,False,True'']) = Inr vec"
    by (simp add: load_store_def parseTrade_def get_token_def stoull_def stod_def signed_part_def is_space_def
      digit_of_def exponent_part_def Let_def cong: bind_res_weak_cong)
  then obtain vec where vec: "load_store (Some [''17,2.5,1,2.5,99,True,False'', ''18,3,4,12,100,False,True'']) = Inr vec" ..
  from load_store_numbers [OF this] have len: "length vec = 2" by simp
  then have "\<forall>m \<in> set [vec ! 1, vec ! 0]. m \<in> set vec" by simp
  from sequencer_in_order [OF vec _ this] len vec show ?thesis by (auto simp del: sequencer_run.simps)
qed

text \<open>A connection that closes after some messages: those are passed on and the recovery returns.\<close>

definition numbered_from :: "u64 \<Rightarrow> trade list \<Rightarrow> bool" where
  "numbered_from n ms \<longleftrightarrow> (\<forall>i < length ms. sequence_number (ms ! i) = n + of_nat i)"

definition send_all :: "trade list \<Rightarrow> trade list sequencer \<Rightarrow> trade list sequencer" where
  "send_all ms s = s\<lparr>sendQueue := sendQueue s @ ms, nextSequence := nextSequence s + of_nat (length ms)\<rparr>"

lemma numbered_from_Cons:
  "numbered_from n (m # ms) \<longleftrightarrow> sequence_number m = n \<and> numbered_from (n + 1) ms"
  unfolding numbered_from_def length_Cons All_less_Suc2 by (simp add: add.assoc)

lemma send_on_locked: "send_on locked_send m s = send_all [m] s"
  by (simp add: send_on_def send_all_def locked_enqueue_def)

lemma send_all_append: "send_all (ms @ ms') s = send_all ms' (send_all ms s)"
  by (simp add: send_all_def add.assoc)

lemma receive_until_closed:
  assumes "numbered_from (nextSequence s) ms" and "got + length ms < unat due"
  shows "receiveRecoveryMessages locked_send (of_nat got) due (map Received ms @ Closed # evs) s = Inr (send_all ms s)"
  using assms
proof (induction ms arbitrary: s got)
  case Nil
  then have "(of_nat got :: u64) < due"
    using unat_u64_less [of due] by (simp add: word_less_nat_alt unat_small)
  then show ?case by (simp add: send_all_def)
next
  case (Cons m ms)
  have "(of_nat got :: u64) < due"
    using Cons.prems(2) unat_u64_less [of due] by (simp add: word_less_nat_alt unat_small)
  moreover have "sequence_number m = nextSequence s" and "numbered_from (nextSequence (send_all [m] s)) ms"
    using Cons.prems(1) by (simp_all add: numbered_from_Cons send_all_def)
  moreover note Cons.IH [OF this(2), of "Suc got"]
  ultimately show ?case using Cons.prems(2) send_all_append [of "[m]" ms s]
    by (simp add: onRecoveredMsg_def send_on_locked add.commute)
qed

text \<open>
  Claim C31.  When the recovery connection closes after only some of the missing messages \<open>ms\<close>,
  possibly none, \<open>receiveRecoveryMessages\<close> returns as if it had them all.  In any state, the sequencer
  then passes the new message on right after the gap, and counts it under the number of the first
  message still missing: its counter stays at or below the number of a message it has already sent.
  The message that follows in order therefore looks like another gap, whose recovery asks again for
  what was lost and also for the message that was passed on.
\<close>

theorem sequencer_silent_gap:
  assumes "nextSequence s < sequence_number msg" and "sequence_number msg < - 1"
    and "numbered_from (nextSequence s) ms" and "length ms < unat (sequence_number msg - nextSequence s)"
    and "server \<lparr>req_type = CHR ''0'', start_seq = nextSequence s, end_seq = sequence_number msg - 1\<rparr>
      = Some (map Received ms @ Closed # evs)"
  shows "\<exists>s'. sequencer_step locked_send server msg s = Inr s' \<and> sendQueue s' = sendQueue s @ ms @ [msg] \<and>
    leaked s' = leaked s \<and> recycled s' = recycled s \<and>
    getSequenceNum s' = nextSequence s + of_nat (length ms) \<and> nextSequence s' \<le> sequence_number msg \<and>
    (\<forall>next_msg. sequence_number next_msg = sequence_number msg + 1 \<longrightarrow>
      sequencer_step locked_send server next_msg s' = bind_res (recover locked_send server (nextSequence s')
        (sequence_number msg) s') (\<lambda>s''. Inr (send_on locked_send next_msg s'')))"
proof -
  let ?k = "length ms" and ?s = "send_all (ms @ [msg]) s"
  have "receiveRecoveryMessages locked_send 0 (sequence_number msg - nextSequence s) (map Received ms @ Closed # evs) s
      = Inr (send_all ms s)"
    using receive_until_closed [OF assms(3), of 0] assms(4) by simp
  then have step: "sequencer_step locked_send server msg s = Inr ?s"
    using assms(1,5) by (simp add: sequencer_step_def recover_def send_on_locked send_all_append)
  have "unat (sequence_number msg - nextSequence s) = unat (sequence_number msg) - unat (nextSequence s)"
    using assms(1) by (simp add: unat_sub_if_size word_less_nat_alt)
  then have k: "unat (nextSequence s) + ?k < unat (sequence_number msg)" using assms(4) by simp
  have "nextSequence ?s = nextSequence s + of_nat (Suc ?k)" by (simp add: send_all_def)
  moreover have "nextSequence s + of_nat (Suc ?k) = (of_nat (unat (nextSequence s) + Suc ?k) :: u64)" by simp
  moreover have "unat (of_nat (unat (nextSequence s) + Suc ?k) :: u64) = unat (nextSequence s) + Suc ?k"
    using k unat_u64_less [of "sequence_number msg"] by (intro unat_small) linarith
  ultimately have "nextSequence ?s \<le> sequence_number msg" using k by (simp only: word_le_nat_alt)
  moreover have "sequence_number msg < sequence_number msg + 1"
    using assms(2) unat_plus_one [of "sequence_number msg"]
    by (simp add: word_less_nat_alt unsigned_minus_1_eq_mask mask_eq_exp_minus_1)
  ultimately show ?thesis using step
    by (intro exI [of _ ?s] conjI) (auto simp: send_all_def getSequenceNum_def sequencer_step_def)
qed

definition numbered_msg :: "u64 \<Rightarrow> trade" where
  "numbered_msg n = \<lparr>message_type = CHR ''P'', sequence_number = n, trade_id = n, timestamp = 0,
     price = Dbl 1 0, quantity = Dbl 1 0, buyer_is_maker = True, best_match = True\<rparr>"

theorem sequencer_silent_gap_witness:
  "\<exists>s'. sequencer_step locked_send (\<lambda>_. Some [Received (numbered_msg 0), Closed]) (numbered_msg 3) (sequencer_new []) = Inr s' \<and>
    sendQueue s' = [numbered_msg 0, numbered_msg 3] \<and> getSequenceNum s' = 1"
  using sequencer_silent_gap [of "sequencer_new []" "numbered_msg 3" "[numbered_msg 0]"
      "\<lambda>_. Some [Received (numbered_msg 0), Closed]" "[]"]
  by (auto simp: numbered_msg_def sequencer_new_def numbered_from_def)

text \<open>
  A send queue that is full refuses the message, but the answer of \<open>enqueue\<close> is not
  looked at: the message is neither passed on nor given back to the pool, and the sequence number
  advances over it.
\<close>

lemma sequencer_full_queue_leaks:
  assumes "spsc_inv (sendQueue s)" and "spsc_full (sendQueue s)" and "sequence_number m = nextSequence s"
  shows "sequencer_step (\<lambda>m. spsc_enqueue (Some m)) server m s =
    Inr (s\<lparr>leaked := leaked s @ [m], nextSequence := nextSequence s + 1\<rparr>)"
  using assms by (simp add: sequencer_step_def send_on_def spsc_enqueue_full)

definition full_ring :: "trade \<Rightarrow> trade spsc" where
  "full_ring m = \<lparr>spsc_buffer = [Some m], spsc_head = 0, spsc_tail = 1, spsc_capacity = 1, spsc_mask = 0\<rparr>"

lemma sequencer_full_queue_leaks_example:
  "\<exists>m s. sequencer_step (\<lambda>m. spsc_enqueue (Some m)) (\<lambda>_. None) m s =
    Inr (s\<lparr>leaked := leaked s @ [m], nextSequence := nextSequence s + 1\<rparr>)"
proof -
  define m where "m = \<lparr>message_type = CHR ''P'', sequence_number = 0, trade_id = 1, timestamp = 2,
    price = Dbl 1 0, quantity = Dbl 1 0, buyer_is_maker = True, best_match = True\<rparr>"
  let ?s = "sequencer_new (full_ring m)"
  have "spsc_inv (full_ring m)" and "spsc_full (full_ring m)"
    by (simp_all add: full_ring_def spsc_inv_def spsc_full_def pow2_capacity_def)
  then have "sequencer_step (\<lambda>m. spsc_enqueue (Some m)) (\<lambda>_. None) m ?s =
      Inr (?s\<lparr>leaked := leaked ?s @ [m], nextSequence := nextSequence ?s + 1\<rparr>)"
    by (intro sequencer_full_queue_leaks) (simp_all add: sequencer_new_def m_def)
  then show ?thesis by blast
qed

end
