(* ===== verification/Pipeline.thy ===== *)
theory Pipeline
  imports TradeReceiver TaggedPool SpscRace "HOL-Library.Multiset"
begin

text \<open>
  The program \<^verbatim>\<open>HFT/TickerServer/ITCHTradeReceiver.cpp\<close> as a whole: \<open>main\<close>, the thread of the
  multicast receiver and the thread of the sequencer with its recovery, which share the message
  pool and the queue between them.  A message is a pool index, its contents are in \<open>pl_msg\<close>.  On the
  queue between the threads a step is one atomic access or one access to a cell of \<open>enqueue\<close> or
  \<open>dequeue\<close>, as in \<open>SpscRace\<close>, so a call of one thread may find a call of the other half done.  The
  calls of the pool are one step each: \<open>PoolRace\<close> has their interleavings.  Only the sequencer's
  thread uses the second queue.  An exception that leaves a thread ends the program.
\<close>

subsection \<open>The threads\<close>

text \<open>Where a thread is, and which messages it has in its hands.\<close>

datatype mc_pc = Mc_allocate | Mc_recv nat | Mc_enqueue nat | Mc_left

text \<open>
  In \<open>Sq_poll m got num\<close> the sequencer waits for the \<open>num\<close> messages it asked for, has \<open>got\<close> of
  them and holds back \<open>m\<close>; in \<open>Sq_recv\<close> it has a message ready for the next one.
\<close>

datatype seq_pc =
    Sq_connect
  | Sq_dequeue
  | Sq_compare nat
  | Sq_poll nat u64 u64
  | Sq_recv nat u64 u64 nat
  | Sq_send nat
  | Sq_left

record ('p, 'q) pipeline =
  pl_pool :: 'p
  pl_msg :: "nat \<Rightarrow> trade"
  pl_recvQ :: "nat spsc_conc"
  pl_sendQ :: 'q
  pl_next :: u64
  pl_mc :: mc_pc
  pl_seq :: seq_pc
  pl_mc_run :: bool
  pl_seq_run :: bool
  pl_lost :: "nat list"

text \<open>
  The step of a thread, or what a system call of it returned.  A datagram is what the message holds
  after \<open>recv\<close>.
\<close>

datatype pl_event =
    Mc_runs | Mc_recv_fails | Mc_datagram trade
  | Sq_connects int int int "int list" | Sq_runs | Sq_request_fails | Sq_epoll_create_fails | Sq_epoll_ctl_fails
  | Sq_timeout | Sq_epoll_error | Sq_receives trade | Sq_partial | Sq_closed
  | Main_stops_sequencer | Main_stops_multicast

text \<open>A message that \<open>enqueue\<close> refused is forgotten: the answer is not looked at.\<close>

definition forget_unless :: "bool \<Rightarrow> nat \<Rightarrow> ('p, 'q) pipeline \<Rightarrow> ('p, 'q) pipeline" where
  "forget_unless ok m s = (if ok then s else s\<lparr>pl_lost := pl_lost s @ [m]\<rparr>)"

definition give_back :: "'p pool_ops \<Rightarrow> nat \<Rightarrow> ('p, 'q) pipeline \<Rightarrow> ('p, 'q) pipeline res" where
  "give_back P m s = bind_res (deallocate_op P (Some m) (pl_pool s)) (\<lambda>p. Inr (s\<lparr>pl_pool := p\<rparr>))"

text \<open>\<open>MulticastTradeDataReceiver::run\<close>.\<close>

definition mc_do :: "'p pool_ops \<Rightarrow> pl_event \<Rightarrow> ('p, 'q) pipeline \<Rightarrow> ('p, 'q) pipeline res option" where
  "mc_do P e s = (case pl_mc s of
     Mc_allocate \<Rightarrow>
       if e \<noteq> Mc_runs then None
       else if \<not> pl_mc_run s then Some (Inr (s\<lparr>pl_mc := Mc_left\<rparr>))
       else Some (bind_res (allocate_op P (pl_pool s)) (\<lambda>(msg, p). case msg of
           None \<Rightarrow> Inl (Throw ''Msg Pool exhausted at MulticastTradeDataReceiver'')
         | Some m \<Rightarrow> Inr (s\<lparr>pl_pool := p, pl_mc := Mc_recv m\<rparr>)))
   | Mc_recv m \<Rightarrow> (case e of
         Mc_recv_fails \<Rightarrow> Some (give_back P m (s\<lparr>pl_mc := Mc_allocate\<rparr>))
       | Mc_datagram t \<Rightarrow> Some (Inr (s\<lparr>pl_msg := (pl_msg s)(m := t), pl_mc := Mc_enqueue m\<rparr>))
       | _ \<Rightarrow> None)
   | Mc_enqueue m \<Rightarrow>
       if e = Mc_runs
       then (let (answer, q) = enqueue_access (Some m) (pl_recvQ s) in Some (Inr (case answer of
           None \<Rightarrow> s\<lparr>pl_recvQ := q\<rparr>
         | Some ok \<Rightarrow> forget_unless ok m (s\<lparr>pl_recvQ := q, pl_mc := Mc_allocate\<rparr>))))
       else None
   | Mc_left \<Rightarrow> None)"

text \<open>\<open>sendQueue_.enqueue(msg); ++nextSequence_\<close>.\<close>

definition send_next :: "(nat option \<Rightarrow> 'q \<Rightarrow> bool \<times> 'q) \<Rightarrow> nat \<Rightarrow> ('p, 'q) pipeline \<Rightarrow> ('p, 'q) pipeline" where
  "send_next enq m s = (let (ok, q) = enq (Some m) (pl_sendQ s) in
     forget_unless ok m (s\<lparr>pl_sendQ := q, pl_next := pl_next s + 1\<rparr>))"

text \<open>
  \<open>TradeDataSequencer::run\<close> with \<open>TradeRecoveryManager\<close>, by where the thread stands: before the
  comparison of a message that was dequeued, in the loop of \<open>receiveRecoveryMessages\<close> at
  \<open>epoll_wait\<close>, and at its \<open>recv\<close>.
\<close>

definition seq_compare :: "'p pool_ops \<Rightarrow> pl_event \<Rightarrow> nat \<Rightarrow> ('p, 'q) pipeline \<Rightarrow> ('p, 'q) pipeline res option" where
  "seq_compare P e m s = (let n = sequence_number (pl_msg s m) in case e of
     Sq_runs \<Rightarrow> Some
       (if n > pl_next s then Inr (s\<lparr>pl_seq := Sq_poll m 0 (n - 1 - pl_next s + 1)\<rparr>)
        else if n < pl_next s then give_back P m (s\<lparr>pl_seq := Sq_dequeue\<rparr>)
        else Inr (s\<lparr>pl_seq := Sq_send m\<rparr>))
   | Sq_request_fails \<Rightarrow>
       if n > pl_next s
       then Some (Inl (Throw ''Failed to send full recovery request at sendRecoveryRequest'')) else None
   | Sq_epoll_create_fails \<Rightarrow>
       if n > pl_next s then Some (Inl (Throw ''epoll_create1() failed at receiveRecoveryMessages'')) else None
   | Sq_epoll_ctl_fails \<Rightarrow>
       if n > pl_next s then Some (Inl (Throw ''epoll_ctl() failed at receiveRecoveryMessages'')) else None
   | _ \<Rightarrow> None)"

text \<open>A pool without messages answers the null pointer; then \<open>recv\<close> fails and it goes to \<open>deallocate\<close>.\<close>

definition seq_poll :: "'p pool_ops \<Rightarrow> pl_event \<Rightarrow> nat \<Rightarrow> u64 \<Rightarrow> u64 \<Rightarrow> ('p, 'q) pipeline \<Rightarrow> ('p, 'q) pipeline res option" where
  "seq_poll P e m got num s =
     (if got < num
      then (case e of
          Sq_runs \<Rightarrow> Some (bind_res (allocate_op P (pl_pool s)) (\<lambda>(msg, p). case msg of
              None \<Rightarrow> bind_res (deallocate_op P None p) (\<lambda>p. Inr (s\<lparr>pl_pool := p, pl_seq := Sq_send m\<rparr>))
            | Some r \<Rightarrow> Inr (s\<lparr>pl_pool := p, pl_seq := Sq_recv m got num r\<rparr>)))
        | Sq_timeout \<Rightarrow> Some (Inr s)
        | Sq_epoll_error \<Rightarrow> Some (Inr (s\<lparr>pl_seq := Sq_send m\<rparr>))
        | _ \<Rightarrow> None)
      else if e = Sq_runs then Some (Inr (s\<lparr>pl_seq := Sq_send m\<rparr>)) else None)"

definition seq_recv :: "'p pool_ops \<Rightarrow> (nat option \<Rightarrow> 'q \<Rightarrow> bool \<times> 'q) \<Rightarrow> pl_event \<Rightarrow> nat \<Rightarrow> u64 \<Rightarrow> u64 \<Rightarrow> nat
    \<Rightarrow> ('p, 'q) pipeline \<Rightarrow> ('p, 'q) pipeline res option" where
  "seq_recv P enq e m got num r s = (case e of
     Sq_receives t \<Rightarrow> Some
       (if sequence_number t \<noteq> pl_next s then Inl (Throw ''Failed to recover message'')
        else Inr (send_next enq r (s\<lparr>pl_msg := (pl_msg s)(r := t), pl_seq := Sq_poll m (got + 1) num\<rparr>)))
   | Sq_partial \<Rightarrow> Some (give_back P r (s\<lparr>pl_seq := Sq_poll m got num\<rparr>))
   | Sq_closed \<Rightarrow> Some (give_back P r (s\<lparr>pl_seq := Sq_send m\<rparr>))
   | _ \<Rightarrow> None)"

text \<open>The run flag is looked at before a call of \<open>dequeue\<close>, not between its accesses.\<close>

definition seq_do :: "'p pool_ops \<Rightarrow> (nat option \<Rightarrow> 'q \<Rightarrow> bool \<times> 'q) \<Rightarrow> pl_event
    \<Rightarrow> ('p, 'q) pipeline \<Rightarrow> ('p, 'q) pipeline res option" where
  "seq_do P enq e s = (case pl_seq s of
     Sq_connect \<Rightarrow> (case e of
         Sq_connects fd option_rc pton_rc rcs \<Rightarrow>
           Some (bind_res (recovery_connect 50 fd option_rc pton_rc rcs) (\<lambda>_. Inr (s\<lparr>pl_seq := Sq_dequeue\<rparr>)))
       | _ \<Rightarrow> None)
   | Sq_dequeue \<Rightarrow>
       if e \<noteq> Sq_runs then None
       else if sc_cons (pl_recvQ s) = CIdle \<and> \<not> pl_seq_run s then Some (Inr (s\<lparr>pl_seq := Sq_left\<rparr>))
       else (let (answer, q) = dequeue_access (pl_recvQ s) in Some (Inr
         (s\<lparr>pl_recvQ := q, pl_seq := (case answer of Some (Some m) \<Rightarrow> Sq_compare m | _ \<Rightarrow> Sq_dequeue)\<rparr>)))
   | Sq_compare m \<Rightarrow> seq_compare P e m s
   | Sq_poll m got num \<Rightarrow> seq_poll P e m got num s
   | Sq_recv m got num r \<Rightarrow> seq_recv P enq e m got num r s
   | Sq_send m \<Rightarrow> if e = Sq_runs then Some (Inr (send_next enq m (s\<lparr>pl_seq := Sq_dequeue\<rparr>))) else None
   | Sq_left \<Rightarrow> None)"

text \<open>One event of the program: \<open>main\<close> clears the flags at any time.\<close>

definition pl_do :: "'p pool_ops \<Rightarrow> (nat option \<Rightarrow> 'q \<Rightarrow> bool \<times> 'q) \<Rightarrow> pl_event
    \<Rightarrow> ('p, 'q) pipeline \<Rightarrow> ('p, 'q) pipeline res option" where
  "pl_do P enq e s = (case e of
     Main_stops_sequencer \<Rightarrow> Some (Inr (s\<lparr>pl_seq_run := False\<rparr>))
   | Main_stops_multicast \<Rightarrow> Some (Inr (s\<lparr>pl_mc_run := False\<rparr>))
   | _ \<Rightarrow> (case mc_do P e s of Some r \<Rightarrow> Some r | None \<Rightarrow> seq_do P enq e s))"

text \<open>A run: \<open>None\<close> when an event is not possible where it stands.\<close>

fun pl_run :: "'p pool_ops \<Rightarrow> (nat option \<Rightarrow> 'q \<Rightarrow> bool \<times> 'q) \<Rightarrow> pl_event list
    \<Rightarrow> ('p, 'q) pipeline \<Rightarrow> ('p, 'q) pipeline res option" where
  "pl_run P enq [] s = Some (Inr s)"
| "pl_run P enq (e # es) s = (case pl_do P enq e s of
     None \<Rightarrow> None
   | Some (Inl err) \<Rightarrow> Some (Inl err)
   | Some (Inr s') \<Rightarrow> pl_run P enq es s')"

definition no_trade :: trade where
  "no_trade = \<lparr>message_type = CHR 0x00, sequence_number = 0, trade_id = 0, timestamp = 0,
     price = Dbl 0 0, quantity = Dbl 0 0, buyer_is_maker = False, best_match = False\<rparr>"

definition pl_new :: "'p \<Rightarrow> nat spsc \<Rightarrow> 'q \<Rightarrow> ('p, 'q) pipeline" where
  "pl_new p recvQ sendQ = \<lparr>pl_pool = p, pl_msg = (\<lambda>_. no_trade), pl_recvQ = spsc_conc_init recvQ, pl_sendQ = sendQ, pl_next = 0,
     pl_mc = Mc_allocate, pl_seq = Sq_connect, pl_mc_run = True, pl_seq_run = True, pl_lost = []\<rparr>"

text \<open>
  \<open>main\<close>: the queues and the pool, the connection of the multicast socket, then the two threads.
\<close>

definition receiver_main :: "nat \<Rightarrow> u64 \<Rightarrow> int res \<Rightarrow> pl_event list \<Rightarrow> (tsp, nat spsc) pipeline res option" where
  "receiver_main poolMsgCount queueCapacity connected events =
     (case spsc_new queueCapacity of
        Inl err \<Rightarrow> Some (Inl err)
      | Inr q \<Rightarrow> (case connected of
          Inl err \<Rightarrow> Some (Inl err)
        | Inr fd \<Rightarrow> pl_run tsp_ops spsc_enqueue events (pl_new (tsp_new poolMsgCount) q q)))"

subsection \<open>Every message is somewhere\<close>

fun mc_holds :: "mc_pc \<Rightarrow> nat list" where
  "mc_holds (Mc_recv m) = [m]"
| "mc_holds (Mc_enqueue m) = [m]"
| "mc_holds _ = []"

fun seq_holds :: "seq_pc \<Rightarrow> nat list" where
  "seq_holds (Sq_compare m) = [m]"
| "seq_holds (Sq_poll m _ _) = [m]"
| "seq_holds (Sq_recv m _ _ r) = [m, r]"
| "seq_holds (Sq_send m) = [m]"
| "seq_holds _ = []"

text \<open>
  The messages that are not free: in a thread's hands, in a queue, or forgotten.  The message in a
  cell that a call of \<open>dequeue\<close> has claimed and not read counts as in the queue.
\<close>

definition in_use :: "('q \<Rightarrow> nat option list) \<Rightarrow> ('p, 'q) pipeline \<Rightarrow> nat list" where
  "in_use contents s = mc_holds (pl_mc s) @ seq_holds (pl_seq s) @ map the (spsc_contents (spsc_seen (pl_recvQ s))) @
     map the (contents (pl_sendQ s)) @ pl_lost s"

text \<open>The events that ask the pool for a message.\<close>

definition asks_pool :: "pl_event \<Rightarrow> ('p, 'q) pipeline \<Rightarrow> bool" where
  "asks_pool e s \<longleftrightarrow> (e = Mc_runs \<and> pl_mc s = Mc_allocate \<and> pl_mc_run s) \<or>
     (e = Sq_runs \<and> (\<exists>m got num. pl_seq s = Sq_poll m got num \<and> got < num))"

text \<open>
  A run in which the multicast thread never comes to write the cell that the sequencer's thread has
  claimed and not read.
\<close>

fun never_overrun :: "'p pool_ops \<Rightarrow> (nat option \<Rightarrow> 'q \<Rightarrow> bool \<times> 'q) \<Rightarrow> pl_event list \<Rightarrow> ('p, 'q) pipeline \<Rightarrow> bool" where
  "never_overrun P enq [] s \<longleftrightarrow> \<not> spsc_overrun (pl_recvQ s)"
| "never_overrun P enq (e # es) s \<longleftrightarrow> \<not> spsc_overrun (pl_recvQ s) \<and> (case pl_do P enq e s of
     Some (Inr s') \<Rightarrow> never_overrun P enq es s' | _ \<Rightarrow> True)"

definition receiver_never_overruns :: "nat \<Rightarrow> u64 \<Rightarrow> pl_event list \<Rightarrow> bool" where
  "receiver_never_overruns poolMsgCount queueCapacity events = (case spsc_new queueCapacity of
     Inl err \<Rightarrow> True
   | Inr q \<Rightarrow> never_overrun tsp_ops spsc_enqueue events (pl_new (tsp_new poolMsgCount) q q))"

text \<open>The message that the multicast thread's call of \<open>enqueue\<close> carries is the one the thread holds.\<close>

definition mc_carries :: "('p, 'q) pipeline \<Rightarrow> bool" where
  "mc_carries s \<longleftrightarrow> carried (sc_prod (pl_recvQ s)) = None \<or>
     (\<exists>m. pl_mc s = Mc_enqueue m \<and> carried (sc_prod (pl_recvQ s)) = Some (Some m))"

locale receiver_parts =
  pool: message_pool P free_msgs pool_size good + queue: fifo_queue enq deq None contents full qinv
  for P :: "'p pool_ops" and free_msgs :: "'p \<Rightarrow> nat set" and pool_size :: "'p \<Rightarrow> nat" and good :: "'p \<Rightarrow> bool"
    and enq :: "nat option \<Rightarrow> 'q \<Rightarrow> bool \<times> 'q" and deq :: "'q \<Rightarrow> nat option \<times> 'q"
    and contents :: "'q \<Rightarrow> nat option list" and full :: "'q \<Rightarrow> bool" and qinv :: "'q \<Rightarrow> bool"
begin

abbreviation used :: "('p, 'q) pipeline \<Rightarrow> nat list" where
  "used \<equiv> in_use contents"

abbreviation parts_ok :: "'p \<Rightarrow> nat list \<Rightarrow> bool" where
  "parts_ok p xs \<equiv> pool.accounted (xs, p)"

definition queues_ok :: "('p, 'q) pipeline \<Rightarrow> bool" where
  "queues_ok s \<longleftrightarrow> spsc_conc_inv (pl_recvQ s) \<and> None \<notin> set (spsc_contents (spsc_seen (pl_recvQ s))) \<and> mc_carries s \<and>
     qinv (pl_sendQ s) \<and> None \<notin> set (contents (pl_sendQ s))"

definition pl_ok :: "('p, 'q) pipeline \<Rightarrow> bool" where
  "pl_ok s \<longleftrightarrow> parts_ok (pl_pool s) (used s) \<and> queues_ok s"

lemma accounted_mset: "pool.accounted (xs, p) \<Longrightarrow> mset xs = mset ys \<Longrightarrow> pool.accounted (ys, p)"
  unfolding pool.accounted_def prod.case using mset_eq_setD mset_eq_imp_distinct_iff by metis

lemma accounted_take:
  assumes "pool.accounted (xs, p)" and "length xs < pool_size p"
  shows "\<exists>m p'. allocate_op P p = Inr (Some m, p') \<and> pool.accounted (m # xs, p') \<and> pool_size p' = pool_size p"
proof -
  obtain m p' where m: "pool_step P Alloc (xs, p) = Inr (Allocated (Some m), xs @ [m], p')" "pool.accounted (xs @ [m], p')"
      "pool_size p' = pool_size p"
    using pool.accounted_alloc [OF assms] by blast
  then have "pool.accounted (m # xs, p')" by (auto elim: accounted_mset)
  with m show ?thesis by (auto split: option.splits)
qed

lemma accounted_give:
  assumes "pool.accounted (m # xs, p)"
  shows "\<exists>p'. deallocate_op P (Some m) p = Inr p' \<and> pool.accounted (xs, p') \<and> pool_size p' = pool_size p"
  using pool.accounted_dealloc [OF assms, of 0] by auto

lemma accounted_length: "pool.accounted (xs, p) \<Longrightarrow> length xs \<le> pool_size p"
  unfolding pool.accounted_def prod.case
  by (metis Un_upper1 card_lessThan card_mono distinct_card finite_lessThan)

text \<open>What an event leads to: the messages are accounted for again, or the program ends with an exception.\<close>

definition fine :: "('p, 'q) pipeline \<Rightarrow> ('p, 'q) pipeline res \<Rightarrow> bool" where
  "fine s r \<longleftrightarrow> (\<exists>s'. r = Inr s' \<and> pl_ok s' \<and> pool_size (pl_pool s') = pool_size (pl_pool s)) \<or>
     (\<exists>why. r = Inl (Throw why))"

lemma fine_same:
  assumes "pl_ok s" and "mset (used s') = mset (used s)" and "pl_pool s' = pl_pool s" and "queues_ok s'"
  shows "fine s (Inr s')"
  using assms accounted_mset [of "used s" "pl_pool s" "used s'"] by (auto simp: fine_def pl_ok_def)

text \<open>What only touches the pool, the messages' contents and the place of a thread leaves the queues right.\<close>

lemma queues_ok_update [simp]:
  "queues_ok (s\<lparr>pl_pool := p\<rparr>) = queues_ok s" "queues_ok (s\<lparr>pl_msg := c\<rparr>) = queues_ok s"
  "queues_ok (s\<lparr>pl_seq := pc\<rparr>) = queues_ok s" "queues_ok (s\<lparr>pl_next := k\<rparr>) = queues_ok s"
  "queues_ok (s\<lparr>pl_lost := ms\<rparr>) = queues_ok s" "queues_ok (s\<lparr>pl_seq_run := b\<rparr>) = queues_ok s"
  "queues_ok (s\<lparr>pl_mc_run := b\<rparr>) = queues_ok s"
  "sc_prod (pl_recvQ s) = PIdle \<Longrightarrow> queues_ok (s\<lparr>pl_mc := at\<rparr>) = queues_ok s"
  by (simp_all add: queues_ok_def mc_carries_def)

lemma mc_idle:
  assumes "queues_ok s" and "\<And>m. pl_mc s \<noteq> Mc_enqueue m"
  shows "sc_prod (pl_recvQ s) = PIdle"
  using assms by (cases "sc_prod (pl_recvQ s)"; cases "pl_mc s") (auto simp: queues_ok_def mc_carries_def)

lemma enq_moves:
  assumes "qinv q0" and "None \<notin> set (contents q0)" and "enq (Some m) q0 = (ok, q)"
  shows "qinv q" and "None \<notin> set (contents q)"
    and "mset (map the (contents q)) + (if ok then {#} else {#m#}) = add_mset m (mset (map the (contents q0)))"
  using queue.enq_inv [OF assms(1), of "Some m"] queue.enq_contents [OF assms(1), of "Some m"] assms(2,3)
  by auto

lemma fine_give_back:
  assumes "pl_ok s" and "mset (used s) = add_mset m (mset (used s1))" and "pl_pool s1 = pl_pool s" and "queues_ok s1"
  shows "fine s (give_back P m s1)"
proof -
  have "pool.accounted (m # used s1, pl_pool s)"
    using assms(1,2) by (auto simp: pl_ok_def elim: accounted_mset)
  from accounted_give [OF this] obtain p' where "deallocate_op P (Some m) (pl_pool s) = Inr p'"
      "pool.accounted (used s1, p')" "pool_size p' = pool_size (pl_pool s)" by blast
  then show ?thesis using assms by (auto simp: give_back_def fine_def pl_ok_def in_use_def)
qed

text \<open>Asking a pool that has a message left: it is handed out, and the asking thread holds it.\<close>

lemma allocate_left:
  assumes "pl_ok s" and "length (used s) < pool_size (pl_pool s)"
  obtains m p' where "allocate_op P (pl_pool s) = Inr (Some m, p')" and "pool.accounted (m # used s, p')"
    and "pool_size p' = pool_size (pl_pool s)"
  using accounted_take [of "used s" "pl_pool s"] assms by (auto simp: pl_ok_def)

lemma fine_allocated:
  assumes "pl_ok s" and "pool.accounted (m # used s, pl_pool s')" and "pool_size (pl_pool s') = pool_size (pl_pool s)"
    and "mset (used s') = add_mset m (mset (used s))" and "queues_ok s'"
  shows "fine s (Inr s')"
  using assms accounted_mset [of "m # used s" "pl_pool s'" "used s'"] by (auto simp: fine_def pl_ok_def)

lemma fine_send_next:
  assumes "pl_ok s" and "mset (used s) = add_mset m (mset (used s1))"
    and "pl_pool s1 = pl_pool s" and "queues_ok s1"
  shows "fine s (Inr (send_next enq m s1))"
proof -
  obtain ok q where q: "enq (Some m) (pl_sendQ s1) = (ok, q)" by fastforce
  have "qinv (pl_sendQ s1)" and "None \<notin> set (contents (pl_sendQ s1))" using assms(4) by (simp_all add: queues_ok_def)
  note moved = enq_moves [OF this q]
  have "queues_ok (send_next enq m s1)"
    using assms(4) moved(1,2) by (auto simp: send_next_def forget_unless_def q queues_ok_def mc_carries_def)
  then show ?thesis
    using assms(2,3) moved(3)
    by (intro fine_same [OF assms(1)]) (auto simp: send_next_def forget_unless_def q in_use_def split: if_splits)
qed

text \<open>An access of the multicast thread's call of \<open>enqueue\<close>.\<close>

lemma mc_enqueue_fine:
  assumes ok: "pl_ok s" and at: "pl_mc s = Mc_enqueue m" and free: "\<not> spsc_overrun (pl_recvQ s)"
    and acc: "enqueue_access (Some m) (pl_recvQ s) = (answer, q)"
  shows "fine s (Inr (case answer of None \<Rightarrow> s\<lparr>pl_recvQ := q\<rparr>
    | Some ok \<Rightarrow> forget_unless ok m (s\<lparr>pl_recvQ := q, pl_mc := Mc_allocate\<rparr>)))"
proof -
  have parts: "spsc_conc_inv (pl_recvQ s)" "None \<notin> set (spsc_contents (spsc_seen (pl_recvQ s)))" "mc_carries s"
      "qinv (pl_sendQ s)" "None \<notin> set (contents (pl_sendQ s))"
    using ok by (simp_all add: pl_ok_def queues_ok_def)
  have "carried (sc_prod (pl_recvQ s)) \<in> {None, Some (Some m)}"
    using parts(3) at by (auto simp: mc_carries_def split: option.splits)
  note step = enqueue_access_ok [OF parts(1) free this acc]
  show ?thesis
  proof (cases answer)
    case None
    then show ?thesis
      using parts step at by (auto simp: queues_ok_def mc_carries_def in_use_def intro!: fine_same [OF ok])
  next
    case (Some b)
    let ?s = "s\<lparr>pl_recvQ := q, pl_mc := Mc_allocate\<rparr>"
    have "queues_ok ?s" using parts step Some by (auto simp: queues_ok_def mc_carries_def)
    moreover have "mset (used (forget_unless b m ?s)) = mset (used s)"
      using step(3) Some at by (auto simp: forget_unless_def in_use_def)
    ultimately show ?thesis using Some by (auto simp: forget_unless_def intro!: fine_same [OF ok])
  qed
qed

lemma mc_do_fine:
  assumes ok: "pl_ok s" and left: "asks_pool e s \<Longrightarrow> length (used s) < pool_size (pl_pool s)"
    and free: "\<not> spsc_overrun (pl_recvQ s)" and r: "mc_do P e s = Some r"
  shows "fine s r"
proof -
  have queues: "queues_ok s" using ok by (simp add: pl_ok_def)
  show ?thesis
  proof (cases "pl_mc s")
    case Mc_allocate
    then have idle [simp]: "sc_prod (pl_recvQ s) = PIdle" using mc_idle [OF queues] by simp
    show ?thesis
    proof (cases "pl_mc_run s")
      case True
      then have e: "e = Mc_runs" using r Mc_allocate by (auto simp: mc_do_def split: if_splits)
      with True Mc_allocate left have "length (used s) < pool_size (pl_pool s)" by (simp add: asks_pool_def)
      from allocate_left [OF ok this] obtain m p' where m: "allocate_op P (pl_pool s) = Inr (Some m, p')"
          "pool.accounted (m # used s, p')" "pool_size p' = pool_size (pl_pool s)" by blast
      have "r = Inr (s\<lparr>pl_pool := p', pl_mc := Mc_recv m\<rparr>)"
        using r e True Mc_allocate m(1) by (simp add: mc_do_def)
      then show ?thesis
        using m(2,3) Mc_allocate queues by (auto intro: fine_allocated [OF ok, of m] simp: in_use_def)
    next
      case False
      then show ?thesis using r queues Mc_allocate
        by (auto simp: mc_do_def in_use_def split: if_splits intro!: fine_same [OF ok])
    qed
  next
    case (Mc_recv m)
    then have idle [simp]: "sc_prod (pl_recvQ s) = PIdle" using mc_idle [OF queues] by simp
    have "fine s (give_back P m (s\<lparr>pl_mc := Mc_allocate\<rparr>))"
      by (rule fine_give_back [OF ok]) (simp_all add: in_use_def Mc_recv queues)
    then show ?thesis using r queues Mc_recv
      by (auto simp: mc_do_def in_use_def split: pl_event.splits intro!: fine_same [OF ok])
  next
    case (Mc_enqueue m)
    obtain answer q where q: "enqueue_access (Some m) (pl_recvQ s) = (answer, q)" by fastforce
    show ?thesis using r Mc_enqueue q mc_enqueue_fine [OF ok Mc_enqueue free q] by (auto simp: mc_do_def split: if_splits)
  qed (use r in \<open>simp add: mc_do_def\<close>)
qed

lemma seq_compare_fine:
  assumes ok: "pl_ok s" and at: "pl_seq s = Sq_compare m" and r: "seq_compare P e m s = Some r"
  shows "fine s r"
proof -
  have queues: "queues_ok s" using ok by (simp add: pl_ok_def)
  then have "fine s (give_back P m (s\<lparr>pl_seq := Sq_dequeue\<rparr>))"
    by (intro fine_give_back [OF ok]) (simp_all add: in_use_def at)
  moreover have "fine s (Inr (s\<lparr>pl_seq := Sq_poll m got num\<rparr>))" and "fine s (Inr (s\<lparr>pl_seq := Sq_send m\<rparr>))" for got num
    using queues by (auto simp: in_use_def at intro!: fine_same [OF ok])
  moreover have "fine s (Inl (Throw why))" for why by (simp add: fine_def)
  ultimately show ?thesis using r
    by (auto simp: seq_compare_def Let_def split: pl_event.splits if_splits)
qed

lemma seq_poll_fine:
  assumes ok: "pl_ok s" and at: "pl_seq s = Sq_poll m got num" and r: "seq_poll P e m got num s = Some r"
    and left: "asks_pool e s \<Longrightarrow> length (used s) < pool_size (pl_pool s)"
  shows "fine s r"
proof -
  have queues: "queues_ok s" using ok by (simp add: pl_ok_def)
  then have stay: "fine s (Inr s)" and send: "fine s (Inr (s\<lparr>pl_seq := Sq_send m\<rparr>))"
    by (auto simp: in_use_def at intro!: fine_same [OF ok])
  show ?thesis
  proof (cases "got < num \<and> e = Sq_runs")
    case True
    then have "length (used s) < pool_size (pl_pool s)" using left at by (simp add: asks_pool_def)
    from allocate_left [OF ok this] obtain x p' where x: "allocate_op P (pl_pool s) = Inr (Some x, p')"
        "pool.accounted (x # used s, p')" "pool_size p' = pool_size (pl_pool s)" by blast
    have "r = Inr (s\<lparr>pl_pool := p', pl_seq := Sq_recv m got num x\<rparr>)"
      using r True x(1) by (simp add: seq_poll_def)
    then show ?thesis
      using x(2,3) at queues by (auto intro: fine_allocated [OF ok, of x] simp: in_use_def)
  next
    case False
    then show ?thesis using r stay send
      by (auto simp: seq_poll_def split: pl_event.splits if_splits)
  qed
qed

lemma seq_recv_fine:
  assumes ok: "pl_ok s" and at: "pl_seq s = Sq_recv m got num x" and r: "seq_recv P enq e m got num x s = Some r"
  shows "fine s r"
proof -
  have queues: "queues_ok s" using ok by (simp add: pl_ok_def)
  then have "fine s (give_back P x (s\<lparr>pl_seq := pc\<rparr>))" if "seq_holds pc = [m]" for pc
    by (intro fine_give_back [OF ok]) (simp_all add: in_use_def at that)
  moreover have "fine s (Inr (send_next enq x (s\<lparr>pl_msg := c, pl_seq := Sq_poll m g num\<rparr>)))" for c g
    using queues by (intro fine_send_next [OF ok]) (simp_all add: in_use_def at)
  moreover have "fine s (Inl (Throw why))" for why by (simp add: fine_def)
  ultimately show ?thesis using r by (auto simp: seq_recv_def split: pl_event.splits)
qed

lemma seq_dequeue_fine:
  assumes ok: "pl_ok s" and at: "pl_seq s = Sq_dequeue" and d: "dequeue_access (pl_recvQ s) = (answer, q)"
  shows "fine s (Inr (s\<lparr>pl_recvQ := q, pl_seq := (case answer of Some (Some m) \<Rightarrow> Sq_compare m | _ \<Rightarrow> Sq_dequeue)\<rparr>))"
proof -
  have parts: "spsc_conc_inv (pl_recvQ s)" "None \<notin> set (spsc_contents (spsc_seen (pl_recvQ s)))" "mc_carries s"
      "qinv (pl_sendQ s)" "None \<notin> set (contents (pl_sendQ s))"
    using ok by (simp_all add: pl_ok_def queues_ok_def)
  note step = dequeue_access_ok [OF parts(1) d]
  from step(3) show ?thesis
  proof (elim disjE exE conjE)
    fix x assume x: "answer = Some x" "spsc_contents (spsc_seen (pl_recvQ s)) = x # spsc_contents (spsc_seen q)"
    with parts(2) obtain m where m: "x = Some m" by (cases x) auto
    show ?thesis
      using x parts step(1,2) unfolding m
      by (intro fine_same [OF ok]) (auto simp: queues_ok_def mc_carries_def in_use_def at)
  qed (use parts step(1,2) in \<open>auto simp: queues_ok_def mc_carries_def in_use_def at intro!: fine_same [OF ok]\<close>)
qed

lemma seq_do_fine:
  assumes ok: "pl_ok s" and left: "asks_pool e s \<Longrightarrow> length (used s) < pool_size (pl_pool s)"
    and r: "seq_do P enq e s = Some r"
  shows "fine s r"
proof -
  have queues: "queues_ok s" using ok by (simp add: pl_ok_def)
  then have idle: "fine s (Inr (s\<lparr>pl_seq := pc\<rparr>))" if "seq_holds pc = seq_holds (pl_seq s)" for pc
    by (auto simp: in_use_def that intro!: fine_same [OF ok])
  show ?thesis
  proof (cases "pl_seq s")
    case Sq_connect
    moreover have "fine s (Inl (Throw why))" for why by (simp add: fine_def)
    ultimately show ?thesis using r idle
      by (auto simp: seq_do_def recovery_connect_def Let_def split: pl_event.splits if_splits)
  next
    case Sq_dequeue
    obtain answer q where q: "dequeue_access (pl_recvQ s) = (answer, q)" by fastforce
    from r Sq_dequeue q have "r = Inr (s\<lparr>pl_seq := Sq_left\<rparr>) \<or>
        r = Inr (s\<lparr>pl_recvQ := q, pl_seq := (case answer of Some (Some m) \<Rightarrow> Sq_compare m | _ \<Rightarrow> Sq_dequeue)\<rparr>)"
      by (auto simp: seq_do_def split: if_splits)
    then show ?thesis using seq_dequeue_fine [OF ok Sq_dequeue q] idle Sq_dequeue by auto
  next
    case (Sq_send m)
    have "fine s (Inr (send_next enq m (s\<lparr>pl_seq := Sq_dequeue\<rparr>)))"
      using queues by (intro fine_send_next [OF ok]) (simp_all add: in_use_def Sq_send)
    then show ?thesis using r Sq_send by (auto simp: seq_do_def split: if_splits)
  qed (use r seq_compare_fine [OF ok] seq_poll_fine [OF ok _ _ left] seq_recv_fine [OF ok] in
      \<open>auto simp: seq_do_def\<close>)
qed

lemma pl_do_fine:
  assumes ok: "pl_ok s" and left: "asks_pool e s \<Longrightarrow> length (used s) < pool_size (pl_pool s)"
    and free: "\<not> spsc_overrun (pl_recvQ s)" and r: "pl_do P enq e s = Some r"
  shows "fine s r"
proof -
  have "fine s (Inr (s\<lparr>pl_seq_run := False\<rparr>))" and "fine s (Inr (s\<lparr>pl_mc_run := False\<rparr>))"
    using ok by (auto simp: pl_ok_def in_use_def intro!: fine_same [OF ok])
  then show ?thesis
    using r mc_do_fine [OF ok left free] seq_do_fine [OF ok left]
    by (auto simp: pl_do_def split: pl_event.splits option.splits)
qed

text \<open>
  A run either goes well, or ends with an exception, or asked for a message when all were in use;
  then the pool's answer decides.
\<close>

lemma pl_run_fine:
  assumes "pl_ok s" and "never_overrun P enq es s" and "pl_run P enq es s = Some r"
  shows "fine s r \<or> (\<exists>es1 e es2 s1. es = es1 @ e # es2 \<and> pl_run P enq es1 s = Some (Inr s1) \<and> pl_ok s1 \<and>
    pool_size (pl_pool s1) = pool_size (pl_pool s) \<and> asks_pool e s1 \<and> length (used s1) = pool_size (pl_pool s))"
  using assms
proof (induction es arbitrary: s)
  case Nil
  then show ?case by (auto simp: fine_def)
next
  case (Cons e es)
  show ?case
  proof (cases "asks_pool e s \<and> length (used s) = pool_size (pl_pool s)")
    case True
    with Cons.prems(1) show ?thesis by (intro disjI2 exI [of _ "[]"] exI [of _ e] exI [of _ es] exI [of _ s]) simp
  next
    case False
    then have left: "asks_pool e s \<Longrightarrow> length (used s) < pool_size (pl_pool s)"
      using accounted_length [of "used s" "pl_pool s"] Cons.prems(1) by (auto simp: pl_ok_def)
    obtain r1 where r1: "pl_do P enq e s = Some r1" using Cons.prems(3) by (auto split: option.splits)
    have "fine s r1" using pl_do_fine [OF Cons.prems(1) _ _ r1] left Cons.prems(2) by auto
    then show ?thesis unfolding fine_def [of s r1]
    proof (elim disjE exE conjE)
      fix why assume "r1 = Inl (Throw why)"
      then show ?thesis using r1 Cons.prems(3) by (auto simp: fine_def)
    next
      fix s1 assume s1: "r1 = Inr s1" "pl_ok s1" "pool_size (pl_pool s1) = pool_size (pl_pool s)"
      then have "never_overrun P enq es s1" "pl_run P enq es s1 = Some r" using r1 Cons.prems(2,3) by simp_all
      from Cons.IH [OF s1(2) this] show ?thesis unfolding s1(3)
      proof (elim disjE exE conjE)
        assume "fine s1 r"
        then show ?thesis using s1(3) by (auto simp: fine_def)
      next
        fix es1 e1 es2 s2
        assume "es = es1 @ e1 # es2" "pl_run P enq es1 s1 = Some (Inr s2)" "pl_ok s2"
          "pool_size (pl_pool s2) = pool_size (pl_pool s)" "asks_pool e1 s2" "length (used s2) = pool_size (pl_pool s)"
        then show ?thesis using r1 s1(1) by (intro disjI2 exI [of _ "e # es1"] exI [of _ e1] exI [of _ es2] exI [of _ s2]) simp
      qed
    qed
  qed
qed

end

interpretation rp: receiver_parts tsp_ops "\<lambda>p. set (tsp_stack p)" "\<lambda>p. length (tsp_next p)" tsp_good
    spsc_enqueue spsc_dequeue spsc_contents spsc_full spsc_inv
  by unfold_locales

subsection \<open>The program\<close>

lemma pl_new_ok:
  assumes "n < no_index" and "spsc_new c = Inr q"
  shows "rp.pl_ok (pl_new (tsp_new n) q q)" and "length (tsp_next (tsp_new n)) = n"
    and "in_use spsc_contents (pl_new (tsp_new n) q q) = []"
proof -
  show none: "in_use spsc_contents (pl_new (tsp_new n) q q) = []"
    using spsc_new_inv [OF assms(2)] by (simp add: pl_new_def in_use_def spsc_conc_init_def spsc_seen_def)
  have "rp.queues_ok (pl_new (tsp_new n) q q)"
    using spsc_new_inv [OF assms(2)] spsc_conc_init_inv [of q]
    by (auto simp: rp.queues_ok_def pl_new_def mc_carries_def spsc_conc_init_def spsc_seen_def)
  then show "rp.pl_ok (pl_new (tsp_new n) q q)"
    using tsp_new_accounted [OF assms(1)] none unfolding rp.pl_ok_def by (simp add: pl_new_def)
  show "length (tsp_next (tsp_new n)) = n" by (simp add: tsp_new_def)
qed

lemma receiver_main_run:
  "spsc_new c = Inr q \<Longrightarrow> receiver_main n c (Inr fd) es
    = pl_run tsp_ops spsc_enqueue es (pl_new (tsp_new n) q q)"
  by (simp add: receiver_main_def)

lemma used_up:
  assumes "rp.pl_ok s" and "length (in_use spsc_contents s) = length (tsp_next (pl_pool s))"
  shows "tsp_stack (pl_pool s) = []" and "tsp_good (pl_pool s)"
proof -
  let ?xs = "in_use spsc_contents s" and ?n = "length (tsp_next (pl_pool s))"
  have acc: "tsp_good (pl_pool s)" "distinct ?xs" "set ?xs \<inter> set (tsp_stack (pl_pool s)) = {}"
      "set ?xs \<union> set (tsp_stack (pl_pool s)) = {..<?n}"
    using assms(1) unfolding rp.pl_ok_def tsp.accounted_def prod.case by blast+
  have "set ?xs \<subseteq> {..<?n}" and "card (set ?xs) = card {..<?n}"
    using acc(4) distinct_card [OF acc(2)] assms(2) by (blast, simp)
  then have "set ?xs = {..<?n}" by (intro card_subset_eq) simp_all
  then have "set (tsp_stack (pl_pool s)) \<subseteq> set ?xs" unfolding acc(4) [symmetric] by (metis Un_upper2)
  then have "set (tsp_stack (pl_pool s)) = {}" using acc(3) by (metis inf.absorb2)
  then show "tsp_stack (pl_pool s) = []" and "tsp_good (pl_pool s)" using acc(1) by simp_all
qed

lemma used_up_asks:
  assumes "rp.pl_ok s" and "asks_pool e s" and "length (in_use spsc_contents s) = length (tsp_next (pl_pool s))"
  shows "pl_do tsp_ops spsc_enqueue e s = Some (Inl (UB OutOfBounds))"
proof -
  have alloc: "allocate_op tsp_ops (pl_pool s) = Inl (UB OutOfBounds)"
    using tsp_exhausted_out_of_bounds [OF used_up(2,1) [OF assms(1,3)]] by (simp add: tsp_ops_def)
  from assms(2) consider "e = Mc_runs" "pl_mc s = Mc_allocate" "pl_mc_run s"
    | m got num where "e = Sq_runs" "pl_seq s = Sq_poll m got num" "got < num"
    unfolding asks_pool_def by blast
  then show ?thesis
  proof cases
    case 1
    then show ?thesis using alloc by (simp add: pl_do_def mc_do_def)
  next
    case 2
    then have "mc_do tsp_ops e s = None" by (simp add: mc_do_def split: mc_pc.split)
    then show ?thesis using 2 alloc by (simp add: pl_do_def seq_do_def seq_poll_def)
  qed
qed

lemma pl_run_append:
  "pl_run P enq (es1 @ es2) s = (case pl_run P enq es1 s of
     Some (Inr s1) \<Rightarrow> pl_run P enq es2 s1 | r \<Rightarrow> r)"
  by (induction es1 arbitrary: s) (auto split: option.split sum.split)

text \<open>
  Claim C32.  The receiver keeps count of its messages as long as the multicast thread does not
  overrun the sequencer's thread: in every interleaving of the two threads, accesses inside
  \<open>enqueue\<close> and \<open>dequeue\<close> of the queue between them included, and whatever the network does, if the
  multicast thread never comes to write the cell that a \<open>dequeue\<close> has claimed and not yet read, then
  as long as the program runs each message of the pool is in exactly one place: free, in a thread's
  hands, in one of the two queues, or forgotten because a full queue refused it.  It can only end
  with an exception or, once all messages are in use and a thread asks for one more, with an access
  out of bounds.  The code does not exclude the overrun: \<open>receiver_overrun_loses\<close> has a run with it,
  after which one message is gone and another is in two places.
\<close>

theorem receiver_accounts:
  assumes "n < no_index" and "receiver_main n c (Inr fd) events = Some r" and "receiver_never_overruns n c events"
  shows "(\<exists>s. r = Inr s \<and> distinct (in_use spsc_contents s) \<and>
      set (in_use spsc_contents s) \<inter> set (tsp_stack (pl_pool s)) = {} \<and>
      set (in_use spsc_contents s) \<union> set (tsp_stack (pl_pool s)) = {..<n}) \<or>
    (\<exists>why. r = Inl (Throw why)) \<or>
    r = Inl (UB OutOfBounds) \<and> (\<exists>es1 e es2 s. events = es1 @ e # es2 \<and> asks_pool e s \<and>
      receiver_main n c (Inr fd) es1 = Some (Inr s) \<and> length (in_use spsc_contents s) = n)"
proof (cases "spsc_new c :: nat spsc res")
  case (Inl err)
  then show ?thesis using assms(2) by (auto simp: receiver_main_def spsc_new_def Let_def split: if_splits)
next
  case (Inr q)
  note run = receiver_main_run [OF Inr] and new = pl_new_ok [OF assms(1) Inr]
  have len: "length (tsp_next (pl_pool (pl_new (tsp_new n) q q))) = n" using new(2) by (simp add: pl_new_def)
  have free: "never_overrun tsp_ops spsc_enqueue events (pl_new (tsp_new n) q q)"
    using assms(3) Inr by (simp add: receiver_never_overruns_def)
  note fine = rp.pl_run_fine [OF new(1) free assms(2) [unfolded run], unfolded len rp.fine_def]
  from fine show ?thesis
  proof (elim disjE exE conjE)
    fix s assume "r = Inr s" "rp.pl_ok s" "length (tsp_next (pl_pool s)) = n"
    then show ?thesis unfolding rp.pl_ok_def tsp.accounted_def prod.case by blast
  next
    fix es1 e es2 s
    assume es: "events = es1 @ e # es2"
      and s: "pl_run tsp_ops spsc_enqueue es1 (pl_new (tsp_new n) q q) = Some (Inr s)" "rp.pl_ok s"
        "length (tsp_next (pl_pool s)) = n" "asks_pool e s" "length (in_use spsc_contents s) = n"
    have "pl_do tsp_ops spsc_enqueue e s = Some (Inl (UB OutOfBounds))"
      using used_up_asks [OF s(2,4)] s(3,5) by simp
    then have "r = Inl (UB OutOfBounds)"
      using assms(2) s(1) unfolding run es by (simp add: pl_run_append)
    then show ?thesis using es s(1,4,5) unfolding run by blast
  qed blast
qed

subsection \<open>A quiet day\<close>

text \<open>
  The multicast delivers the messages in order, one by one, and the sequencer passes each on before
  the next one comes.  The four accesses of \<open>enqueue\<close> and the four of \<open>dequeue\<close> follow one another.
\<close>

definition deliver :: "trade \<Rightarrow> pl_event list" where
  "deliver t = [Mc_runs, Mc_datagram t] @ replicate 4 Mc_runs @ replicate 4 Sq_runs @ [Sq_runs, Sq_runs]"

definition queue_idle :: "nat spsc_conc \<Rightarrow> bool" where
  "queue_idle q \<longleftrightarrow> sc_prod q = PIdle \<and> sc_cons q = CIdle \<and> spsc_contents (sc_q q) = []"

definition calm :: "nat \<Rightarrow> u64 \<Rightarrow> nat \<Rightarrow> (tsp, nat spsc) pipeline \<Rightarrow> bool" where
  "calm n c k s \<longleftrightarrow> rp.pl_ok s \<and> length (tsp_next (pl_pool s)) = n \<and> pl_mc s = Mc_allocate \<and> pl_seq s = Sq_dequeue \<and>
     pl_mc_run s \<and> pl_seq_run s \<and> queue_idle (pl_recvQ s) \<and> pl_next s = of_nat k \<and>
     spsc_capacity (pl_sendQ s) = c \<and> length (spsc_contents (pl_sendQ s)) = min k (unat c) \<and>
     length (pl_lost s) = k - min k (unat c)"

lemma calm_in_use: "calm n c k s \<Longrightarrow> length (in_use spsc_contents s) = k"
  by (simp add: calm_def queue_idle_def in_use_def spsc_seen_def del: spsc_length_contents)

text \<open>A ring that is empty takes a message and gives it back.\<close>

lemma queue_through:
  assumes inv: "spsc_conc_inv s" and idle: "queue_idle s"
  obtains s1 s2 s3 s4 s5 s6 s7 s8 where "enqueue_access (Some m) s = (None, s1)" and "enqueue_access (Some m) s1 = (None, s2)"
    and "enqueue_access (Some m) s2 = (None, s3)" and "enqueue_access (Some m) s3 = (Some True, s4)"
    and "dequeue_access s4 = (None, s5)" and "dequeue_access s5 = (None, s6)" and "dequeue_access s6 = (None, s7)"
    and "dequeue_access s7 = (Some (Some m), s8)" and "spsc_conc_inv s8" and "queue_idle s8"
proof -
  let ?q = "sc_q s" and ?p = "Some m"
  let ?t = "spsc_tail ?q" and ?slot = "unat (spsc_tail ?q AND spsc_mask ?q)"
  have at: "sc_prod s = PIdle" "sc_cons s = CIdle" "spsc_head ?q = ?t"
    using idle by (simp_all add: queue_idle_def spsc_contents_Nil_iff)
  have q: "spsc_inv ?q" by (rule spsc_inner_inv [OF inv])
  have room: "\<not> spsc_capacity ?q < ?t + 1 - spsc_head ?q"
    using spsc_enqueue_guard [OF q] spsc_capacity_bound(2) [OF q] at(3) by (auto simp: spsc_full_def)
  define s1 where "s1 = s\<lparr>sc_prod := PCheck ?p ?t\<rparr>"
  define s2 where "s2 = s\<lparr>sc_prod := PWrite ?p ?t\<rparr>"
  define s3 where "s3 = s\<lparr>sc_q := ?q\<lparr>spsc_buffer := (spsc_buffer ?q)[?slot := ?p]\<rparr>, sc_prod := PStore ?p ?t\<rparr>"
  define s4 where "s4 = s3\<lparr>sc_q := (sc_q s3)\<lparr>spsc_tail := ?t + 1\<rparr>, sc_prod := PIdle, sc_sent := sc_sent s @ [?p]\<rparr>"
  define s5 where "s5 = s4\<lparr>sc_cons := CCheck ?t\<rparr>"
  define s6 where "s6 = s4\<lparr>sc_cons := CFetch\<rparr>"
  define s7 where "s7 = s4\<lparr>sc_q := (sc_q s4)\<lparr>spsc_head := ?t + 1\<rparr>, sc_cons := CRead ?t\<rparr>"
  define s8 where "s8 = s7\<lparr>sc_cons := CIdle, sc_recv := sc_recv s @ [?p]\<rparr>"
  note defs = s1_def s2_def s3_def s4_def s5_def s6_def s7_def s8_def
  have e: "enqueue_access ?p s = (None, s1)" "enqueue_access ?p s1 = (None, s2)" "enqueue_access ?p s2 = (None, s3)"
      "enqueue_access ?p s3 = (Some True, s4)"
    using at(1) room by (simp_all add: enqueue_access_def defs)
  have d: "dequeue_access s4 = (None, s5)" "dequeue_access s5 = (None, s6)" "dequeue_access s6 = (None, s7)"
      "dequeue_access s7 = (Some ?p, s8)"
    using at(2,3) spsc_slot(2) [OF q, of ?t] by (simp_all add: dequeue_access_def defs)
  have free: "\<not> spsc_overrun s1" "\<not> spsc_overrun s2" "\<not> spsc_overrun s3" "\<not> spsc_overrun s"
    using at(2) by (simp_all add: spsc_overrun_def defs split: prod_pc.split)
  have "spsc_conc_inv s1" by (rule enqueue_access_ok(1) [OF inv free(4) _ e(1)]) (simp add: at)
  then have "spsc_conc_inv s2" by (rule enqueue_access_ok(1) [OF _ free(1) _ e(2)]) (simp add: s1_def)
  then have "spsc_conc_inv s3" by (rule enqueue_access_ok(1) [OF _ free(2) _ e(3)]) (simp add: s2_def)
  then have "spsc_conc_inv s4" by (rule enqueue_access_ok(1) [OF _ free(3) _ e(4)]) (simp add: s3_def)
  then have "spsc_conc_inv s8"
    using dequeue_access_ok(1) d by blast
  moreover have "queue_idle s8" using at by (simp add: queue_idle_def defs spsc_contents_Nil_iff)
  ultimately show thesis using e d that by blast
qed

text \<open>A ring that nobody empties fills up and then refuses.\<close>

lemma spsc_fills:
  assumes "spsc_inv q" and "spsc_enqueue p q = (b, q')" and "length (spsc_contents q) = min k (unat (spsc_capacity q))"
  shows "b \<longleftrightarrow> k < unat (spsc_capacity q)" and "spsc_inv q'" and "spsc_capacity q' = spsc_capacity q"
    and "length (spsc_contents q') = min (Suc k) (unat (spsc_capacity q))"
proof -
  have full: "spsc_full q \<longleftrightarrow> \<not> k < unat (spsc_capacity q)"
    using assms(3) by (auto simp: spsc_full_def simp del: spsc_length_contents)
  show b: "b \<longleftrightarrow> k < unat (spsc_capacity q)" and "spsc_inv q'"
    using spsc.enq_accepts_iff [OF assms(1), of p] spsc.enq_inv [OF assms(1), of p] assms(2) full by simp_all
  show "spsc_capacity q' = spsc_capacity q"
    using assms(2) by (auto simp: spsc_enqueue_def Let_def split: if_splits)
  have "spsc_contents q' = spsc_contents q @ (if b then [p] else [])"
    using spsc.enq_contents [OF assms(1), of p] assms(2) by simp
  then show "length (spsc_contents q') = min (Suc k) (unat (spsc_capacity q))"
    using b assms(3) by (simp add: min_def del: spsc_length_contents split: if_splits)
qed

lemma deliver_run:
  assumes "allocate_op P (pl_pool s) = Inr (Some m, p')"
    and "enqueue_access (Some m) (pl_recvQ s) = (None, s1)" and "enqueue_access (Some m) s1 = (None, s2)"
    and "enqueue_access (Some m) s2 = (None, s3)" and "enqueue_access (Some m) s3 = (Some True, s4)"
    and "dequeue_access s4 = (None, s5)" and "dequeue_access s5 = (None, s6)" and "dequeue_access s6 = (None, s7)"
    and "dequeue_access s7 = (Some (Some m), s8)" and "enq (Some m) (pl_sendQ s) = (b, q')"
    and "pl_mc s = Mc_allocate" and "pl_seq s = Sq_dequeue" and "pl_mc_run s" and "pl_seq_run s"
    and "sequence_number t = pl_next s"
  shows "pl_run P enq (deliver t) s = Some (Inr (s\<lparr>pl_pool := p', pl_msg := (pl_msg s)(m := t),
    pl_recvQ := s8, pl_sendQ := q', pl_next := pl_next s + 1,
    pl_lost := (if b then pl_lost s else pl_lost s @ [m])\<rparr>))"
  using assms
  by (cases s) (simp add: deliver_def numeral_eq_Suc pl_do_def mc_do_def seq_do_def seq_compare_def send_next_def forget_unless_def Let_def)

lemma deliver_calm:
  assumes calm: "calm n c k s" and "k < n" and t: "sequence_number t = of_nat k"
  shows "\<exists>s'. pl_run tsp_ops spsc_enqueue (deliver t) s = Some (Inr s') \<and> calm n c (Suc k) s'"
proof -
  have ok: "rp.pl_ok s" and len: "length (tsp_next (pl_pool s)) = n" and c: "spsc_capacity (pl_sendQ s) = c"
    and at: "pl_mc s = Mc_allocate" "pl_seq s = Sq_dequeue" "pl_mc_run s" "pl_seq_run s" "sequence_number t = pl_next s"
    and idle: "queue_idle (pl_recvQ s)" and nxt: "pl_next s = of_nat k"
    and sent: "length (spsc_contents (pl_sendQ s)) = min k (unat (spsc_capacity (pl_sendQ s)))"
    and lost: "length (pl_lost s) = k - min k (unat c)"
    using calm t by (simp_all add: calm_def)
  have inv: "spsc_conc_inv (pl_recvQ s)" "spsc_inv (pl_sendQ s)" "None \<notin> set (spsc_contents (pl_sendQ s))"
    using ok by (simp_all add: rp.pl_ok_def rp.queues_ok_def)
  obtain m p' where m: "allocate_op tsp_ops (pl_pool s) = Inr (Some m, p')"
      "tsp.accounted (m # in_use spsc_contents s, p')" "length (tsp_next p') = n"
    using rp.allocate_left [OF ok] calm_in_use [OF calm] len assms(2) by auto
  from queue_through [OF inv(1) idle, of m] obtain s1 s2 s3 s4 s5 s6 s7 s8 where
    q: "enqueue_access (Some m) (pl_recvQ s) = (None, s1)" "enqueue_access (Some m) s1 = (None, s2)"
      "enqueue_access (Some m) s2 = (None, s3)" "enqueue_access (Some m) s3 = (Some True, s4)"
      "dequeue_access s4 = (None, s5)" "dequeue_access s5 = (None, s6)" "dequeue_access s6 = (None, s7)"
      "dequeue_access s7 = (Some (Some m), s8)"
    and s8: "spsc_conc_inv s8" "queue_idle s8" .
  obtain b q' where q': "spsc_enqueue (Some m) (pl_sendQ s) = (b, q')" by fastforce
  note fills = spsc_fills [OF inv(2) q' sent] and moved = rp.enq_moves [OF inv(2,3) q']
  let ?s = "s\<lparr>pl_pool := p', pl_msg := (pl_msg s)(m := t), pl_recvQ := s8, pl_sendQ := q',
    pl_next := pl_next s + 1, pl_lost := (if b then pl_lost s else pl_lost s @ [m])\<rparr>"
  have "mset (m # in_use spsc_contents s) = mset (in_use spsc_contents ?s)"
    using moved(3) s8(2) idle at by (auto simp: in_use_def queue_idle_def spsc_seen_def split: if_splits)
  then have "tsp.accounted (in_use spsc_contents ?s, p')" by (rule rp.accounted_mset [OF m(2)])
  then have "rp.pl_ok ?s" using s8 moved(1,2)
    by (simp add: rp.pl_ok_def rp.queues_ok_def mc_carries_def queue_idle_def spsc_seen_def)
  moreover have "length (pl_lost ?s) = Suc k - min (Suc k) (unat c)" using fills(1) lost c by auto
  ultimately have "calm n c (Suc k) ?s"
    using at m(3) s8(2) fills(3,4) c nxt by (simp add: calm_def add.commute del: spsc_length_contents)
  with deliver_run [where enq = spsc_enqueue, OF m(1) q q' at] show ?thesis by blast
qed

definition numbered_trade :: "trade \<Rightarrow> nat \<Rightarrow> trade" where
  "numbered_trade t k = t\<lparr>sequence_number := of_nat k\<rparr>"

text \<open>The recovery connection is made at the first try; then \<open>k\<close> messages come in order.\<close>

definition quiet_day :: "trade \<Rightarrow> nat \<Rightarrow> pl_event list" where
  "quiet_day t k = Sq_connects 3 0 1 [0] # concat (map (\<lambda>k. deliver (numbered_trade t k)) [0..<k])"

lemma calm_start:
  assumes "n < no_index" and "spsc_new c = Inr q"
  shows "\<exists>s. pl_run tsp_ops spsc_enqueue [Sq_connects 3 0 1 [0]] (pl_new (tsp_new n) q q) = Some (Inr s) \<and>
    calm n c 0 s"
proof -
  let ?s = "(pl_new (tsp_new n) q q)\<lparr>pl_seq := Sq_dequeue\<rparr>"
  have "pl_run tsp_ops spsc_enqueue [Sq_connects 3 0 1 [0]] (pl_new (tsp_new n) q q) = Some (Inr ?s)"
    by (simp add: pl_do_def mc_do_def seq_do_def pl_new_def recovery_connect_def)
  moreover have "rp.pl_ok ?s" using pl_new_ok(1) [OF assms]
    by (simp add: rp.pl_ok_def in_use_def pl_new_def rp.queues_ok_def mc_carries_def)
  then have "calm n c 0 ?s"
    using spsc_new_inv [OF assms(2)] pl_new_ok(2) [OF assms] 
    by (simp add: calm_def queue_idle_def pl_new_def spsc_conc_init_def del: spsc_length_contents)
  ultimately show ?thesis by blast
qed

lemma quiet_day_calm:
  assumes "n < no_index" and "spsc_new c = Inr q" and "k \<le> n"
  shows "\<exists>s. pl_run tsp_ops spsc_enqueue (quiet_day t k) (pl_new (tsp_new n) q q) = Some (Inr s) \<and> calm n c k s"
  using assms(3)
proof (induction k)
  case 0
  then show ?case using calm_start [OF assms(1,2)] by (simp add: quiet_day_def)
next
  case (Suc k)
  then obtain s where s: "pl_run tsp_ops spsc_enqueue (quiet_day t k) (pl_new (tsp_new n) q q) = Some (Inr s)"
      "calm n c k s" by auto
  from deliver_calm [OF s(2), of "numbered_trade t k"] Suc.prems obtain s' where
    "pl_run tsp_ops spsc_enqueue (deliver (numbered_trade t k)) s = Some (Inr s')" "calm n c (Suc k) s'"
    by (auto simp: numbered_trade_def)
  moreover have "quiet_day t (Suc k) = quiet_day t k @ deliver (numbered_trade t k)" by (simp add: quiet_day_def)
  ultimately show ?case using s(1) by (auto simp: pl_run_append)
qed

text \<open>
  Claim C33.  Nothing in the receiver's program takes messages out of its send queue.  On the
  quietest of days, when all messages arrive in order, the queue fills, every later message is
  refused by it and forgotten, and after as many messages as the pool has the multicast thread
  reads outside the pool's vector, whatever the capacity of the queues.
\<close>

theorem receiver_runs_dry:
  assumes "n < no_index" and "pow2_capacity c" and "k \<le> n"
  shows "(\<exists>s. receiver_main n c (Inr fd) (quiet_day t k) = Some (Inr s) \<and>
      length (spsc_contents (pl_sendQ s)) = min k (unat c) \<and> length (pl_lost s) = k - min k (unat c)) \<and>
    receiver_main n c (Inr fd) (quiet_day t n @ [Mc_runs]) = Some (Inl (UB OutOfBounds))"
proof -
  obtain q :: "nat spsc" where q: "spsc_new c = Inr q" using assms(2) spsc_new_Inr_iff by blast
  note run = receiver_main_run [OF q]
  obtain s where s: "receiver_main n c (Inr fd) (quiet_day t k) = Some (Inr s)" "calm n c k s"
    using quiet_day_calm [OF assms(1) q assms(3)] unfolding run by blast
  obtain s' where s': "receiver_main n c (Inr fd) (quiet_day t n) = Some (Inr s')" "calm n c n s'"
    using quiet_day_calm [OF assms(1) q order_refl] unfolding run by blast
  have "pl_do tsp_ops spsc_enqueue Mc_runs s' = Some (Inl (UB OutOfBounds))"
    using s'(2) calm_in_use [OF s'(2)] by (intro used_up_asks) (simp_all add: calm_def asks_pool_def)
  then have "receiver_main n c (Inr fd) (quiet_day t n @ [Mc_runs]) = Some (Inl (UB OutOfBounds))"
    using s'(1) unfolding run by (simp add: pl_run_append)
  then show ?thesis using s by (auto simp: calm_def simp del: spsc_length_contents)
qed

lemma receiver_runs_dry_witness:
  "receiver_main 3 2 (Inr 4) (quiet_day no_trade 3 @ [Mc_runs]) = Some (Inl (UB OutOfBounds)) \<and>
   (\<exists>s. receiver_main 3 2 (Inr 4) (quiet_day no_trade 3) = Some (Inr s) \<and> length (pl_lost s) = 1)"
proof -
  have "pow2_capacity (2 :: u64)" by (simp add: pow2_capacity_def)
  from receiver_runs_dry [OF _ this, of 3 3 4 no_trade] show ?thesis by (auto simp: no_index_def)
qed

text \<open>The quiet day of one message overruns nothing.\<close>

lemma queue_of_two: "spsc_new 2 = Inr (spsc_demo 2)"
  by (simp add: spsc_new_def spsc_demo_def)

lemma quiet_day_never_overruns: "receiver_never_overruns 3 2 (quiet_day no_trade 1)"
  by code_simp

lemma receiver_accounts_witness:
  "\<exists>s. receiver_main 3 2 (Inr 4) (quiet_day no_trade 1) = Some (Inr s) \<and> distinct (in_use spsc_contents s) \<and>
    set (in_use spsc_contents s) \<union> set (tsp_stack (pl_pool s)) = {..<3}"
proof -
  obtain s where "receiver_main 3 2 (Inr 4) (quiet_day no_trade 1) = Some (Inr s)"
    using quiet_day_calm [OF _ queue_of_two, of 3 1 no_trade] unfolding receiver_main_run [OF queue_of_two]
    by (auto simp: no_index_def)
  with receiver_accounts [OF _ this quiet_day_never_overruns] show ?thesis by (auto simp: no_index_def)
qed

text \<open>
  An overrun: with queues of one message, the sequencer's thread has claimed the message \<open>0\<close> when the
  multicast thread puts the next one, \<open>1\<close>, in its cell.  The sequencer then gets \<open>1\<close>, which is
  still in the queue; \<open>0\<close> is no longer in use, and nobody has given it back.
\<close>

definition overrun_day :: "trade \<Rightarrow> pl_event list" where
  "overrun_day t = Sq_connects 3 0 1 [0] # [Mc_runs, Mc_datagram t] @ replicate 4 Mc_runs @ replicate 3 Sq_runs @
     [Mc_runs, Mc_datagram t] @ replicate 4 Mc_runs @ [Sq_runs]"

lemma receiver_overrun_loses:
  "case receiver_main 3 1 (Inr 4) (overrun_day no_trade) of
     Some (Inr s) \<Rightarrow> in_use spsc_contents s = [1, 1] \<and> pl_lost s = [] | _ \<Rightarrow> False"
  by code_simp

end
