(* ===== verification/Sockets.thy ===== *)
theory Sockets
  imports Prelude "HOL-Library.Multiset"
begin

text \<open>
  The class \<open>Socket\<close> of \<^verbatim>\<open>HFT/Socket.hpp\<close>: an object that owns a file descriptor.  The state is
  the live objects with their \<open>sockfd_\<close>, the descriptors open in the process, and the log of calls
  of \<open>close\<close>.  A client program is a sequence of constructions, moves and destructions, and of system
  calls that open a descriptor; it uses only live objects, which is what C++ scoping gives, and the
  kernel only hands out descriptors that are not open.
\<close>

record sockets =
  sockfd :: "nat \<Rightarrow> int option"
  kernel :: "int set"
  closed :: "int list"

definition close_fd :: "int \<Rightarrow> sockets \<Rightarrow> sockets" where
  "close_fd fd h = h\<lparr>kernel := kernel h - {fd}, closed := closed h @ [fd]\<rparr>"

text \<open>
  \<open>Opens fd\<close> is a call of the client such as \<open>accept\<close> or \<open>epoll_create1\<close>.  \<open>Socket_new v fd\<close> is the
  constructor that calls \<open>socket\<close>, with the result \<open>fd\<close>; \<open>Socket_fd v fd\<close> is the one that takes any
  number.
\<close>

datatype socket_op =
    Opens int
  | Socket_new nat int
  | Socket_fd nat int
  | Move_construct nat nat
  | Move_assign nat nat
  | Destroy nat

text \<open>\<open>std::exchange(other.sockfd_, -1)\<close> in the two moves; a move to itself does nothing.\<close>

fun socket_do :: "socket_op \<Rightarrow> sockets \<Rightarrow> sockets option" where
  "socket_do (Opens fd) h =
     (if 0 \<le> fd \<and> fd \<notin> kernel h then Some (h\<lparr>kernel := insert fd (kernel h)\<rparr>) else None)"
| "socket_do (Socket_new v fd) h =
     (if sockfd h v = None \<and> fd \<notin> kernel h
      then Some (h\<lparr>sockfd := (sockfd h)(v \<mapsto> fd), kernel := (if 0 \<le> fd then insert fd (kernel h) else kernel h)\<rparr>)
      else None)"
| "socket_do (Socket_fd v fd) h =
     (if sockfd h v = None then Some (h\<lparr>sockfd := (sockfd h)(v \<mapsto> fd)\<rparr>) else None)"
| "socket_do (Move_construct v other) h = (case (sockfd h v, sockfd h other) of
     (None, Some fd) \<Rightarrow> Some (h\<lparr>sockfd := (sockfd h)(other \<mapsto> - 1, v \<mapsto> fd)\<rparr>)
   | _ \<Rightarrow> None)"
| "socket_do (Move_assign v other) h = (case (sockfd h v, sockfd h other) of
     (Some old, Some fd) \<Rightarrow> Some
       (if v \<noteq> other
        then let h' = (if 0 \<le> old then close_fd old h else h)
             in h'\<lparr>sockfd := (sockfd h)(other \<mapsto> - 1, v \<mapsto> fd)\<rparr>
        else h)
   | _ \<Rightarrow> None)"
| "socket_do (Destroy v) h = (case sockfd h v of
     Some fd \<Rightarrow> Some ((if 0 \<le> fd then close_fd fd h else h)\<lparr>sockfd := (sockfd h)(v := None)\<rparr>)
   | None \<Rightarrow> None)"

fun socket_run :: "socket_op list \<Rightarrow> sockets \<Rightarrow> sockets option" where
  "socket_run [] h = Some h"
| "socket_run (op # ops) h = (case socket_do op h of None \<Rightarrow> None | Some h' \<Rightarrow> socket_run ops h')"

definition no_sockets :: sockets where
  "no_sockets = \<lparr>sockfd = (\<lambda>_. None), kernel = {}, closed = []\<rparr>"

text \<open>
  The class cannot tell whether the number it is given is its own to close.  What the client has to
  see to: a descriptor handed to \<open>Socket(int)\<close> is open and in no other \<open>Socket\<close>, or negative.
\<close>

fun adopts_free :: "socket_op \<Rightarrow> sockets \<Rightarrow> bool" where
  "adopts_free (Socket_fd v fd) h \<longleftrightarrow> fd < 0 \<or> (fd \<in> kernel h \<and> (\<forall>u. sockfd h u \<noteq> Some fd))"
| "adopts_free _ h \<longleftrightarrow> True"

fun client_ok :: "socket_op list \<Rightarrow> sockets \<Rightarrow> bool" where
  "client_ok [] h \<longleftrightarrow> True"
| "client_ok (op # ops) h \<longleftrightarrow> adopts_free op h \<and>
     (case socket_do op h of None \<Rightarrow> True | Some h' \<Rightarrow> client_ok ops h')"

text \<open>The descriptors that objects took over, in order; the kernel may hand out the same one again.\<close>

fun adopted :: "socket_op list \<Rightarrow> int list" where
  "adopted [] = []"
| "adopted (Socket_new v fd # ops) = (if 0 \<le> fd then fd # adopted ops else adopted ops)"
| "adopted (Socket_fd v fd # ops) = (if 0 \<le> fd then fd # adopted ops else adopted ops)"
| "adopted (_ # ops) = adopted ops"

subsection \<open>Ownership\<close>

text \<open>A descriptor in an object is open, and in that object only.\<close>

definition owned :: "sockets \<Rightarrow> bool" where
  "owned h \<longleftrightarrow> (\<forall>v fd. 0 \<le> fd \<longrightarrow> sockfd h v = Some fd \<longrightarrow> fd \<in> kernel h \<and> (\<forall>u. sockfd h u = Some fd \<longrightarrow> u = v))"

lemma ownedD: "owned h \<Longrightarrow> 0 \<le> fd \<Longrightarrow> sockfd h v = Some fd \<Longrightarrow> fd \<in> kernel h"
  "owned h \<Longrightarrow> 0 \<le> fd \<Longrightarrow> sockfd h v = Some fd \<Longrightarrow> sockfd h u = Some fd \<Longrightarrow> u = v"
  unfolding owned_def by blast+

abbreviation holds_fd :: "sockets \<Rightarrow> int \<Rightarrow> bool" where
  "holds_fd h fd \<equiv> \<exists>v. sockfd h v = Some fd"

text \<open>
  One operation: it closes only what is open, ownership is kept, and the books balance: what objects
  held or take over they still hold, or it is closed.
\<close>

definition balanced :: "socket_op \<Rightarrow> sockets \<Rightarrow> sockets \<Rightarrow> bool" where
  "balanced op h h' \<longleftrightarrow> owned h' \<and> (\<exists>cs. closed h' = closed h @ cs \<and> set cs \<subseteq> kernel h \<and> distinct cs \<and>
     set cs \<inter> kernel h' = {} \<and> (\<forall>fd \<in> set cs. 0 \<le> fd) \<and>
     (\<forall>fd. 0 \<le> fd \<longrightarrow> count_list cs fd + of_bool (holds_fd h' fd) = of_bool (holds_fd h fd) + count_list (adopted [op]) fd))"

lemma balanced_no_close:
  assumes "owned h'" and "closed h' = closed h"
    and "\<And>fd. 0 \<le> fd \<Longrightarrow> of_bool (holds_fd h' fd) = of_bool (holds_fd h fd) + count_list (adopted [op]) fd"
  shows "balanced op h h'"
  using assms unfolding balanced_def by (intro conjI exI [of _ "[]"]) simp_all

lemma balanced_close:
  assumes "owned h'" and "closed h' = closed h @ [old]" and "0 \<le> old" and "old \<in> kernel h" and "old \<notin> kernel h'"
    and "\<And>fd. 0 \<le> fd \<Longrightarrow> of_bool (old = fd) + of_bool (holds_fd h' fd) = of_bool (holds_fd h fd) + count_list (adopted [op]) fd"
  shows "balanced op h h'"
proof -
  have "count_list [old] fd = of_bool (old = fd)" for fd by simp
  with assms show ?thesis
    unfolding balanced_def by (intro conjI exI [of _ "[old]"]) (simp_all del: count_list.simps)
qed

lemma construct_balanced:
  assumes own: "owned h" and free: "adopts_free (Socket_fd v fd) h"
    and step: "socket_do (Socket_fd v fd) h = Some h'"
  shows "balanced (Socket_fd v fd) h h'"
proof -
  have h': "h' = h\<lparr>sockfd := (sockfd h)(v \<mapsto> fd)\<rparr>" and v: "sockfd h v = None"
    using step by (auto split: if_splits)
  have "owned h'"
    using own free unfolding owned_def h' by (auto simp: fun_upd_def)
  moreover have "holds_fd h' x \<longleftrightarrow> x = fd \<or> holds_fd h x" for x
    using v by (auto simp: h') (metis option.distinct(1))
  ultimately show ?thesis using free by (intro balanced_no_close) (auto simp: h')
qed

lemma new_balanced:
  assumes own: "owned h" and step: "socket_do (Socket_new v fd) h = Some h'"
  shows "balanced (Socket_new v fd) h h'"
proof -
  have h': "h' = h\<lparr>sockfd := (sockfd h)(v \<mapsto> fd), kernel := (if 0 \<le> fd then insert fd (kernel h) else kernel h)\<rparr>"
    and v: "sockfd h v = None" "fd \<notin> kernel h"
    using step by (auto split: if_splits)
  have free: "\<not> holds_fd h fd" if "0 \<le> fd" using ownedD(1) [OF own that] v(2) by blast
  have "owned h'"
    using own free unfolding owned_def h' by (auto simp: fun_upd_def)
  moreover have "holds_fd h' x \<longleftrightarrow> x = fd \<or> holds_fd h x" for x
    using v by (auto simp: h') (metis option.distinct(1))
  ultimately show ?thesis using free by (intro balanced_no_close) (auto simp: h')
qed

text \<open>A move changes the owner and not what is held.\<close>

lemma moved_holds:
  assumes "sockfd h other = Some fd" and "v \<noteq> other" and "0 \<le> x"
  shows "(\<exists>u. ((sockfd h)(other \<mapsto> - 1, v \<mapsto> fd)) u = Some x) \<longleftrightarrow> x = fd \<or> (\<exists>u. u \<noteq> v \<and> sockfd h u = Some x)"
proof
  assume "\<exists>u. ((sockfd h)(other \<mapsto> - 1, v \<mapsto> fd)) u = Some x"
  then obtain u where u: "((sockfd h)(other \<mapsto> - 1, v \<mapsto> fd)) u = Some x" ..
  show "x = fd \<or> (\<exists>u. u \<noteq> v \<and> sockfd h u = Some x)"
    using u assms(3) by (cases "u = v"; cases "u = other") auto
next
  assume "x = fd \<or> (\<exists>u. u \<noteq> v \<and> sockfd h u = Some x)"
  then consider "x = fd" | u where "u \<noteq> v" "sockfd h u = Some x" "x \<noteq> fd" by blast
  then show "\<exists>u. ((sockfd h)(other \<mapsto> - 1, v \<mapsto> fd)) u = Some x"
  proof cases
    case 1
    then show ?thesis by (intro exI [of _ v]) simp
  next
    case (2 u)
    then have "u \<noteq> other" using assms(1) by auto
    with 2 show ?thesis by (intro exI [of _ u]) simp
  qed
qed

lemma move_construct_balanced:
  assumes own: "owned h" and step: "socket_do (Move_construct v other) h = Some h'"
  shows "balanced (Move_construct v other) h h'"
proof -
  obtain fd where v: "sockfd h v = None" "sockfd h other = Some fd"
    and h': "h' = h\<lparr>sockfd := (sockfd h)(other \<mapsto> - 1, v \<mapsto> fd)\<rparr>"
    using step by (auto split: option.splits)
  have ne: "v \<noteq> other" using v by auto
  have "owned h'"
    using own v ne unfolding owned_def h' by (auto simp: fun_upd_def split: if_splits)
  moreover have "holds_fd h' x \<longleftrightarrow> holds_fd h x" if "0 \<le> x" for x
  proof -
    have "holds_fd h' x \<longleftrightarrow> x = fd \<or> (\<exists>u. u \<noteq> v \<and> sockfd h u = Some x)"
      using moved_holds [OF v(2) ne that] by (simp add: h')
    then show ?thesis using v by (metis option.distinct(1) option.inject)
  qed
  ultimately show ?thesis by (intro balanced_no_close) (simp_all add: h')
qed

lemma move_assign_balanced:
  assumes own: "owned h" and step: "socket_do (Move_assign v other) h = Some h'"
  shows "balanced (Move_assign v other) h h'"
proof (cases "v = other")
  case True
  with step have "h' = h" by (auto split: option.splits)
  then show ?thesis using own by (intro balanced_no_close) simp_all
next
  case False
  obtain old fd where v: "sockfd h v = Some old" "sockfd h other = Some fd"
    using step by (auto split: option.splits)
  with False step have h': "h' = (if 0 \<le> old then close_fd old h else h)
      \<lparr>sockfd := (sockfd h)(other \<mapsto> - 1, v \<mapsto> fd)\<rparr>" by (simp add: Let_def)
  have sel: "sockfd h' = (sockfd h)(other \<mapsto> - 1, v \<mapsto> fd)"
    "kernel h' = (if 0 \<le> old then kernel h - {old} else kernel h)"
    "closed h' = closed h @ (if 0 \<le> old then [old] else [])"
    by (simp_all add: h' close_fd_def)
  have only: "u = v" if "0 \<le> old" "sockfd h u = Some old" for u
    using ownedD(2) [OF own that(1) v(1) that(2)] .
  have "owned h'"
    using own v only False unfolding owned_def sel by (auto simp: fun_upd_def split: if_splits)
  moreover have held: "holds_fd h' x \<longleftrightarrow> x \<noteq> old \<and> holds_fd h x" if "0 \<le> x" for x
    unfolding sel moved_holds [OF v(2) False that] using v only that False by (auto, metis option.inject)
  ultimately show ?thesis
  proof (cases "0 \<le> old")
    case True
    then have "old \<in> kernel h" and "holds_fd h old" using ownedD(1) [OF own True v(1)] v(1) by auto
    then show ?thesis using True \<open>owned h'\<close> held by (intro balanced_close [of _ _ old]) (auto simp: sel)
  next
    case False
    then show ?thesis using \<open>owned h'\<close> held by (intro balanced_no_close) (auto simp: sel)
  qed
qed

lemma destroy_balanced:
  assumes own: "owned h" and step: "socket_do (Destroy v) h = Some h'"
  shows "balanced (Destroy v) h h'"
proof -
  obtain fd where v: "sockfd h v = Some fd"
    and h': "h' = (if 0 \<le> fd then close_fd fd h else h)\<lparr>sockfd := (sockfd h)(v := None)\<rparr>"
    using step by (auto split: option.splits)
  have sel: "sockfd h' = (sockfd h)(v := None)" "kernel h' = (if 0 \<le> fd then kernel h - {fd} else kernel h)"
    "closed h' = closed h @ (if 0 \<le> fd then [fd] else [])"
    by (simp_all add: h' close_fd_def)
  have only: "u = v" if "0 \<le> fd" "sockfd h u = Some fd" for u
    using ownedD(2) [OF own that(1) v that(2)] .
  have owned': "owned h'"
    using own v only unfolding owned_def sel by (auto simp: fun_upd_def split: if_splits)
  have held: "holds_fd h' x \<longleftrightarrow> x \<noteq> fd \<and> holds_fd h x" if "0 \<le> x" for x
    unfolding sel using v only that by (auto simp: fun_upd_def) (metis option.inject)
  show ?thesis
  proof (cases "0 \<le> fd")
    case True
    then have "fd \<in> kernel h" and "holds_fd h fd" using ownedD(1) [OF own True v] v by auto
    then show ?thesis using True owned' held by (intro balanced_close [of _ _ fd]) (auto simp: sel)
  next
    case False
    then show ?thesis using owned' held by (intro balanced_no_close) (auto simp: sel)
  qed
qed

lemma opens_balanced:
  assumes "owned h" and "socket_do (Opens fd) h = Some h'"
  shows "balanced (Opens fd) h h'"
  using assms by (intro balanced_no_close) (auto simp: owned_def split: if_splits)

lemma socket_do_balanced: "owned h \<Longrightarrow> adopts_free op h \<Longrightarrow> socket_do op h = Some h' \<Longrightarrow> balanced op h h'"
  by (cases op) (blast intro: opens_balanced construct_balanced new_balanced move_construct_balanced
    move_assign_balanced destroy_balanced)+

lemma adopted_Cons: "adopted (op # ops) = adopted [op] @ adopted ops"
  by (cases op) auto

lemma socket_run_owned:
  assumes "owned h" and "client_ok ops h" and "socket_run ops h = Some h'"
  shows "owned h' \<and> (\<exists>cs. closed h' = closed h @ cs \<and> (\<forall>fd \<in> set cs. 0 \<le> fd) \<and>
    (\<forall>fd. 0 \<le> fd \<longrightarrow> count_list cs fd + of_bool (holds_fd h' fd) = of_bool (holds_fd h fd) + count_list (adopted ops) fd))"
  using assms
proof (induction ops arbitrary: h)
  case Nil
  then show ?case by auto
next
  case (Cons op ops)
  then obtain h1 where h1: "socket_do op h = Some h1" "socket_run ops h1 = Some h'"
    by (auto split: option.splits)
  then have ok: "adopts_free op h" "client_ok ops h1" using Cons.prems(2) by simp_all
  from socket_do_balanced [OF Cons.prems(1) ok(1) h1(1)] obtain cs where cs: "closed h1 = closed h @ cs"
      "\<forall>fd \<in> set cs. 0 \<le> fd" "\<forall>fd. 0 \<le> fd \<longrightarrow>
        count_list cs fd + of_bool (holds_fd h1 fd) = of_bool (holds_fd h fd) + count_list (adopted [op]) fd"
    and own: "owned h1" unfolding balanced_def by blast
  from Cons.IH [OF own ok(2) h1(2)] obtain ds where ds: "closed h' = closed h1 @ ds" "owned h'"
      "\<forall>fd \<in> set ds. 0 \<le> fd" "\<forall>fd. 0 \<le> fd \<longrightarrow>
        count_list ds fd + of_bool (holds_fd h' fd) = of_bool (holds_fd h1 fd) + count_list (adopted ops) fd"
    by blast
  have "count_list (cs @ ds) fd + of_bool (holds_fd h' fd) = of_bool (holds_fd h fd) + count_list (adopted (op # ops)) fd"
    if "0 \<le> fd" for fd
  proof -
    have "count_list cs fd + of_bool (holds_fd h1 fd) = of_bool (holds_fd h fd) + count_list (adopted [op]) fd"
      "count_list ds fd + of_bool (holds_fd h' fd) = of_bool (holds_fd h1 fd) + count_list (adopted ops) fd"
      using cs(3) ds(4) that by blast+
    then show ?thesis unfolding adopted_Cons [of op ops] count_list_append by linarith
  qed
  with cs ds show ?case by (intro conjI exI [of _ "cs @ ds"]) auto
qed

lemma adopted_nonneg: "fd \<in> set (adopted ops) \<Longrightarrow> 0 \<le> fd"
  by (induction ops rule: adopted.induct) (auto split: if_splits)

text \<open>Without that care the class closes a descriptor twice, the second time perhaps a reused one.\<close>

lemma shared_descriptor_closed_twice:
  "\<exists>h. socket_run [Opens 5, Socket_fd 0 5, Socket_fd 1 5, Destroy 0, Destroy 1] no_sockets = Some h \<and> closed h = [5, 5]"
  by (simp add: no_sockets_def close_fd_def)

text \<open>
  Claim C34.  However sockets are constructed, moved, assigned and destroyed, as long as the client
  gives \<open>Socket(int)\<close> only open descriptors that no \<open>Socket\<close> has yet (or negative numbers), every call
  of \<open>close\<close> is on a descriptor that is open at that moment; each descriptor has been closed as often
  as it was taken over, but for the objects that hold it now; and once the last object is gone, what
  was closed is what was taken over.
\<close>

theorem sockets_close_once:
  assumes "socket_run ops no_sockets = Some h" and "client_ok ops no_sockets"
  shows "(\<forall>op h'. adopts_free op h \<and> socket_do op h = Some h' \<longrightarrow>
      (\<exists>cs. closed h' = closed h @ cs \<and> set cs \<subseteq> kernel h \<and> distinct cs \<and> set cs \<inter> kernel h' = {})) \<and>
    (\<forall>fd. 0 \<le> fd \<longrightarrow> count_list (adopted ops) fd = count_list (closed h) fd + of_bool (holds_fd h fd)) \<and>
    ((\<forall>v. sockfd h v = None) \<longrightarrow> mset (closed h) = mset (adopted ops))"
proof -
  have "owned no_sockets" by (simp add: no_sockets_def owned_def)
  from socket_run_owned [OF this assms(2,1)] have own: "owned h" "\<forall>fd \<in> set (closed h). 0 \<le> fd"
    and count: "\<And>fd. 0 \<le> fd \<Longrightarrow> count_list (adopted ops) fd = count_list (closed h) fd + of_bool (holds_fd h fd)"
    by (auto simp: no_sockets_def)
  have "mset (closed h) = mset (adopted ops)" if "\<forall>v. sockfd h v = None"
  proof (rule multiset_eqI)
    fix fd
    show "count (mset (closed h)) fd = count (mset (adopted ops)) fd"
    proof (cases "0 \<le> fd")
      case True
      from count [OF this] that show ?thesis by (simp add: count_mset)
    next
      case False
      then have "fd \<notin> set (closed h)" and "fd \<notin> set (adopted ops)" using own(2) adopted_nonneg [of fd ops] by auto
      then show ?thesis by (simp add: count_mset count_notin)
    qed
  qed
  moreover have "\<forall>op h'. adopts_free op h \<and> socket_do op h = Some h' \<longrightarrow>
      (\<exists>cs. closed h' = closed h @ cs \<and> set cs \<subseteq> kernel h \<and> distinct cs \<and> set cs \<inter> kernel h' = {})"
    using socket_do_balanced [OF own(1)] unfolding balanced_def by metis
  ultimately show ?thesis using count by blast
qed

lemma sockets_close_once_witness:
  "\<exists>h. socket_run [Socket_new 0 5, Socket_fd 1 (- 1), Opens 6, Socket_fd 2 6, Move_assign 1 0, Move_assign 2 1,
      Destroy 0, Destroy 1, Destroy 2] no_sockets = Some h \<and> closed h = [6, 5] \<and> mset (closed h) = {#5, 6#}"
proof -
  let ?ops = "[Socket_new 0 5, Socket_fd 1 (- 1), Opens 6, Socket_fd 2 6, Move_assign 1 0, Move_assign 2 1,
      Destroy 0, Destroy 1, Destroy 2]"
  obtain h where h: "socket_run ?ops no_sockets = Some h" "client_ok ?ops no_sockets"
      "closed h = [6, 5]" "\<forall>v. sockfd h v = None"
    by (simp add: no_sockets_def close_fd_def)
  with sockets_close_once [OF h(1,2)] show ?thesis by (auto simp del: socket_run.simps)
qed

end
