(* ===== verification/AsyncLogger.thy ===== *)
theory AsyncLogger
  imports MemoryPools
begin

text \<open>
  \<^verbatim>\<open>HFT/AsyncLogger.hpp\<close>: callers format a message into a buffer of the pool and enqueue it, a
  thread dequeues, writes and gives the buffer back until its run flag is cleared.  The pool and
  the queue are the operations of their contracts; \<open>formatted\<close> is what \<open>snprintf\<close> would print
  without a limit, \<open>None\<close> when it reports an encoding error.  Buffers whose \<open>enqueue\<close> failed are
  recorded in \<open>lg_lost\<close>: the answer of \<open>enqueue\<close> is not looked at.  The time stamp in front of a
  line and the idling of the thread are left out.
\<close>

record ('p, 'q) logger =
  lg_pool :: 'p
  lg_buffer :: "nat \<Rightarrow> string"
  lg_queue :: 'q
  lg_out :: "string list"
  lg_runFlag :: bool
  lg_lost :: "nat list"

definition logger_new :: "'p \<Rightarrow> 'q \<Rightarrow> ('p, 'q) logger" where
  "logger_new p q = \<lparr>lg_pool = p, lg_buffer = (\<lambda>_. []), lg_queue = q, lg_out = [], lg_runFlag = True, lg_lost = []\<rparr>"

definition logger_log :: "'p pool_ops \<Rightarrow> (nat option \<Rightarrow> 'q \<Rightarrow> bool \<times> 'q) \<Rightarrow> nat \<Rightarrow> string option
    \<Rightarrow> ('p, 'q) logger \<Rightarrow> ('p, 'q) logger res" where
  "logger_log P enq bufferSize formatted lg =
     bind_res (allocate_op P (lg_pool lg)) (\<lambda>(msg, p).
       case msg of
         None \<Rightarrow> Inl (Throw ''Logger Pool Exhausted'')
       | Some m \<Rightarrow> (case formatted of
           None \<Rightarrow> bind_res (deallocate_op P msg p) (\<lambda>_. Inl (Throw ''Encoding error during formatting''))
         | Some text \<Rightarrow>
             (let len = (if length text < bufferSize then length text else bufferSize - 1);
                  (ok, q) = enq msg (lg_queue lg)
              in Inr (lg\<lparr>lg_pool := p, lg_buffer := (lg_buffer lg)(m := take len text), lg_queue := q,
                         lg_lost := (if ok then lg_lost lg else lg_lost lg @ [m])\<rparr>))))"

definition logger_turn :: "'p pool_ops \<Rightarrow> ('q \<Rightarrow> nat option \<times> 'q) \<Rightarrow> ('p, 'q) logger \<Rightarrow> ('p, 'q) logger res" where
  "logger_turn P deq lg =
     (if lg_runFlag lg
      then (let (msg, q) = deq (lg_queue lg) in
        case msg of
          None \<Rightarrow> Inr (lg\<lparr>lg_queue := q\<rparr>)
        | Some m \<Rightarrow> bind_res (deallocate_op P msg (lg_pool lg))
            (\<lambda>p. Inr (lg\<lparr>lg_queue := q, lg_out := lg_out lg @ [lg_buffer lg m], lg_pool := p\<rparr>)))
      else Inr lg)"

definition logger_stop :: "('p, 'q) logger \<Rightarrow> ('p, 'q) logger" where
  "logger_stop lg = lg\<lparr>lg_runFlag := False\<rparr>"

text \<open>The loop of the thread, as far as it gets in a number of turns.\<close>

fun logger_thread :: "'p pool_ops \<Rightarrow> ('q \<Rightarrow> nat option \<times> 'q) \<Rightarrow> nat \<Rightarrow> ('p, 'q) logger \<Rightarrow> ('p, 'q) logger res" where
  "logger_thread P deq 0 lg = Inr lg"
| "logger_thread P deq (Suc n) lg = bind_res (logger_turn P deq lg) (logger_thread P deq n)"

text \<open>Messages still queued when the flag is cleared are never written.\<close>

lemma logger_stopped: "logger_thread P deq n (logger_stop lg) = Inr (logger_stop lg)"
  by (induction n) (simp_all add: logger_turn_def logger_stop_def)

text \<open>
  The list of messages that a queue holds, with a first-in first-out queue as the code uses; then a
  call of \<open>log\<close> followed by enough turns of the thread writes what was queued and then the new
  text, cut to the buffer.
\<close>

definition list_enq :: "nat option \<Rightarrow> nat option list \<Rightarrow> bool \<times> nat option list" where
  "list_enq p q = (True, q @ [p])"

definition list_deq :: "nat option list \<Rightarrow> nat option \<times> nat option list" where
  "list_deq q = (case q of [] \<Rightarrow> (None, []) | p # ps \<Rightarrow> (p, ps))"

context message_pool
begin

lemma log_ok:
  assumes "accounted (held, lg_pool lg)" and "length held < pool_size (lg_pool lg)" and "0 < bufferSize"
  shows "\<exists>m lg'. logger_log P list_enq bufferSize (Some text) lg = Inr lg' \<and> m \<notin> set held \<and>
    accounted (held @ [m], lg_pool lg') \<and> pool_size (lg_pool lg') = pool_size (lg_pool lg) \<and>
    lg_queue lg' = lg_queue lg @ [Some m] \<and> lg_out lg' = lg_out lg \<and> lg_runFlag lg' = lg_runFlag lg \<and>
    lg_buffer lg' = (lg_buffer lg)(m := take (bufferSize - 1) text)"
proof -
  from accounted_alloc [OF assms(1,2)] obtain m p' where
    m: "pool_step P Alloc (held, lg_pool lg) = Inr (Allocated (Some m), held @ [m], p')" "accounted (held @ [m], p')"
      "pool_size p' = pool_size (lg_pool lg)" by blast
  then have alloc: "allocate_op P (lg_pool lg) = Inr (Some m, p')"
    by (auto split: option.splits)
  have "take (if length text < bufferSize then length text else bufferSize - 1) text = take (bufferSize - 1) text"
    using assms(3) by auto
  then show ?thesis
    using m alloc by (auto simp: logger_log_def list_enq_def accounted_def Let_def)
qed

lemma turn_ok:
  assumes "accounted (map the (lg_queue lg), lg_pool lg)" and "lg_queue lg = Some m # q" and "lg_runFlag lg"
  shows "\<exists>lg'. logger_turn P list_deq lg = Inr lg' \<and> accounted (map the q, lg_pool lg') \<and> lg_queue lg' = q \<and>
    lg_out lg' = lg_out lg @ [lg_buffer lg m] \<and> lg_buffer lg' = lg_buffer lg \<and> lg_runFlag lg'"
proof -
  have "accounted (m # map the q, lg_pool lg)" using assms(1,2) by simp
  from accounted_dealloc [OF this, of 0] obtain p' where
    p': "pool_step P (Dealloc 0) (m # map the q, lg_pool lg) = Inr (Returned, map the q, p')" "accounted (map the q, p')" by auto
  then have "deallocate_op P (Some m) (lg_pool lg) = Inr p'" by auto
  with p' assms show ?thesis by (simp add: logger_turn_def list_deq_def)
qed

text \<open>Left alone, the thread writes everything that is queued, in order, and frees every buffer.\<close>

lemma thread_drains:
  assumes "accounted (map the (lg_queue lg), lg_pool lg)" and "None \<notin> set (lg_queue lg)" and "lg_runFlag lg"
  shows "\<exists>lg'. logger_thread P list_deq (length (lg_queue lg)) lg = Inr lg' \<and> lg_queue lg' = [] \<and>
    lg_out lg' = lg_out lg @ map (\<lambda>msg. lg_buffer lg (the msg)) (lg_queue lg) \<and> accounted ([], lg_pool lg')"
  using assms
proof (induction "lg_queue lg" arbitrary: lg)
  case Nil
  then show ?case by simp
next
  case (Cons a q)
  then obtain m where q: "lg_queue lg = Some m # q" by (cases a) (auto dest: sym)
  from turn_ok [OF Cons.prems(1) q Cons.prems(3)] obtain lg1 where
    lg1: "logger_turn P list_deq lg = Inr lg1" "accounted (map the q, lg_pool lg1)" "lg_queue lg1 = q"
      "lg_out lg1 = lg_out lg @ [lg_buffer lg m]" "lg_buffer lg1 = lg_buffer lg" "lg_runFlag lg1" by blast
  with Cons.hyps(1) [of lg1] Cons.prems(2) q show ?case by auto
qed

end

end
