(* ===== verification/PacketReceiver.thy ===== *)
theory PacketReceiver
  imports Floats
begin

text \<open>
  \<^verbatim>\<open>HFT/hft_dpdk.cpp\<close>: the set-up of a DPDK port and its receive loop.  The results of the DPDK
  calls are inputs.  A poll is \<open>None\<close> when the run flag is down, and otherwise the burst that was
  received.  A packet stands for the clock and the two random numbers that \<open>parse_packet\<close> makes
  its market data from.
\<close>

subsection \<open>Comparing doubles\<close>

fun dbl_le :: "dbl \<Rightarrow> dbl \<Rightarrow> bool" where
  "dbl_le (Dbl m e) (Dbl n f) \<longleftrightarrow> (let k = min e f in m * 2 ^ nat (e - k) \<le> n * 2 ^ nat (f - k))"

definition dbl_less :: "dbl \<Rightarrow> dbl \<Rightarrow> bool" where
  "dbl_less a b \<longleftrightarrow> dbl_le a b \<and> \<not> dbl_le b a"

lemma dbl_le_common:
  assumes "g \<le> e" and "g \<le> f"
  shows "dbl_le (Dbl m e) (Dbl n f) \<longleftrightarrow> m * 2 ^ nat (e - g) \<le> n * 2 ^ nat (f - g)"
proof -
  define k where "k = min e f"
  have "nat (e - g) = nat (e - k) + nat (k - g)" and "nat (f - g) = nat (f - k) + nat (k - g)"
    using assms by (auto simp: k_def min_def)
  then have "m * 2 ^ nat (e - g) \<le> n * 2 ^ nat (f - g) \<longleftrightarrow>
      (m * 2 ^ nat (e - k)) * 2 ^ nat (k - g) \<le> (n * 2 ^ nat (f - k)) * 2 ^ nat (k - g)"
    by (simp only: power_add mult.assoc)
  then show ?thesis by (simp add: k_def Let_def)
qed

instantiation dbl :: preorder
begin

definition less_eq_dbl :: "dbl \<Rightarrow> dbl \<Rightarrow> bool" where
  "less_eq_dbl = dbl_le"

definition less_dbl :: "dbl \<Rightarrow> dbl \<Rightarrow> bool" where
  "less_dbl = dbl_less"

instance
proof
  fix x y z :: dbl
  show "x < y \<longleftrightarrow> x \<le> y \<and> \<not> y \<le> x" by (simp add: less_dbl_def less_eq_dbl_def dbl_less_def)
  show "x \<le> x" by (cases x) (simp add: less_eq_dbl_def)
  assume xy: "x \<le> y" and yz: "y \<le> z"
  obtain m e n f p h where x: "x = Dbl m e" and y: "y = Dbl n f" and z: "z = Dbl p h"
    by (cases x; cases y; cases z) blast
  define g where "g = min e (min f h)"
  have "g \<le> e" "g \<le> f" "g \<le> h" by (simp_all add: g_def)
  then show "x \<le> z"
    using xy yz dbl_le_common [of g e f m n] dbl_le_common [of g f h n p] dbl_le_common [of g e h m p]
    unfolding x y z less_eq_dbl_def by linarith
qed

end

subsection \<open>The strategy and the receive loop\<close>

record market_data =
  md_timestamp :: u64
  md_price :: dbl
  md_size :: u32

datatype strategy_line = Buy_signal dbl | Too_high dbl

definition process_market_data :: "market_data \<Rightarrow> strategy_line" where
  "process_market_data data =
     (if md_price data < Dbl 100 0 then Buy_signal (md_price data) else Too_high (md_price data))"

definition BURST_SIZE :: nat where "BURST_SIZE = 32"

fun receive_burst :: "('mbuf \<Rightarrow> market_data) \<Rightarrow> 'mbuf list \<Rightarrow> strategy_line list \<times> 'mbuf list \<Rightarrow> strategy_line list \<times> 'mbuf list" where
  "receive_burst parse [] s = s"
| "receive_burst parse (b # bufs) (out, freed) =
     receive_burst parse bufs (out @ [process_market_data (parse b)], freed @ [b])"

text \<open>A burst that does not fit \<open>bufs\<close> would be written out of bounds; polls that never end are \<open>Diverges\<close>.\<close>

fun receive_packets :: "('mbuf \<Rightarrow> market_data) \<Rightarrow> 'mbuf list option list \<Rightarrow> strategy_line list \<times> 'mbuf list \<Rightarrow>
    (strategy_line list \<times> 'mbuf list) res" where
  "receive_packets parse [] s = Inl Diverges"
| "receive_packets parse (None # polls) s = Inr s"
| "receive_packets parse (Some bufs # polls) s =
     (if length bufs \<le> BURST_SIZE then receive_packets parse polls (receive_burst parse bufs s)
      else Inl (UB OutOfBounds))"

text \<open>Every packet is handled and its buffer freed once, in the order of arrival.\<close>

lemma receive_burst_all: "receive_burst parse bufs (out, freed) = (out @ map (\<lambda>b. process_market_data (parse b)) bufs, freed @ bufs)"
  by (induction bufs arbitrary: out freed) simp_all

lemma receive_packets_all:
  assumes "\<forall>bufs \<in> set bursts. length bufs \<le> BURST_SIZE"
  shows "receive_packets parse (map Some bursts @ None # later) (out, freed) =
    Inr (out @ map (\<lambda>b. process_market_data (parse b)) (concat bursts), freed @ concat bursts)"
  using assms by (induction bursts arbitrary: out freed) (simp_all add: receive_burst_all)

subsection \<open>The set-up\<close>

record dpdk_results =
  eal_init :: int
  mbuf_pool :: bool
  dev_configure :: int
  queue_setup :: int
  dev_start :: int

datatype dpdk_step = Stop_port | Close_port

text \<open>\<open>rte_exit\<close> ends the program with its message, shown as an exception.\<close>

definition dpdk_main :: "dpdk_results \<Rightarrow> ('mbuf \<Rightarrow> market_data) \<Rightarrow> 'mbuf list option list \<Rightarrow>
    ((strategy_line list \<times> 'mbuf list) \<times> dpdk_step list) res" where
  "dpdk_main r parse polls =
     (if eal_init r < 0 then Inl (Throw ''Error with EAL initialization'')
      else if \<not> mbuf_pool r then Inl (Throw ''Cannot create mbuf pool'')
      else if dev_configure r < 0 then Inl (Throw ''Cannot configure device'')
      else if queue_setup r < 0 then Inl (Throw ''RX queue setup failed'')
      else if dev_start r < 0 then Inl (Throw ''Device start failed'')
      else bind_res (receive_packets parse polls ([], [])) (\<lambda>out. Inr (out, [Stop_port, Close_port])))"

lemma dpdk_main_runs:
  assumes "0 \<le> eal_init r" and "mbuf_pool r" and "0 \<le> dev_configure r" and "0 \<le> queue_setup r" and "0 \<le> dev_start r"
    and "\<forall>bufs \<in> set bursts. length bufs \<le> BURST_SIZE"
  shows "dpdk_main r parse (map Some bursts @ [None]) =
    Inr ((map (\<lambda>b. process_market_data (parse b)) (concat bursts), concat bursts), [Stop_port, Close_port])"
  using receive_packets_all [OF assms(6), of parse "[]" "[]" "[]"] assms(1-5) by (simp add: dpdk_main_def)

subsection \<open>The packets\<close>

text \<open>The time stamp counter and the results of the two calls of \<open>rand\<close>.\<close>

type_synonym mbuf = "u64 \<times> nat \<times> nat"

definition parse_packet :: "mbuf \<Rightarrow> market_data" where
  "parse_packet mbuf = (case mbuf of (tsc, r1, r2) \<Rightarrow>
     \<lparr>md_timestamp = tsc, md_price = dbl_add (Dbl 199 (- 1)) (nearest_dbl (r1 mod 1000) 100),
      md_size = 100 + of_nat (r2 mod 50)\<rparr>)"

lemma nearest_hundredth:
  obtains M where "nearest_dbl n 100 = Dbl (int M) (- 64)"
    and "n < 50 \<Longrightarrow> M < 99 * 2 ^ 63 div 100" and "50 \<le> n \<Longrightarrow> 2 ^ 63 \<le> M"
proof -
  define q where "q = n * 2 ^ 63 div 100"
  define x where "x = 2 * q + (if q * 100 = n * 2 ^ 63 then 0 else 1)"
  have eq: "nearest_dbl n 100 = Dbl (int (round_even 53 x)) (- 64)"
    by (simp add: nearest_dbl_def q_def x_def Let_def bits_numeral)
  have "round_even 53 x < 99 * 2 ^ 63 div 100" if "n < 50"
  proof -
    have "n * 2 ^ 63 \<le> 49 * 2 ^ 63" using that by simp
    then have "q \<le> 49 * 2 ^ 63 div 100" unfolding q_def by (rule div_le_mono)
    then have "x \<le> 2 * (49 * 2 ^ 63 div 100) + 1" by (auto simp: x_def)
    then show ?thesis using round_even_error(1) [of 53 x] by simp
  qed
  moreover have "2 ^ 63 \<le> round_even 53 x" if "50 \<le> n"
  proof -
    have "50 * 2 ^ 63 \<le> n * 2 ^ 63" using that by simp
    then have "50 * 2 ^ 63 div 100 \<le> q" unfolding q_def by (rule div_le_mono)
    then have "2 ^ 63 \<le> x" by (auto simp: x_def)
    from round_even_mono [OF this, of 53] show ?thesis by (simp only: round_even_pow2)
  qed
  ultimately show thesis using eq by (intro that [of "round_even 53 x"])
qed

text \<open>The price is below 100 exactly when the first random number is less than 50 modulo 1000.\<close>

lemma parse_packet_buys:
  "process_market_data (parse_packet (tsc, r1, r2)) = Buy_signal p \<longleftrightarrow>
   r1 mod 1000 < 50 \<and> p = md_price (parse_packet (tsc, r1, r2))"
proof -
  obtain M where M: "nearest_dbl (r1 mod 1000) 100 = Dbl (int M) (- 64)"
    "r1 mod 1000 < 50 \<Longrightarrow> M < 99 * 2 ^ 63 div 100" "50 \<le> r1 mod 1000 \<Longrightarrow> 2 ^ 63 \<le> M"
    using nearest_hundredth [of "r1 mod 1000"] by blast
  define N where "N = 199 * 2 ^ 63 + M"
  have "nat (199 * 2 ^ 63 + int M) = N" by (simp add: N_def nat_add_distrib)
  then have price: "md_price (parse_packet (tsc, r1, r2)) = Dbl (int (round_even 53 N)) (- 64)"
    by (simp add: parse_packet_def M(1) Let_def)
  have "round_even 53 N < 100 * 2 ^ 64" if "r1 mod 1000 < 50"
    using round_even_error(1) [of 53 N] M(2) [OF that] by (simp add: N_def)
  moreover have "100 * 2 ^ 64 \<le> round_even 53 N" if "\<not> r1 mod 1000 < 50"
  proof -
    have "25 * 2 ^ 66 \<le> N" using M(3) that by (simp add: N_def)
    from round_even_mono [OF this, of 53] show ?thesis using round_even_exact [of 25 53 66] by simp
  qed
  ultimately have "md_price (parse_packet (tsc, r1, r2)) < Dbl 100 0 \<longleftrightarrow> r1 mod 1000 < 50"
    unfolding price less_dbl_def dbl_less_def
    by (cases "r1 mod 1000 < 50") (auto simp: Let_def)
  then show ?thesis by (auto simp: process_market_data_def)
qed

text \<open>The whole program on packets: the signals depend on the first random numbers only.\<close>

lemma dpdk_main_signals:
  assumes "0 \<le> eal_init r" and "mbuf_pool r" and "0 \<le> dev_configure r" and "0 \<le> queue_setup r" and "0 \<le> dev_start r"
    and "\<forall>bufs \<in> set bursts. length bufs \<le> BURST_SIZE"
  shows "\<exists>out. dpdk_main r parse_packet (map Some bursts @ [None]) = Inr ((out, concat bursts), [Stop_port, Close_port]) \<and>
    map (\<lambda>l. case l of Buy_signal _ \<Rightarrow> True | Too_high _ \<Rightarrow> False) out =
    map (\<lambda>(tsc, r1, r2). r1 mod 1000 < 50) (concat bursts)"
proof -
  have "(\<exists>p. process_market_data (parse_packet b) = Buy_signal p) \<longleftrightarrow> (case b of (tsc, r1, r2) \<Rightarrow> r1 mod 1000 < 50)" for b
    by (cases b) (simp add: parse_packet_buys)
  then have "(case process_market_data (parse_packet b) of Buy_signal _ \<Rightarrow> True | Too_high _ \<Rightarrow> False) =
      (case b of (tsc, r1, r2) \<Rightarrow> r1 mod 1000 < 50)" for b
    by (cases "process_market_data (parse_packet b)") (metis strategy_line.simps)+
  then show ?thesis using dpdk_main_runs [OF assms, of parse_packet] by (auto simp: case_prod_unfold)
qed

lemma process_market_data_buys: "process_market_data \<lparr>md_timestamp = 0, md_price = Dbl 199 (- 1), md_size = 100\<rparr> = Buy_signal (Dbl 199 (- 1))"
  by (simp add: process_market_data_def less_dbl_def dbl_less_def)

end
