(* ===== verification/HeapVector.thy ===== *)
theory HeapVector
  imports Prelude
begin

text \<open>
  \<open>zam::vector\<close> of \<^verbatim>\<open>Study/vector.cpp\<close> on an explicit heap.  A block of raw memory is a list
  of cells, \<open>None\<close> where no object lives; constructing, destroying, reading and deleting are
  checked, so using freed memory or an object outside its lifetime is undefined behaviour, and the
  heap counts the objects made and destroyed.  \<open>moved\<close> is what an object is left as when it is
  moved from, and \<open>trivial\<close> says whether assigning to raw memory is allowed, as it is for
  \<open>int\<close>.  Sizes are naturals: an allocation fails long before a \<open>size_t\<close> wraps.
  Self-assignment, which returns at once, is not a case of the assignments.
\<close>

subsection \<open>The heap\<close>

record 'a heap =
  blocks :: "nat \<Rightarrow> 'a option list option"
  fresh :: nat
  made :: nat
  destroyed :: nat

definition heap_empty :: "'a heap" where
  "heap_empty = \<lparr>blocks = (\<lambda>_. None), fresh = 0, made = 0, destroyed = 0\<rparr>"

definition heap_new :: "nat \<Rightarrow> 'a heap \<Rightarrow> nat \<times> 'a heap" where
  "heap_new n h = (fresh h, h\<lparr>blocks := (blocks h)(fresh h \<mapsto> replicate n None), fresh := Suc (fresh h)\<rparr>)"

definition block_at :: "nat option \<Rightarrow> nat \<Rightarrow> 'a heap \<Rightarrow> (nat \<times> 'a option list) res" where
  "block_at p i h = (case p of
     None \<Rightarrow> Inl (UB NullPointer)
   | Some a \<Rightarrow> (case blocks h a of
       None \<Rightarrow> Inl (UB DanglingPointer)
     | Some cells \<Rightarrow> if i < length cells then Inr (a, cells) else Inl (UB OutOfBounds)))"

definition heap_read :: "nat option \<Rightarrow> nat \<Rightarrow> 'a heap \<Rightarrow> 'a res" where
  "heap_read p i h = bind_res (block_at p i h) (\<lambda>(a, cells).
     case cells ! i of None \<Rightarrow> Inl (UB NoObject) | Some x \<Rightarrow> Inr x)"

definition heap_construct :: "nat option \<Rightarrow> nat \<Rightarrow> 'a \<Rightarrow> 'a heap \<Rightarrow> 'a heap res" where
  "heap_construct p i x h = bind_res (block_at p i h) (\<lambda>(a, cells).
     Inr (h\<lparr>blocks := (blocks h)(a \<mapsto> cells[i := Some x]), made := Suc (made h)\<rparr>))"

definition heap_assign :: "bool \<Rightarrow> nat option \<Rightarrow> nat \<Rightarrow> 'a \<Rightarrow> 'a heap \<Rightarrow> 'a heap res" where
  "heap_assign trivial p i x h = bind_res (block_at p i h) (\<lambda>(a, cells).
     if cells ! i = None \<and> \<not> trivial then Inl (UB NoObject)
     else Inr (h\<lparr>blocks := (blocks h)(a \<mapsto> cells[i := Some x]),
                 made := (if cells ! i = None then Suc (made h) else made h)\<rparr>))"

definition heap_destroy :: "nat option \<Rightarrow> nat \<Rightarrow> 'a heap \<Rightarrow> 'a heap res" where
  "heap_destroy p i h = bind_res (block_at p i h) (\<lambda>(a, cells).
     if cells ! i = None then Inl (UB NoObject)
     else Inr (h\<lparr>blocks := (blocks h)(a \<mapsto> cells[i := None]), destroyed := Suc (destroyed h)\<rparr>))"

definition heap_delete :: "nat option \<Rightarrow> 'a heap \<Rightarrow> 'a heap res" where
  "heap_delete p h = (case p of
     None \<Rightarrow> Inr h
   | Some a \<Rightarrow> if blocks h a = None then Inl (UB DanglingPointer)
               else Inr (h\<lparr>blocks := (blocks h)(a := None)\<rparr>))"

subsection \<open>The vector\<close>

record zvec =
  v_size :: nat
  v_capacity :: nat
  v_data :: "nat option"

definition vec_default :: zvec where
  "vec_default = \<lparr>v_size = 0, v_capacity = 0, v_data = None\<rparr>"

definition vec_reset :: "nat option \<Rightarrow> nat \<Rightarrow> nat \<Rightarrow> zvec" where
  "vec_reset data size' capacity = \<lparr>v_size = size', v_capacity = capacity, v_data = data\<rparr>"

definition vec_sized :: "nat \<Rightarrow> 'a heap \<Rightarrow> zvec \<times> 'a heap" where
  "vec_sized n h = (let (a, h') = heap_new n h in (vec_reset (Some a) 0 n, h'))"

text \<open>Loops over the cells \<open>i\<close> up to \<open>i + n\<close>.\<close>

fun fill_cells :: "bool \<Rightarrow> nat option \<Rightarrow> nat \<Rightarrow> nat \<Rightarrow> 'a \<Rightarrow> 'a heap \<Rightarrow> 'a heap res" where
  "fill_cells trivial p i 0 x h = Inr h"
| "fill_cells trivial p i (Suc n) x h = bind_res (heap_assign trivial p i x h) (fill_cells trivial p (Suc i) n x)"

fun destroy_cells :: "nat option \<Rightarrow> nat \<Rightarrow> nat \<Rightarrow> 'a heap \<Rightarrow> 'a heap res" where
  "destroy_cells p i 0 h = Inr h"
| "destroy_cells p i (Suc n) h = bind_res (heap_destroy p i h) (destroy_cells p (Suc i) n)"

text \<open>\<open>new (data_ + i) T(std::move(old_data[i]))\<close>: the old object is left as \<open>moved\<close>.\<close>

fun move_cells :: "('a \<Rightarrow> 'a) \<Rightarrow> nat option \<Rightarrow> nat option \<Rightarrow> nat \<Rightarrow> nat \<Rightarrow> 'a heap \<Rightarrow> 'a heap res" where
  "move_cells moved old p i 0 h = Inr h"
| "move_cells moved old p i (Suc n) h =
     bind_res (heap_read old i h) (\<lambda>x.
     bind_res (heap_assign False old i (moved x) h) (\<lambda>h1.
     bind_res (heap_construct p i x h1) (move_cells moved old p (Suc i) n)))"

definition vec_filled :: "bool \<Rightarrow> nat \<Rightarrow> 'a \<Rightarrow> 'a heap \<Rightarrow> (zvec \<times> 'a heap) res" where
  "vec_filled trivial n val h = (let (a, h1) = heap_new n h in
     bind_res (fill_cells trivial (Some a) 0 n val h1) (\<lambda>h2. Inr (vec_reset (Some a) n n, h2)))"

definition vec_reallocate :: "('a \<Rightarrow> 'a) \<Rightarrow> nat \<Rightarrow> zvec \<Rightarrow> 'a heap \<Rightarrow> (zvec \<times> 'a heap) res" where
  "vec_reallocate moved new_capacity v h =
     (let cap = (if 0 < new_capacity then new_capacity else if v_capacity v = 0 then 1 else v_capacity v * 2);
          (a, h1) = heap_new cap h in
      bind_res (move_cells moved (v_data v) (Some a) 0 (v_size v) h1) (\<lambda>h2.
      bind_res (if v_data v = None then Inr h2
                else bind_res (destroy_cells (v_data v) 0 (v_size v) h2) (heap_delete (v_data v))) (\<lambda>h3.
      Inr (vec_reset (Some a) (v_size v) cap, h3))))"

definition vec_reserve :: "('a \<Rightarrow> 'a) \<Rightarrow> nat \<Rightarrow> zvec \<Rightarrow> 'a heap \<Rightarrow> (zvec \<times> 'a heap) res" where
  "vec_reserve moved capacity v h =
     (if capacity > v_capacity v then vec_reallocate moved capacity v h else Inr (v, h))"

text \<open>
  The argument of \<open>push_back\<close> and \<open>emplace_back\<close> is a reference, read after a reallocation: to a
  value outside the heap or to a cell.
\<close>

datatype 'a arg = Outside 'a | Cell "nat option" nat

definition arg_read :: "'a arg \<Rightarrow> 'a heap \<Rightarrow> 'a res" where
  "arg_read r h = (case r of Outside x \<Rightarrow> Inr x | Cell p i \<Rightarrow> heap_read p i h)"

definition vec_push_back :: "('a \<Rightarrow> 'a) \<Rightarrow> 'a arg \<Rightarrow> zvec \<Rightarrow> 'a heap \<Rightarrow> (zvec \<times> 'a heap) res" where
  "vec_push_back moved val v h =
     bind_res (arg_read val h) (\<lambda>_.
     bind_res (if v_size v = v_capacity v then vec_reallocate moved 0 v h else Inr (v, h)) (\<lambda>(v1, h1).
     bind_res (arg_read val h1) (\<lambda>x.
     bind_res (heap_construct (v_data v1) (v_size v1) x h1) (\<lambda>h2.
     Inr (v1\<lparr>v_size := Suc (v_size v1)\<rparr>, h2)))))"

definition vec_emplace_back :: "('a \<Rightarrow> 'a) \<Rightarrow> 'a arg \<Rightarrow> zvec \<Rightarrow> 'a heap \<Rightarrow> (zvec \<times> 'a heap) res" where
  "vec_emplace_back moved val v h =
     bind_res (if v_size v = v_capacity v then vec_reallocate moved 0 v h else Inr (v, h)) (\<lambda>(v1, h1).
     bind_res (arg_read val h1) (\<lambda>x.
     bind_res (heap_construct (v_data v1) (v_size v1) x h1) (\<lambda>h2.
     Inr (v1\<lparr>v_size := Suc (v_size v1)\<rparr>, h2))))"

text \<open>\<open>pop_back\<close> moves the value out into the result (one more object) and destroys the cell.\<close>

definition vec_pop_back :: "('a \<Rightarrow> 'a) \<Rightarrow> zvec \<Rightarrow> 'a heap \<Rightarrow> ('a \<times> zvec \<times> 'a heap) res" where
  "vec_pop_back moved v h =
     (if v_size v = 0 then Inl (Throw ''Cannot pop_back as size is 0'')
      else let v1 = v\<lparr>v_size := v_size v - 1\<rparr> in
        bind_res (heap_read (v_data v1) (v_size v1) h) (\<lambda>x.
        bind_res (heap_assign False (v_data v1) (v_size v1) (moved x) h) (\<lambda>h1.
        bind_res (heap_destroy (v_data v1) (v_size v1) h1) (\<lambda>h2. Inr (x, v1, h2)))))"

text \<open>\<open>std::to_string\<close> of a number.\<close>

fun to_string :: "nat \<Rightarrow> string" where
  "to_string n = (if n < 10 then [char_of (48 + n)] else to_string (n div 10) @ [char_of (48 + n mod 10)])"

declare to_string.simps [simp del]

definition vec_index :: "nat \<Rightarrow> zvec \<Rightarrow> 'a heap \<Rightarrow> 'a res" where
  "vec_index index v h =
     (if index \<ge> v_size v then Inl (Throw (''Index '' @ to_string index @ '' out of bounds'')) else heap_read (v_data v) index h)"

definition vec_destructor :: "zvec \<Rightarrow> 'a heap \<Rightarrow> 'a heap res" where
  "vec_destructor v h =
     (if v_data v = None then Inr h
      else bind_res (destroy_cells (v_data v) 0 (v_size v) h) (heap_delete (v_data v)))"

fun copy_from :: "('a \<Rightarrow> 'a) \<Rightarrow> zvec \<Rightarrow> nat \<Rightarrow> nat \<Rightarrow> zvec \<Rightarrow> 'a heap \<Rightarrow> (zvec \<times> 'a heap) res" where
  "copy_from moved other i 0 v h = Inr (v, h)"
| "copy_from moved other i (Suc n) v h =
     bind_res (vec_index i other h) (\<lambda>_.
     bind_res (vec_emplace_back moved (Cell (v_data other) i) v h)
       (\<lambda>(v1, h1). copy_from moved other (Suc i) n v1 h1))"

definition vec_copy :: "('a \<Rightarrow> 'a) \<Rightarrow> zvec \<Rightarrow> 'a heap \<Rightarrow> (zvec \<times> 'a heap) res" where
  "vec_copy moved other h =
     bind_res (vec_reserve moved (v_capacity other) vec_default h)
       (\<lambda>(v, h1). copy_from moved other 0 (v_size other) v h1)"

definition vec_copy_assign :: "('a \<Rightarrow> 'a) \<Rightarrow> zvec \<Rightarrow> zvec \<Rightarrow> 'a heap \<Rightarrow> (zvec \<times> 'a heap) res" where
  "vec_copy_assign moved other v h =
     bind_res (destroy_cells (v_data v) 0 (v_size v) h) (\<lambda>h1.
     bind_res (vec_reserve moved (v_capacity other) (v\<lparr>v_size := 0\<rparr>) h1)
       (\<lambda>(v1, h2). copy_from moved other 0 (v_size other) v1 h2))"

definition vec_move :: "zvec \<Rightarrow> zvec \<times> zvec" where
  "vec_move other = (vec_reset (v_data other) (v_size other) (v_capacity other), vec_reset None 0 0)"

definition vec_move_assign :: "zvec \<Rightarrow> zvec \<Rightarrow> 'a heap \<Rightarrow> (zvec \<times> zvec \<times> 'a heap) res" where
  "vec_move_assign other v h =
     bind_res (if v_data v = None then Inr h else heap_delete (v_data v) h) (\<lambda>h1.
     Inr (vec_reset (v_data other) (v_size other) (v_capacity other), vec_reset None 0 0, h1))"

subsection \<open>One vector behaves like a list\<close>

text \<open>
  \<open>stored_as v h xs\<close>: the vector holds \<open>xs\<close>, and its block, if it has one, is the only one on the
  heap; the objects that live are those of \<open>xs\<close>.
\<close>

definition cells_of :: "nat \<Rightarrow> 'a list \<Rightarrow> 'a option list" where
  "cells_of cap xs = map Some xs @ replicate (cap - length xs) None"

definition stored_as :: "zvec \<Rightarrow> 'a heap \<Rightarrow> 'a list \<Rightarrow> bool" where
  "stored_as v h xs \<longleftrightarrow> v_size v = length xs \<and> length xs \<le> v_capacity v \<and>
     (v_data v = None \<longrightarrow> v_capacity v = 0) \<and>
     (\<forall>a. blocks h a = (if v_data v = Some a then Some (cells_of (v_capacity v) xs) else None)) \<and>
     (\<forall>a. v_data v = Some a \<longrightarrow> a < fresh h) \<and> made h = destroyed h + length xs"

lemma length_cells_of [simp]: "length xs \<le> cap \<Longrightarrow> length (cells_of cap xs) = cap"
  by (simp add: cells_of_def)

lemma move_cells_spec:
  assumes "blocks h old = Some (pre @ map Some ys @ rest)" and "blocks h a = Some (pre' @ replicate (length ys + m) None)"
    and "length pre = i" and "length pre' = i" and "old \<noteq> a"
  shows "\<exists>h'. move_cells moved (Some old) (Some a) i (length ys) h = Inr h' \<and>
    blocks h' = (blocks h)(old \<mapsto> pre @ map (\<lambda>y. Some (moved y)) ys @ rest, a \<mapsto> pre' @ map Some ys @ replicate m None) \<and>
    fresh h' = fresh h \<and> made h' = made h + length ys \<and> destroyed h' = destroyed h"
  using assms
proof (induction ys arbitrary: h i pre pre')
  case Nil
  then show ?case by (auto simp: fun_upd_idem)
next
  case (Cons y ys)
  define h1 where "h1 = h\<lparr>blocks := (blocks h)(old \<mapsto> pre @ Some (moved y) # map Some ys @ rest,
    a \<mapsto> pre' @ Some y # replicate (length ys + m) None), made := Suc (made h)\<rparr>"
  have step: "move_cells moved (Some old) (Some a) i (length (y # ys)) h
    = move_cells moved (Some old) (Some a) (Suc i) (length ys) h1"
    using Cons.prems
    by (simp add: heap_read_def heap_assign_def heap_construct_def block_at_def h1_def list_update_append nth_append
        fun_upd_twist)
  have "\<exists>h'. move_cells moved (Some old) (Some a) (Suc i) (length ys) h1 = Inr h' \<and>
    blocks h' = (blocks h1)(old \<mapsto> (pre @ [Some (moved y)]) @ map (\<lambda>y. Some (moved y)) ys @ rest,
      a \<mapsto> (pre' @ [Some y]) @ map Some ys @ replicate m None) \<and>
    fresh h' = fresh h1 \<and> made h' = made h1 + length ys \<and> destroyed h' = destroyed h1"
    by (rule Cons.IH) (use Cons.prems in \<open>simp_all add: h1_def\<close>)
  then show ?case
    unfolding step using Cons.prems(5) by (auto simp: h1_def fun_eq_iff)
qed

lemma destroy_cells_spec:
  assumes "blocks h a = Some (pre @ map Some ys @ rest)" and "length pre = i"
  shows "\<exists>h'. destroy_cells (Some a) i (length ys) h = Inr h' \<and>
    blocks h' = (blocks h)(a \<mapsto> pre @ replicate (length ys) None @ rest) \<and>
    fresh h' = fresh h \<and> made h' = made h \<and> destroyed h' = destroyed h + length ys"
  using assms
proof (induction ys arbitrary: h i pre)
  case Nil
  then show ?case by (auto simp: fun_upd_idem)
next
  case (Cons y ys)
  define h1 where "h1 = h\<lparr>blocks := (blocks h)(a \<mapsto> pre @ None # map Some ys @ rest), destroyed := Suc (destroyed h)\<rparr>"
  have step: "destroy_cells (Some a) i (length (y # ys)) h = destroy_cells (Some a) (Suc i) (length ys) h1"
    using Cons.prems by (simp add: heap_destroy_def block_at_def h1_def list_update_append nth_append)
  have "\<exists>h'. destroy_cells (Some a) (Suc i) (length ys) h1 = Inr h' \<and>
    blocks h' = (blocks h1)(a \<mapsto> (pre @ [None]) @ replicate (length ys) None @ rest) \<and>
    fresh h' = fresh h1 \<and> made h' = made h1 \<and> destroyed h' = destroyed h1 + length ys"
    by (rule Cons.IH) (use Cons.prems in \<open>simp_all add: h1_def\<close>)
  then show ?case
    unfolding step by (auto simp: h1_def)
qed

lemma vec_reallocate_spec:
  assumes v: "stored_as v h xs"
    and cap: "cap = (if 0 < n then n else if v_capacity v = 0 then 1 else v_capacity v * 2)" and room: "length xs \<le> cap"
  shows "\<exists>v' h'. vec_reallocate moved n v h = Inr (v', h') \<and> stored_as v' h' xs \<and> v_capacity v' = cap"
proof -
  let ?a = "fresh h"
  define h1 where "h1 = h\<lparr>blocks := (blocks h)(?a \<mapsto> replicate cap None), fresh := Suc ?a\<rparr>"
  have new: "heap_new cap h = (?a, h1)" by (simp add: heap_new_def h1_def)
  show ?thesis
  proof (cases "v_data v")
    case None
    then have "xs = []" using v by (auto simp: stored_as_def)
    then have "vec_reallocate moved n v h = Inr (vec_reset (Some ?a) 0 cap, h1)"
      using v None new unfolding vec_reallocate_def cap [symmetric] by (simp add: stored_as_def)
    moreover have "stored_as (vec_reset (Some ?a) 0 cap) h1 xs"
      using v None \<open>xs = []\<close> by (auto simp: stored_as_def vec_reset_def h1_def cells_of_def)
    ultimately show ?thesis by (auto simp: vec_reset_def)
  next
    case (Some b)
    have b: "blocks h b = Some (cells_of (v_capacity v) xs)" "b < ?a" and others: "\<And>a. a \<noteq> b \<Longrightarrow> blocks h a = None"
      and sz: "v_size v = length xs" and counts: "made h = destroyed h + length xs"
      using v Some by (auto simp: stored_as_def)
    let ?rest = "replicate (v_capacity v - length xs) None"
    have "\<exists>h2. move_cells moved (Some b) (Some ?a) 0 (length xs) h1 = Inr h2 \<and>
      blocks h2 = (blocks h1)(b \<mapsto> [] @ map (\<lambda>y. Some (moved y)) xs @ ?rest,
        ?a \<mapsto> [] @ map Some xs @ replicate (cap - length xs) None) \<and>
      fresh h2 = fresh h1 \<and> made h2 = made h1 + length xs \<and> destroyed h2 = destroyed h1"
      by (rule move_cells_spec) (use b room in \<open>simp_all add: h1_def cells_of_def\<close>)
    then obtain h2 where h2: "move_cells moved (Some b) (Some ?a) 0 (length xs) h1 = Inr h2"
      "blocks h2 = (blocks h1)(b \<mapsto> map (\<lambda>y. Some (moved y)) xs @ ?rest, ?a \<mapsto> cells_of cap xs)"
      "fresh h2 = Suc ?a" "made h2 = made h + length xs" "destroyed h2 = destroyed h"
      by (auto simp: h1_def cells_of_def)
    have "\<exists>h3. destroy_cells (Some b) 0 (length (map moved xs)) h2 = Inr h3 \<and>
      blocks h3 = (blocks h2)(b \<mapsto> [] @ replicate (length (map moved xs)) None @ ?rest) \<and>
      fresh h3 = fresh h2 \<and> made h3 = made h2 \<and> destroyed h3 = destroyed h2 + length (map moved xs)"
      by (rule destroy_cells_spec) (use b(2) h2(2) in \<open>simp_all add: comp_def\<close>)
    then obtain h3 where h3: "destroy_cells (Some b) 0 (length xs) h2 = Inr h3"
      "blocks h3 = (blocks h2)(b \<mapsto> replicate (length xs) None @ ?rest)" "fresh h3 = fresh h2"
      "made h3 = made h2" "destroyed h3 = destroyed h2 + length xs" by auto
    define h4 where "h4 = h3\<lparr>blocks := (blocks h3)(b := None)\<rparr>"
    have "heap_delete (Some b) h3 = Inr h4" using h3(2) by (simp add: heap_delete_def h4_def)
    then have "vec_reallocate moved n v h = Inr (vec_reset (Some ?a) (length xs) cap, h4)"
      using Some new h2(1) h3(1) sz unfolding vec_reallocate_def cap [symmetric] by simp
    moreover have "stored_as (vec_reset (Some ?a) (length xs) cap) h4 xs"
      using b h2 h3 others room counts by (auto simp: stored_as_def vec_reset_def h4_def h1_def)
    ultimately show ?thesis by (auto simp: vec_reset_def)
  qed
qed

lemma block_at_stored:
  "stored_as v h xs \<Longrightarrow> i < v_capacity v \<Longrightarrow> \<exists>a. v_data v = Some a \<and> block_at (v_data v) i h = Inr (a, cells_of (v_capacity v) xs)"
  by (cases "v_data v") (auto simp: stored_as_def block_at_def)

lemma nth_cells_of: "length xs \<le> cap \<Longrightarrow> i < cap \<Longrightarrow> cells_of cap xs ! i = (if i < length xs then Some (xs ! i) else None)"
  by (simp add: cells_of_def nth_append)

lemma cells_of_snoc: "length xs < cap \<Longrightarrow> (cells_of cap xs)[length xs := Some x] = cells_of cap (xs @ [x])"
proof -
  assume "length xs < cap"
  then have "cap - length xs = Suc (cap - Suc (length xs))" by simp
  then show ?thesis by (simp add: cells_of_def list_update_append)
qed

lemma cells_of_butlast:
  assumes "xs \<noteq> []" and "length xs \<le> cap"
  shows "(cells_of cap xs)[length xs - 1 := None] = cells_of cap (butlast xs)"
proof -
  obtain ys y where xs: "xs = ys @ [y]" using assms(1) by (cases xs rule: rev_cases) auto
  have "cap - length ys = Suc (cap - Suc (length ys))" using assms(2) xs by simp
  then show ?thesis using xs by (simp add: cells_of_def list_update_append)
qed

lemma heap_read_stored: "stored_as v h xs \<Longrightarrow> i < length xs \<Longrightarrow> heap_read (v_data v) i h = Inr (xs ! i)"
  using block_at_stored [of v h xs i] by (auto simp: heap_read_def stored_as_def nth_cells_of)

lemma vec_index_spec:
  "stored_as v h xs \<Longrightarrow> vec_index i v h =
    (if i < length xs then Inr (xs ! i) else Inl (Throw (''Index '' @ to_string i @ '' out of bounds'')))"
  using heap_read_stored [of v h xs i] by (simp add: vec_index_def) (simp add: stored_as_def)

lemma vec_construct_spec:
  assumes "stored_as v h xs" and "length xs < v_capacity v"
  shows "\<exists>h'. heap_construct (v_data v) (v_size v) x h = Inr h' \<and> stored_as (v\<lparr>v_size := Suc (v_size v)\<rparr>) h' (xs @ [x])"
proof -
  from block_at_stored [OF assms] obtain a where
    a: "v_data v = Some a" "block_at (v_data v) (length xs) h = Inr (a, cells_of (v_capacity v) xs)" by blast
  have "v_size v = length xs" using assms by (simp add: stored_as_def)
  with a assms show ?thesis
    by (auto simp: heap_construct_def stored_as_def cells_of_snoc)
qed

lemma vec_room_spec:
  assumes "stored_as v h xs"
  shows "\<exists>v' h'. (if v_size v = v_capacity v then vec_reallocate moved 0 v h else Inr (v, h)) = Inr (v', h') \<and>
    stored_as v' h' xs \<and> length xs < v_capacity v'"
proof (cases "v_size v = v_capacity v")
  case True
  then have len: "v_capacity v = length xs" using assms by (simp add: stored_as_def)
  have room: "length xs \<le> (if 0 < (0 :: nat) then 0 else if v_capacity v = 0 then 1 else v_capacity v * 2)"
    using len by simp
  obtain v' h' where "vec_reallocate moved 0 v h = Inr (v', h')" "stored_as v' h' xs"
      "v_capacity v' = (if v_capacity v = 0 then 1 else v_capacity v * 2)"
    using vec_reallocate_spec [OF assms refl room, of moved] by auto
  moreover have "length xs < (if v_capacity v = 0 then 1 else v_capacity v * 2)"
    using len by (cases xs) auto
  ultimately show ?thesis using True by auto
next
  case False
  with assms show ?thesis by (auto simp: stored_as_def)
qed

lemma vec_emplace_spec:
  assumes "stored_as v h xs"
  shows "\<exists>v' h'. vec_emplace_back moved (Outside x) v h = Inr (v', h') \<and> stored_as v' h' (xs @ [x])"
    and "\<exists>v' h'. vec_push_back moved (Outside x) v h = Inr (v', h') \<and> stored_as v' h' (xs @ [x])"
proof -
  from vec_room_spec [OF assms, of moved] obtain v1 h1 where
    room: "(if v_size v = v_capacity v then vec_reallocate moved 0 v h else Inr (v, h)) = Inr (v1, h1)"
    and v1: "stored_as v1 h1 xs" "length xs < v_capacity v1" by blast
  from vec_construct_spec [OF v1, of x] obtain h2 where
    "heap_construct (v_data v1) (v_size v1) x h1 = Inr h2" "stored_as (v1\<lparr>v_size := Suc (v_size v1)\<rparr>) h2 (xs @ [x])" by blast
  then show "\<exists>v' h'. vec_emplace_back moved (Outside x) v h = Inr (v', h') \<and> stored_as v' h' (xs @ [x])"
    and "\<exists>v' h'. vec_push_back moved (Outside x) v h = Inr (v', h') \<and> stored_as v' h' (xs @ [x])"
    unfolding vec_emplace_back_def vec_push_back_def room by (simp_all add: arg_read_def)
qed

lemma vec_pop_spec:
  assumes "stored_as v h xs" and "xs \<noteq> []"
  shows "\<exists>v' h'. vec_pop_back moved v h = Inr (last xs, v', h') \<and> stored_as v' h' (butlast xs)"
proof -
  let ?i = "length xs - 1" and ?cap = "v_capacity v"
  have sz: "v_size v = length xs" and le: "length xs \<le> ?cap" using assms(1) by (auto simp: stored_as_def)
  have i: "?i < length xs" using assms(2) by simp
  with le have "?i < ?cap" by linarith
  from block_at_stored [OF assms(1) this] obtain a where
    a: "v_data v = Some a" "block_at (v_data v) ?i h = Inr (a, cells_of ?cap xs)" by blast
  have blk: "blocks h a = Some (cells_of ?cap xs)" using assms(1) a by (simp add: stored_as_def)
  define h1 where "h1 = h\<lparr>blocks := (blocks h)(a \<mapsto> (cells_of ?cap xs)[?i := Some (moved (last xs))])\<rparr>"
  define h2 where "h2 = h1\<lparr>blocks := (blocks h)(a \<mapsto> cells_of ?cap (butlast xs)), destroyed := Suc (destroyed h)\<rparr>"
  have "cells_of ?cap xs ! ?i = Some (xs ! ?i)" using i le \<open>?i < ?cap\<close> nth_cells_of [OF le, of ?i] by presburger
  then have last: "cells_of ?cap xs ! ?i = Some (last xs)" using last_conv_nth [OF assms(2)] by simp
  then have read: "heap_read (v_data v) ?i h = Inr (last xs)" using a by (simp add: heap_read_def)
  have assign: "heap_assign False (v_data v) ?i (moved (last xs)) h = Inr h1"
    using a last by (simp add: heap_assign_def h1_def)
  have "block_at (v_data v) ?i h1 = Inr (a, (cells_of ?cap xs)[?i := Some (moved (last xs))])"
    using a(1) \<open>?i < ?cap\<close> le by (simp add: block_at_def h1_def)
  then have destroy: "heap_destroy (v_data v) ?i h1 = Inr h2"
    using \<open>?i < ?cap\<close> le cells_of_butlast [OF assms(2) le] by (simp add: heap_destroy_def h2_def h1_def)
  have "vec_pop_back moved v h = Inr (last xs, v\<lparr>v_size := ?i\<rparr>, h2)"
    using assms(2) sz read assign destroy by (simp add: vec_pop_back_def)
  moreover have "stored_as (v\<lparr>v_size := ?i\<rparr>) h2 (butlast xs)"
    using assms a by (auto simp: stored_as_def h2_def h1_def)
  ultimately show ?thesis by blast
qed

lemma vec_destructor_spec:
  assumes "stored_as v h xs"
  shows "\<exists>h'. vec_destructor v h = Inr h' \<and> (\<forall>a. blocks h' a = None) \<and> made h' = destroyed h'"
proof (cases "v_data v")
  case None
  with assms show ?thesis by (auto simp: vec_destructor_def stored_as_def)
next
  case (Some a)
  have blk: "blocks h a = Some ([] @ map Some xs @ replicate (v_capacity v - length xs) None)"
    using assms Some by (simp add: stored_as_def cells_of_def)
  have sz: "v_size v = length xs" using assms by (simp add: stored_as_def)
  obtain h1 where "destroy_cells (Some a) 0 (length xs) h = Inr h1" "made h1 = made h" "destroyed h1 = destroyed h + length xs"
    and h1: "blocks h1 = (blocks h)(a \<mapsto> replicate (length xs) None @ replicate (v_capacity v - length xs) None)"
    using destroy_cells_spec [OF blk refl] by auto
  then show ?thesis
    using assms Some sz by (auto simp: vec_destructor_def heap_delete_def stored_as_def)
qed

text \<open>A program on one vector; what is thrown is caught and the vector used further.\<close>

datatype 'a vec_op = Push 'a | Emplace 'a | Pop | Index nat | Reserve nat

definition caught :: "zvec \<Rightarrow> 'a heap \<Rightarrow> ('b option \<times> zvec \<times> 'a heap) res \<Rightarrow> ((string + 'b option) \<times> zvec \<times> 'a heap) res" where
  "caught v h r = (case r of
     Inr (x, v', h') \<Rightarrow> Inr (Inr x, v', h') | Inl (Throw m) \<Rightarrow> Inr (Inl m, v, h) | Inl e \<Rightarrow> Inl e)"

fun vec_do :: "('a \<Rightarrow> 'a) \<Rightarrow> 'a vec_op \<Rightarrow> zvec \<Rightarrow> 'a heap \<Rightarrow> ((string + 'a option) \<times> zvec \<times> 'a heap) res" where
  "vec_do moved (Push x) v h = caught v h (bind_res (vec_push_back moved (Outside x) v h) (\<lambda>(v', h'). Inr (None, v', h')))"
| "vec_do moved (Emplace x) v h = caught v h (bind_res (vec_emplace_back moved (Outside x) v h) (\<lambda>(v', h'). Inr (None, v', h')))"
| "vec_do moved Pop v h = caught v h (bind_res (vec_pop_back moved v h) (\<lambda>(x, v', h'). Inr (Some x, v', h')))"
| "vec_do moved (Index i) v h = caught v h (bind_res (vec_index i v h) (\<lambda>x. Inr (Some x, v, h)))"
| "vec_do moved (Reserve n) v h = caught v h (bind_res (vec_reserve moved n v h) (\<lambda>(v', h'). Inr (None, v', h')))"

fun vec_run :: "('a \<Rightarrow> 'a) \<Rightarrow> 'a vec_op list \<Rightarrow> zvec \<Rightarrow> 'a heap \<Rightarrow> ((string + 'a option) list \<times> zvec \<times> 'a heap) res" where
  "vec_run moved [] v h = Inr ([], v, h)"
| "vec_run moved (op # ops) v h = bind_res (vec_do moved op v h) (\<lambda>(a, v1, h1).
     bind_res (vec_run moved ops v1 h1) (\<lambda>(as, v2, h2). Inr (a # as, v2, h2)))"

text \<open>The same program on a list.\<close>

fun list_do :: "'a vec_op \<Rightarrow> 'a list \<Rightarrow> (string + 'a option) \<times> 'a list" where
  "list_do (Push x) xs = (Inr None, xs @ [x])"
| "list_do (Emplace x) xs = (Inr None, xs @ [x])"
| "list_do Pop xs = (if xs = [] then (Inl ''Cannot pop_back as size is 0'', xs) else (Inr (Some (last xs)), butlast xs))"
| "list_do (Index i) xs = (if i < length xs then Inr (Some (xs ! i)) else Inl (''Index '' @ to_string i @ '' out of bounds''), xs)"
| "list_do (Reserve n) xs = (Inr None, xs)"

fun list_run :: "'a vec_op list \<Rightarrow> 'a list \<Rightarrow> (string + 'a option) list \<times> 'a list" where
  "list_run [] xs = ([], xs)"
| "list_run (op # ops) xs = (let (a, ys) = list_do op xs; (as, zs) = list_run ops ys in (a # as, zs))"

lemma vec_do_spec:
  assumes "stored_as v h xs"
  shows "\<exists>v' h'. vec_do moved op v h = Inr (fst (list_do op xs), v', h') \<and> stored_as v' h' (snd (list_do op xs))"
proof (cases op)
  case (Push x)
  with vec_emplace_spec(2) [OF assms, of moved x] show ?thesis by (auto simp: caught_def)
next
  case (Emplace x)
  with vec_emplace_spec(1) [OF assms, of moved x] show ?thesis by (auto simp: caught_def)
next
  case Pop
  show ?thesis
  proof (cases "xs = []")
    case True
    then have "v_size v = 0" using assms by (simp add: stored_as_def)
    then show ?thesis using Pop True assms by (simp add: caught_def vec_pop_back_def)
  next
    case False
    with vec_pop_spec [OF assms False, of moved] Pop show ?thesis by (auto simp: caught_def)
  qed
next
  case (Index i)
  with vec_index_spec [OF assms, of i] assms show ?thesis by (auto simp: caught_def)
next
  case (Reserve n)
  have "length xs \<le> n" if "v_capacity v < n" using assms that by (simp add: stored_as_def)
  with vec_reallocate_spec [OF assms refl, of n moved] Reserve assms show ?thesis
    by (cases "v_capacity v < n") (auto simp: caught_def vec_reserve_def)
qed

lemma vec_run_spec:
  assumes "stored_as v h xs"
  shows "\<exists>v' h'. vec_run moved ops v h = Inr (fst (list_run ops xs), v', h') \<and> stored_as v' h' (snd (list_run ops xs))"
  using assms
proof (induction ops arbitrary: v h xs)
  case Nil
  then show ?case by simp
next
  case (Cons op ops)
  from vec_do_spec [OF Cons.prems, of moved op] obtain v1 h1 where
    v1: "vec_do moved op v h = Inr (fst (list_do op xs), v1, h1)" "stored_as v1 h1 (snd (list_do op xs))" by blast
  from Cons.IH [OF v1(2)] v1(1) show ?case by (auto simp: Let_def split: prod.splits)
qed

text \<open>The default constructor, or the one with a size, which reserves memory and makes no objects.\<close>

definition vec_constructed :: "nat option \<Rightarrow> zvec \<times> 'a heap" where
  "vec_constructed n = (case n of None \<Rightarrow> (vec_default, heap_empty) | Some n \<Rightarrow> vec_sized n heap_empty)"

lemma vec_constructed_stored: "vec_constructed n = (v, h) \<Longrightarrow> stored_as v h []"
  by (auto simp: vec_constructed_def stored_as_def vec_default_def heap_empty_def vec_sized_def heap_new_def
    vec_reset_def cells_of_def split: option.splits)

text \<open>
  Claim C35.  Any sequence of \<open>push_back\<close>, \<open>emplace_back\<close>, \<open>pop_back\<close>, \<open>operator[]\<close> and
  \<open>reserve\<close> on a \<open>zam::vector\<close> made by the default constructor or the one with a size, with values
  from outside the vector, answers and throws exactly as on a list, with no access to freed or raw
  memory, and after the destructor all memory is returned and every object made has been destroyed.
  (With a reference into the vector itself \<open>push_back\<close> does read freed memory:
  \<open>push_own_element_dangles\<close>.)
\<close>

theorem zam_vector_refines_list:
  "\<exists>v h h'. (case vec_constructed n of (v0, h0) \<Rightarrow> vec_run moved ops v0 h0) = Inr (fst (list_run ops []), v, h) \<and>
     v_size v = length (snd (list_run ops [])) \<and>
     vec_destructor v h = Inr h' \<and> (\<forall>a. blocks h' a = None) \<and> made h' = destroyed h'"
proof -
  obtain v0 and h0 :: "'a heap" where c: "vec_constructed n = (v0, h0)" by fastforce
  from vec_run_spec [OF vec_constructed_stored [OF c]] obtain v h where
    v: "vec_run moved ops v0 h0 = Inr (fst (list_run ops []), v, h)" "stored_as v h (snd (list_run ops []))"
    by blast
  moreover have "v_size v = length (snd (list_run ops []))" using v(2) by (simp add: stored_as_def)
  ultimately show ?thesis using vec_destructor_spec [OF v(2)] by (simp add: c)
qed

end
