(* ===== verification/VectorTests.thy ===== *)
theory VectorTests
  imports HeapVector
begin

text \<open>
  The test functions of \<^verbatim>\<open>Study/vector.cpp\<close>, with their assertions as the result, and two
  misuses the tests leave out.  \<open>test_type_moved\<close> is the move of \<open>TestType\<close>, which leaves 0
  behind; a moved-from \<open>std::string\<close> is left empty.
\<close>

definition int_moved :: "int \<Rightarrow> int" where "int_moved x = x"
definition test_type_moved :: "int \<Rightarrow> int" where "test_type_moved x = 0"
definition string_moved :: "string \<Rightarrow> string" where "string_moved s = []"

definition test_default_constructor :: bool where
  "test_default_constructor = (v_size vec_default = 0 \<and> v_capacity vec_default = 0)"

definition test_size_constructor :: bool where
  "test_size_constructor = (let (v, h) = vec_sized 5 (heap_empty :: int heap) in v_size v = 0 \<and> v_capacity v \<ge> 5)"

definition all_answers :: "('a \<Rightarrow> 'a) \<Rightarrow> 'a vec_op list \<Rightarrow> (string + 'a option) list \<Rightarrow> zvec \<Rightarrow> 'a heap \<Rightarrow> (bool \<times> zvec \<times> 'a heap) res" where
  "all_answers moved ops answers v h =
     bind_res (vec_run moved ops v h) (\<lambda>(as, v', h'). Inr (as = answers, v', h'))"

definition test_size_value_constructor :: "bool res" where
  "test_size_value_constructor =
     bind_res (vec_filled True 5 (42 :: int) heap_empty) (\<lambda>(v, h).
     bind_res (all_answers int_moved (map Index [0..<5]) (replicate 5 (Inr (Some 42))) v h) (\<lambda>(ok, v, h).
     Inr (v_size v = 5 \<and> ok)))"

definition test_push_back_and_indexing :: "bool res" where
  "test_push_back_and_indexing =
     bind_res (all_answers int_moved [Push 1, Push 2, Push 3] (replicate 3 (Inr None)) vec_default heap_empty) (\<lambda>(ok1, v, h).
     bind_res (all_answers int_moved [Index 0, Index 1, Index 2, Index 3]
       [Inr (Some 1), Inr (Some 2), Inr (Some 3), Inl ''Index 3 out of bounds''] v h) (\<lambda>(ok2, v', h').
     Inr (ok1 \<and> v_size v = 3 \<and> ok2)))"

definition test_emplace_back :: "bool res" where
  "test_emplace_back =
     bind_res (all_answers string_moved [Emplace ''hello'', Emplace (replicate 5 (CHR ''x''))] (replicate 2 (Inr None))
       vec_default heap_empty) (\<lambda>(ok1, v, h).
     bind_res (all_answers string_moved [Index 0, Index 1] [Inr (Some ''hello''), Inr (Some ''xxxxx'')] v h) (\<lambda>(ok2, v', h').
     Inr (ok1 \<and> v_size v = 2 \<and> ok2)))"

definition test_pop_back :: "bool res" where
  "test_pop_back =
     bind_res (all_answers int_moved [Push 10, Push 20, Pop] [Inr None, Inr None, Inr (Some 20)] vec_default heap_empty) (\<lambda>(ok1, v, h).
     bind_res (all_answers int_moved [Pop, Pop] [Inr (Some 10), Inl ''Cannot pop_back as size is 0''] v h) (\<lambda>(ok2, v', h').
     Inr (ok1 \<and> v_size v = 1 \<and> ok2)))"

definition test_copy_constructor_and_assignment :: "bool res" where
  "test_copy_constructor_and_assignment =
     bind_res (all_answers int_moved [Push 1, Push 2] (replicate 2 (Inr None)) vec_default heap_empty) (\<lambda>(ok1, v1, h1).
     bind_res (vec_copy int_moved v1 h1) (\<lambda>(v2, h2).
     bind_res (all_answers int_moved [Index 0, Index 1] [Inr (Some 1), Inr (Some 2)] v2 h2) (\<lambda>(ok2, v2, h2).
     bind_res (vec_copy_assign int_moved v2 vec_default h2) (\<lambda>(v3, h3).
     bind_res (all_answers int_moved [Index 0, Index 1] [Inr (Some 1), Inr (Some 2)] v3 h3) (\<lambda>(ok3, v3, h3).
     Inr (v_size v2 = 2 \<and> ok2 \<and> v_size v3 = 2 \<and> ok3))))))"

definition test_move_constructor_and_assignment :: "bool res" where
  "test_move_constructor_and_assignment =
     bind_res (all_answers int_moved [Push 1, Push 2] (replicate 2 (Inr None)) vec_default heap_empty) (\<lambda>(ok1, v1, h1).
     let (v2, v1') = vec_move v1 in
     bind_res (all_answers int_moved [Index 0, Index 1] [Inr (Some 1), Inr (Some 2)] v2 h1) (\<lambda>(ok2, v2, h2).
     bind_res (vec_move_assign v2 vec_default h2) (\<lambda>(v3, v2', h3).
     bind_res (all_answers int_moved [Index 0, Index 1] [Inr (Some 1), Inr (Some 2)] v3 h3) (\<lambda>(ok3, v3, h3).
     Inr (v_size v2 = 2 \<and> ok2 \<and> v_size v1' = 0 \<and> v_size v3 = 2 \<and> ok3 \<and> v_size v2' = 0)))))"

definition test_reserve_and_capacity :: "bool res" where
  "test_reserve_and_capacity =
     bind_res (all_answers int_moved [Reserve 10] [Inr None] vec_default heap_empty) (\<lambda>(ok1, v, h).
     bind_res (all_answers int_moved (map (\<lambda>i. Push (int i)) [0..<10]) (replicate 10 (Inr None)) v h) (\<lambda>(ok2, v', h').
     Inr (v_capacity v \<ge> 10 \<and> v_size v = 0 \<and> v_size v' = 10 \<and> v_capacity v' \<ge> 10)))"

definition test_destruction_count :: "bool res" where
  "test_destruction_count =
     bind_res (all_answers test_type_moved [Reserve 2, Emplace 1, Emplace 2] (replicate 3 (Inr None)) vec_default heap_empty) (\<lambda>(ok, v, h).
     bind_res (vec_destructor v h) (\<lambda>h'.
     Inr (made h = 2 \<and> destroyed h' = 2)))"

definition test_emplace_and_push_with_nontrivial :: "bool res" where
  "test_emplace_and_push_with_nontrivial =
     bind_res (all_answers test_type_moved [Push 5, Emplace 10] (replicate 2 (Inr None)) vec_default heap_empty) (\<lambda>(ok1, v, h).
     bind_res (all_answers test_type_moved [Index 0, Index 1] [Inr (Some 5), Inr (Some 10)] v h) (\<lambda>(ok2, v', h').
     Inr (v_size v = 2 \<and> ok2)))"

definition test_reallocate_grows_capacity :: "bool res" where
  "test_reallocate_grows_capacity =
     bind_res (vec_filled True 2 (0 :: int) heap_empty) (\<lambda>(v0, h0).
     bind_res (all_answers int_moved [Push 1] [Inr None] v0 h0) (\<lambda>(ok1, v1, h1).
     bind_res (if v_capacity v1 = v_capacity v0 then all_answers int_moved [Push 2] [Inr None] v1 h1 else Inr (True, v1, h1)) (\<lambda>(ok2, v2, h2).
     Inr (v_capacity v2 > v_capacity v0))))"

lemmas heap_eval = heap_empty_def heap_new_def block_at_def heap_read_def heap_construct_def heap_assign_def
  heap_destroy_def heap_delete_def

lemma list_answers:
  assumes "stored_as v h xs"
  shows "\<exists>v' h'. all_answers moved ops as v h = Inr (fst (list_run ops xs) = as, v', h') \<and> stored_as v' h' (snd (list_run ops xs))"
  using vec_run_spec [OF assms, of moved ops] by (auto simp: all_answers_def)

lemma stored_empty: "stored_as vec_default heap_empty []"
  by (simp add: stored_as_def vec_default_def heap_empty_def)

lemma stored_size: "stored_as v h xs \<Longrightarrow> v_size v = length xs"
  by (simp add: stored_as_def)

text \<open>All assertions hold.\<close>

lemma tests_pass_simple: "test_default_constructor" "test_size_constructor"
  by (simp_all add: test_default_constructor_def test_size_constructor_def vec_default_def vec_sized_def heap_new_def vec_reset_def)

lemma two_runs:
  "bind_res (all_answers moved ops1 as1 vec_default heap_empty) (\<lambda>(ok1, v, h).
      bind_res (all_answers moved ops2 as2 v h) (\<lambda>(ok2, v', h'). Inr (f ok1 (v_size v) ok2)))
    = Inr (f (fst (list_run ops1 []) = as1) (length (snd (list_run ops1 []))) (fst (list_run ops2 (snd (list_run ops1 []))) = as2))"
proof -
  from list_answers [OF stored_empty, of moved ops1 as1] obtain v h where
    v: "all_answers moved ops1 as1 vec_default heap_empty = Inr (fst (list_run ops1 []) = as1, v, h)"
      "stored_as v h (snd (list_run ops1 []))" by blast
  from list_answers [OF v(2), of moved ops2 as2] v stored_size [OF v(2)] show ?thesis by auto
qed

lemma to_string_three: "to_string (Suc (Suc (Suc 0))) = ''3''"
proof -
  have "to_string 3 = ''3''" by code_simp
  then show ?thesis by (simp add: numeral_3_eq_3)
qed

lemma tests_pass_lists:
  "test_push_back_and_indexing = Inr True" "test_emplace_back = Inr True" "test_pop_back = Inr True"
  "test_emplace_and_push_with_nontrivial = Inr True"
proof -
  show "test_push_back_and_indexing = Inr True"
    unfolding test_push_back_and_indexing_def two_runs [where f = "\<lambda>a n b. a \<and> n = 3 \<and> b"] by (simp add: numeral_3_eq_3 to_string_three)
  show "test_emplace_back = Inr True"
    unfolding test_emplace_back_def two_runs [where f = "\<lambda>a n b. a \<and> n = 2 \<and> b"] by (simp add: numeral_eq_Suc)
  show "test_pop_back = Inr True"
    unfolding test_pop_back_def two_runs [where f = "\<lambda>a n b. a \<and> n = 1 \<and> b"] by simp
  show "test_emplace_and_push_with_nontrivial = Inr True"
    unfolding test_emplace_and_push_with_nontrivial_def two_runs [where f = "\<lambda>a n b. n = 2 \<and> b"] by (simp add: numeral_eq_Suc)
qed

lemma tests_pass_memory:
  "test_copy_constructor_and_assignment = Inr True" "test_move_constructor_and_assignment = Inr True"
  "test_destruction_count = Inr True" "test_reallocate_grows_capacity = Inr True"
  by (simp_all add: test_copy_constructor_and_assignment_def test_move_constructor_and_assignment_def
    test_destruction_count_def test_reallocate_grows_capacity_def heap_eval vec_default_def vec_reset_def vec_filled_def vec_reallocate_def vec_reserve_def
    vec_push_back_def vec_emplace_back_def vec_pop_back_def vec_index_def vec_destructor_def vec_copy_def
    vec_copy_assign_def vec_move_def vec_move_assign_def arg_read_def caught_def all_answers_def
    test_type_moved_def string_moved_def int_moved_def numeral_eq_Suc cong: bind_res_weak_cong)

lemma fill_cells_spec:
  assumes "blocks h a = Some (pre @ replicate (n + m) None)" and "length pre = i"
  shows "\<exists>h'. fill_cells True (Some a) i n x h = Inr h' \<and>
    blocks h' = (blocks h)(a \<mapsto> pre @ replicate n (Some x) @ replicate m None) \<and>
    fresh h' = fresh h \<and> made h' = made h + n \<and> destroyed h' = destroyed h"
  using assms
proof (induction n arbitrary: h i pre)
  case 0
  then show ?case by (auto simp: fun_upd_idem)
next
  case (Suc n)
  define h1 where "h1 = h\<lparr>blocks := (blocks h)(a \<mapsto> pre @ Some x # replicate (n + m) None), made := Suc (made h)\<rparr>"
  have step: "fill_cells True (Some a) i (Suc n) x h = fill_cells True (Some a) (Suc i) n x h1"
    using Suc.prems by (simp add: heap_assign_def block_at_def h1_def list_update_append nth_append)
  have "\<exists>h'. fill_cells True (Some a) (Suc i) n x h1 = Inr h' \<and>
    blocks h' = (blocks h1)(a \<mapsto> (pre @ [Some x]) @ replicate n (Some x) @ replicate m None) \<and>
    fresh h' = fresh h1 \<and> made h' = made h1 + n \<and> destroyed h' = destroyed h1"
    by (rule Suc.IH) (use Suc.prems in \<open>simp_all add: h1_def\<close>)
  then show ?case unfolding step by (auto simp: h1_def)
qed

lemma vec_filled_spec:
  "\<exists>v h. vec_filled True n x heap_empty = Inr (v, h) \<and> stored_as v h (replicate n x)"
proof -
  define h1 where "h1 = (heap_empty :: 'a heap)\<lparr>blocks := Map.empty(0 \<mapsto> replicate n None), fresh := 1\<rparr>"
  have new: "heap_new n heap_empty = (0, h1)" by (simp add: heap_new_def heap_empty_def h1_def)
  obtain h2 where "fill_cells True (Some 0) 0 n x h1 = Inr h2" "blocks h2 = (blocks h1)(0 \<mapsto> replicate n (Some x))"
      "fresh h2 = 1" "made h2 = n" "destroyed h2 = 0"
    using fill_cells_spec [of h1 0 "[]" n 0 0 x] by (auto simp: h1_def heap_empty_def)
  then show ?thesis
    using new by (auto simp: vec_filled_def stored_as_def vec_reset_def cells_of_def h1_def heap_empty_def)
qed

lemma tests_pass_sized: "test_size_value_constructor = Inr True" "test_reserve_and_capacity = Inr True"
proof -
  obtain v h where v: "vec_filled True 5 (42 :: int) heap_empty = Inr (v, h)" "stored_as v h (replicate 5 42)"
    using vec_filled_spec [of 5 "42 :: int"] by blast
  obtain v' h' where v': "all_answers int_moved (map Index [0..<5]) (replicate 5 (Inr (Some 42))) v h = Inr (True, v', h')"
      "stored_as v' h' (replicate 5 42)"
    using list_answers [OF v(2), of int_moved "map Index [0..<5]" "replicate 5 (Inr (Some 42))"]
    by (auto simp: numeral_eq_Suc)
  with v stored_size [OF v'(2)] show "test_size_value_constructor = Inr True" by (simp add: test_size_value_constructor_def)
next
  obtain v1 h1 where v1: "vec_reallocate int_moved 10 vec_default heap_empty = Inr (v1, h1)" "stored_as v1 h1 []" "v_capacity v1 = 10"
    using vec_reallocate_spec [OF stored_empty refl, of 10 int_moved] by auto
  then have first: "all_answers int_moved [Reserve 10] [Inr None] vec_default heap_empty = Inr (True, v1, h1)"
    by (simp add: all_answers_def vec_reserve_def caught_def vec_default_def)
  let ?ops = "map (\<lambda>i. Push (int i)) [0..<10]"
  have "fst (list_run ?ops []) = replicate 10 (Inr None)" "length (snd (list_run ?ops [])) = 10"
    by (simp_all add: numeral_eq_Suc)
  with list_answers [OF v1(2), of int_moved ?ops "replicate 10 (Inr None)"] obtain v2 h2 xs where
    v2: "all_answers int_moved ?ops (replicate 10 (Inr None)) v1 h1 = Inr (True, v2, h2)" "stored_as v2 h2 xs" "length xs = 10"
    by auto
  then have "v_size v2 = 10" "v_capacity v2 \<ge> 10" by (auto simp: stored_as_def)
  with first v1 v2 show "test_reserve_and_capacity = Inr True"
    using stored_size [OF v1(2)] by (simp add: test_reserve_and_capacity_def)
qed

text \<open>
  Pushing an element of the vector itself when it is full: the reallocation frees the block the
  reference points into before the value is read.
\<close>

lemma push_own_element_dangles:
  "bind_res (vec_push_back int_moved (Outside 7) vec_default heap_empty)
     (\<lambda>(v, h). vec_push_back int_moved (Cell (v_data v) 0) v h) = Inl (UB DanglingPointer)"
  by (simp add: heap_eval vec_default_def vec_reset_def vec_reallocate_def vec_push_back_def arg_read_def cong: bind_res_weak_cong)

text \<open>Move assignment frees the target's memory without destroying its elements.\<close>

lemma move_assign_leaks_objects:
  "bind_res (vec_push_back test_type_moved (Outside 1) vec_default heap_empty) (\<lambda>(v, h).
   bind_res (vec_move_assign vec_default v h) (\<lambda>(v', other', h').
     Inr (made h', destroyed h', \<forall>a. blocks h' a = None))) = Inr (1, 0, True)"
  by (simp add: heap_eval vec_default_def vec_reset_def vec_reallocate_def vec_push_back_def vec_move_assign_def
    arg_read_def cong: bind_res_weak_cong)

end
