(* ===== verification/MockBooks.thy ===== *)
theory MockBooks
  imports Floats
begin

text \<open>
  The two interview order books of \<^verbatim>\<open>c++20/MockOrderBook.cpp\<close> (orders copied into a pool) and
  \<^verbatim>\<open>c++20/MockOrderBook_ZeroCopy.cpp\<close> (orders left where the caller has them, indices of type
  \<open>size_t\<close>).  \<open>std::unordered_map\<close> is a finite map, an order is its position in the pool or in
  the caller's memory, and \<open>MAX_PRICE_LEVELS\<close> is the length of the level arrays.  Both programs
  also run a benchmark, whose random orders and quantities are arguments here, and a small scenario.
\<close>

subsection \<open>Prices and levels\<close>

definition TICK_SIZE :: dbl where "TICK_SIZE = Dbl 5764607523034235 (- 59)"
definition TICKS_PER_UNIT :: dbl where "TICKS_PER_UNIT = Dbl 100 0"

definition price_to_index :: "dbl \<Rightarrow> int res" where
  "price_to_index price = c_int (dbl_trunc (dbl_mul price TICKS_PER_UNIT))"

definition index_to_price :: "int \<Rightarrow> dbl" where
  "index_to_price index = dbl_mul (Dbl index 0) TICK_SIZE"

record mock_order =
  mo_id :: u64
  mo_price :: dbl
  mo_quantity :: int
  mo_buy :: bool

definition add_level :: "int list \<Rightarrow> int \<Rightarrow> int \<Rightarrow> int list res" where
  "add_level levels idx q =
     bind_res (array_get levels idx) (\<lambda>old. bind_res (c_int (old + q)) (array_set levels idx))"

text \<open>The first level with quantity below \<open>n\<close>, going down, and from \<open>i\<close> on, going up.\<close>

fun first_down :: "int list \<Rightarrow> nat \<Rightarrow> int option" where
  "first_down levels 0 = None"
| "first_down levels (Suc i) = (if levels ! i > 0 then Some (int i) else first_down levels i)"

fun first_up :: "int list \<Rightarrow> nat \<Rightarrow> nat \<Rightarrow> int option" where
  "first_up levels i 0 = None"
| "first_up levels i (Suc n) = (if levels ! i > 0 then Some (int i) else first_up levels (Suc i) n)"

subsection \<open>The book with a pool\<close>

record mock_book =
  mb_pool :: "mock_order list"
  mb_memory :: "nat list"
  mb_count :: nat
  mb_map :: "u64 \<Rightarrow> nat option"
  mb_bids :: "int list"
  mb_asks :: "int list"
  mb_best_bid :: int
  mb_best_ask :: int

definition empty_order :: mock_order where
  "empty_order = \<lparr>mo_id = 0, mo_price = Dbl 0 0, mo_quantity = 0, mo_buy = False\<rparr>"

definition mb_new :: "nat \<Rightarrow> nat \<Rightarrow> mock_book" where
  "mb_new pool_size levels =
     \<lparr>mb_pool = replicate pool_size empty_order, mb_memory = [0..<pool_size], mb_count = 0, mb_map = (\<lambda>_. None),
      mb_bids = replicate levels 0, mb_asks = replicate levels 0, mb_best_bid = - 1, mb_best_ask = int levels\<rparr>"

definition mb_insert :: "mock_order \<Rightarrow> mock_book \<Rightarrow> mock_book res" where
  "mb_insert order b =
     (if mb_count b \<ge> length (mb_pool b) then Inl (Throw ''Order pool is full'')
      else let b = b\<lparr>mb_count := Suc (mb_count b)\<rparr> in
        bind_res (price_to_index (mo_price order)) (\<lambda>idx.
        bind_res (if mo_buy order
            then bind_res (add_level (mb_bids b) idx (mo_quantity order)) (\<lambda>bids.
              Inr (b\<lparr>mb_bids := bids, mb_best_bid := if idx > mb_best_bid b then idx else mb_best_bid b\<rparr>))
            else bind_res (add_level (mb_asks b) idx (mo_quantity order)) (\<lambda>asks.
              Inr (b\<lparr>mb_asks := asks, mb_best_ask := if idx < mb_best_ask b then idx else mb_best_ask b\<rparr>))) (\<lambda>b.
        if mb_memory b = [] then Inl (UB EmptyContainer)
        else let mem = last (mb_memory b) in
          Inr (b\<lparr>mb_memory := butlast (mb_memory b), mb_pool := (mb_pool b)[mem := order],
                 mb_map := (mb_map b)(mo_id order \<mapsto> mem)\<rparr>))))"

text \<open>
  The assignment of 0 or of the last level after the loop is outside the \<open>if\<close>, so it runs unless
  the loop found a level.
\<close>

definition mb_update_price_level :: "bool \<Rightarrow> dbl \<Rightarrow> int \<Rightarrow> mock_book \<Rightarrow> mock_book res" where
  "mb_update_price_level is_buy price update_quantity b =
     bind_res (price_to_index price) (\<lambda>idx.
       if is_buy
       then bind_res (add_level (mb_bids b) idx update_quantity) (\<lambda>bids.
         Inr (b\<lparr>mb_bids := bids, mb_best_bid :=
           (if idx = mb_best_bid b \<and> bids ! nat idx = 0
            then (case first_down bids (nat idx) of Some i \<Rightarrow> i | None \<Rightarrow> 0)
            else 0)\<rparr>))
       else bind_res (add_level (mb_asks b) idx update_quantity) (\<lambda>asks.
         Inr (b\<lparr>mb_asks := asks, mb_best_ask :=
           (if idx = mb_best_ask b \<and> asks ! nat idx = 0
            then (case first_up asks (nat idx + 1) (length asks - (nat idx + 1)) of
                    Some i \<Rightarrow> i | None \<Rightarrow> int (length asks) - 1)
            else int (length asks) - 1)\<rparr>)))"

definition mb_update :: "u64 \<Rightarrow> int \<Rightarrow> mock_book \<Rightarrow> mock_book res" where
  "mb_update order_id new_quantity b = (case mb_map b order_id of
     None \<Rightarrow> Inl (Throw ''Order not found'')
   | Some mem \<Rightarrow> (let ord = mb_pool b ! mem in
       bind_res (c_int (new_quantity - mo_quantity ord)) (\<lambda>d.
       bind_res (mb_update_price_level (mo_buy ord) (mo_price ord) d b) (\<lambda>b.
       Inr (b\<lparr>mb_pool := (mb_pool b)[mem := ord\<lparr>mo_quantity := new_quantity\<rparr>]\<rparr>)))))"

definition mb_cancel :: "u64 \<Rightarrow> mock_book \<Rightarrow> mock_book res" where
  "mb_cancel order_id b = (case mb_map b order_id of
     None \<Rightarrow> Inl (Throw ''Order not found'')
   | Some mem \<Rightarrow> (let ord = mb_pool b ! mem in
       bind_res (c_int (- mo_quantity ord)) (\<lambda>d.
       bind_res (mb_update_price_level (mo_buy ord) (mo_price ord) d b) (\<lambda>b.
       Inr (b\<lparr>mb_memory := mb_memory b @ [mem], mb_count := mb_count b - 1, mb_map := (mb_map b)(order_id := None)\<rparr>)))))"

definition mb_best_bid_top :: "mock_book \<Rightarrow> (dbl \<times> int) res" where
  "mb_best_bid_top b = bind_res (array_get (mb_bids b) (mb_best_bid b)) (\<lambda>q. Inr (index_to_price (mb_best_bid b), q))"

definition mb_best_ask_top :: "mock_book \<Rightarrow> (dbl \<times> int) res" where
  "mb_best_ask_top b = bind_res (array_get (mb_asks b) (mb_best_ask b)) (\<lambda>q. Inr (index_to_price (mb_best_ask b), q))"

subsection \<open>The benchmark and the scenario\<close>

fun mb_insert_all :: "mock_order list \<Rightarrow> mock_book \<Rightarrow> mock_book res" where
  "mb_insert_all [] b = Inr b"
| "mb_insert_all (o1 # os) b = bind_res (mb_insert o1 b) (mb_insert_all os)"

text \<open>\<open>deltas\<close> are the random changes, from -10 to 9; a quantity never falls below 1.\<close>

fun mb_update_all :: "mock_order list \<Rightarrow> int list \<Rightarrow> mock_book \<Rightarrow> mock_book res" where
  "mb_update_all (o1 # os) (d # ds) b = bind_res (mb_update (mo_id o1) (max 1 (mo_quantity o1 + d)) b) (mb_update_all os ds)"
| "mb_update_all _ _ b = Inr b"

fun mb_cancel_all :: "mock_order list \<Rightarrow> mock_book \<Rightarrow> mock_book res" where
  "mb_cancel_all [] b = Inr b"
| "mb_cancel_all (o1 # os) b = bind_res (mb_cancel (mo_id o1) b) (mb_cancel_all os)"

text \<open>The result of the benchmark is whether its assertion holds.\<close>

definition mb_benchmark :: "mock_order list \<Rightarrow> int list \<Rightarrow> mock_book \<Rightarrow> bool res" where
  "mb_benchmark orders deltas b =
     bind_res (mb_insert_all orders b) (\<lambda>b.
     bind_res (mb_update_all orders deltas b) (\<lambda>b.
     bind_res (mb_cancel_all orders b) (\<lambda>b.
     bind_res (mb_best_bid_top b) (\<lambda>bid.
     bind_res (mb_best_ask_top b) (\<lambda>ask. Inr (snd bid = 0 \<and> snd ask = 0))))))"

definition mock_orders :: "mock_order list" where
  "mock_orders = [\<lparr>mo_id = 1, mo_price = Dbl 100 0, mo_quantity = 10, mo_buy = True\<rparr>,
     \<lparr>mo_id = 2, mo_price = Dbl 101 0, mo_quantity = 5, mo_buy = False\<rparr>]"

definition mb_main :: "mock_book \<Rightarrow> ((dbl \<times> int) \<times> (dbl \<times> int)) res" where
  "mb_main b =
     bind_res (mb_insert_all mock_orders b) (\<lambda>b.
     bind_res (mb_update 1 15 b) (\<lambda>b.
     bind_res (mb_cancel 2 b) (\<lambda>b.
     bind_res (mb_best_bid_top b) (\<lambda>bid.
     bind_res (mb_best_ask_top b) (\<lambda>ask. Inr (bid, ask))))))"

subsection \<open>The book without copies\<close>

text \<open>
  Indices are \<open>size_t\<close>: the best bid starts at \<open>2 ^ 64 - 1\<close>, and \<open>price_to_index\<close> converts an
  \<open>int\<close>.  The loop \<open>for (size_t i = idx - 1; i >= 0; --i)\<close> has no other end than finding a level
  or leaving the array.
\<close>

record zc_book =
  zc_orders :: "mock_order list"
  zc_map :: "u64 \<Rightarrow> nat option"
  zc_bids :: "int list"
  zc_asks :: "int list"
  zc_best_bid :: u64
  zc_best_ask :: u64

definition zc_new :: "mock_order list \<Rightarrow> nat \<Rightarrow> zc_book" where
  "zc_new orders levels = \<lparr>zc_orders = orders, zc_map = (\<lambda>_. None), zc_bids = replicate levels 0,
     zc_asks = replicate levels 0, zc_best_bid = - 1, zc_best_ask = of_nat levels\<rparr>"

definition zc_index :: "dbl \<Rightarrow> u64 res" where
  "zc_index price = bind_res (price_to_index price) (\<lambda>i. Inr (word_of_int i))"

definition zc_insert :: "nat \<Rightarrow> zc_book \<Rightarrow> zc_book res" where
  "zc_insert p b =
     (if p < length (zc_orders b) then
        let order = zc_orders b ! p in
        bind_res (zc_index (mo_price order)) (\<lambda>idx.
        bind_res (if mo_buy order
          then bind_res (add_level (zc_bids b) (uint idx) (mo_quantity order)) (\<lambda>bids.
            Inr (b\<lparr>zc_bids := bids, zc_best_bid := if idx > zc_best_bid b then idx else zc_best_bid b\<rparr>))
          else bind_res (add_level (zc_asks b) (uint idx) (mo_quantity order)) (\<lambda>asks.
            Inr (b\<lparr>zc_asks := asks, zc_best_ask := if idx < zc_best_ask b then idx else zc_best_ask b\<rparr>))) (\<lambda>b.
        Inr (b\<lparr>zc_map := (zc_map b)(mo_id order \<mapsto> p)\<rparr>)))
      else Inl (UB DanglingPointer))"

text \<open>The downward loop from \<open>n - 1\<close>: below level 0 the index wraps and the read is out of bounds.\<close>

fun zc_down :: "int list \<Rightarrow> nat \<Rightarrow> u64 res" where
  "zc_down levels 0 = Inl (UB OutOfBounds)"
| "zc_down levels (Suc i) = (if levels ! i > 0 then Inr (of_nat i) else zc_down levels i)"

definition zc_update_price_level :: "bool \<Rightarrow> dbl \<Rightarrow> int \<Rightarrow> zc_book \<Rightarrow> zc_book res" where
  "zc_update_price_level is_buy price update_quantity b =
     bind_res (zc_index price) (\<lambda>idx.
       if is_buy
       then bind_res (add_level (zc_bids b) (uint idx) update_quantity) (\<lambda>bids.
         bind_res (if idx = zc_best_bid b \<and> bids ! unat idx = 0 then zc_down bids (unat idx) else Inr 0) (\<lambda>best.
         Inr (b\<lparr>zc_bids := bids, zc_best_bid := best\<rparr>)))
       else bind_res (add_level (zc_asks b) (uint idx) update_quantity) (\<lambda>asks.
         Inr (b\<lparr>zc_asks := asks, zc_best_ask :=
           (if idx = zc_best_ask b \<and> asks ! unat idx = 0
            then (case first_up asks (unat idx + 1) (length asks - (unat idx + 1)) of
                    Some i \<Rightarrow> word_of_int i | None \<Rightarrow> of_nat (length asks) - 1)
            else of_nat (length asks) - 1)\<rparr>)))"

definition zc_update :: "u64 \<Rightarrow> int \<Rightarrow> zc_book \<Rightarrow> zc_book res" where
  "zc_update order_id new_quantity b = (case zc_map b order_id of
     None \<Rightarrow> Inl (Throw ''Order not found'')
   | Some p \<Rightarrow> (let ord = zc_orders b ! p in
       bind_res (c_int (new_quantity - mo_quantity ord)) (\<lambda>d.
       bind_res (zc_update_price_level (mo_buy ord) (mo_price ord) d b) (\<lambda>b.
       Inr (b\<lparr>zc_orders := (zc_orders b)[p := ord\<lparr>mo_quantity := new_quantity\<rparr>]\<rparr>)))))"

definition zc_cancel :: "u64 \<Rightarrow> zc_book \<Rightarrow> zc_book res" where
  "zc_cancel order_id b = (case zc_map b order_id of
     None \<Rightarrow> Inl (Throw ''Order not found'')
   | Some p \<Rightarrow> (let ord = zc_orders b ! p in
       bind_res (c_int (- mo_quantity ord)) (\<lambda>d.
       bind_res (zc_update_price_level (mo_buy ord) (mo_price ord) d b) (\<lambda>b.
       Inr (b\<lparr>zc_map := (zc_map b)(order_id := None)\<rparr>)))))"

definition zc_best_bid_top :: "zc_book \<Rightarrow> (dbl \<times> int) res" where
  "zc_best_bid_top b = bind_res (array_get (zc_bids b) (uint (zc_best_bid b)))
     (\<lambda>q. Inr (index_to_price (uint (zc_best_bid b)), q))"

definition zc_best_ask_top :: "zc_book \<Rightarrow> (dbl \<times> int) res" where
  "zc_best_ask_top b = bind_res (array_get (zc_asks b) (uint (zc_best_ask b)))
     (\<lambda>q. Inr (index_to_price (uint (zc_best_ask b)), q))"

fun zc_insert_all :: "nat \<Rightarrow> nat \<Rightarrow> zc_book \<Rightarrow> zc_book res" where
  "zc_insert_all p 0 b = Inr b"
| "zc_insert_all p (Suc n) b = bind_res (zc_insert p b) (zc_insert_all (Suc p) n)"

fun zc_update_all :: "nat \<Rightarrow> int list \<Rightarrow> zc_book \<Rightarrow> zc_book res" where
  "zc_update_all p [] b = Inr b"
| "zc_update_all p (d # ds) b =
     (let o1 = zc_orders b ! p in
      bind_res (zc_update (mo_id o1) (max 1 (mo_quantity o1 + d)) b) (zc_update_all (Suc p) ds))"

fun zc_cancel_all :: "nat \<Rightarrow> nat \<Rightarrow> zc_book \<Rightarrow> zc_book res" where
  "zc_cancel_all p 0 b = Inr b"
| "zc_cancel_all p (Suc n) b = bind_res (zc_cancel (mo_id (zc_orders b ! p)) b) (zc_cancel_all (Suc p) n)"

definition zc_benchmark :: "int list \<Rightarrow> zc_book \<Rightarrow> bool res" where
  "zc_benchmark deltas b =
     bind_res (zc_insert_all 0 (length (zc_orders b)) b) (\<lambda>b.
     bind_res (zc_update_all 0 deltas b) (\<lambda>b.
     bind_res (zc_cancel_all 0 (length (zc_orders b)) b) (\<lambda>b.
     bind_res (zc_best_bid_top b) (\<lambda>bid.
     bind_res (zc_best_ask_top b) (\<lambda>ask. Inr (snd bid = 0 \<and> snd ask = 0))))))"

definition zc_main :: "nat \<Rightarrow> ((dbl \<times> int) \<times> (dbl \<times> int)) res" where
  "zc_main levels =
     bind_res (zc_insert_all 0 2 (zc_new mock_orders levels)) (\<lambda>b.
     bind_res (zc_update 1 15 b) (\<lambda>b.
     bind_res (zc_cancel 2 b) (\<lambda>b.
     bind_res (zc_best_bid_top b) (\<lambda>bid.
     bind_res (zc_best_ask_top b) (\<lambda>ask. Inr (bid, ask))))))"

subsection \<open>What the books get wrong\<close>

lemma add_level_Inr_iff: "add_level levels idx q = Inr ls \<longleftrightarrow>
    0 \<le> idx \<and> idx < int (length levels) \<and> int_min \<le> levels ! nat idx + q \<and> levels ! nat idx + q \<le> int_max \<and>
    ls = levels[nat idx := levels ! nat idx + q]"
  by (auto simp: add_level_def bind_res_Inr_iff)

text \<open>
  In the book with a pool every successful \<open>update\<close> of a buy order that leaves some
  quantity at its level sets the best bid to level 0, wherever the order and the best bid are, and
  \<open>best_bid\<close> then answers the price and quantity of level 0.
\<close>

lemma mock_update_forgets_best:
  assumes "mb_map b oid = Some mem" and "mo_buy (mb_pool b ! mem)" and "mb_update oid q b = Inr b'"
    and "price_to_index (mo_price (mb_pool b ! mem)) = Inr idx" and "mb_bids b' ! nat idx \<noteq> 0"
  shows "mb_best_bid b' = 0 \<and> mb_best_bid_top b' = Inr (index_to_price 0, mb_bids b' ! 0)"
proof -
  from assms obtain bids d where
    bids: "add_level (mb_bids b) idx d = Inr bids" "mb_bids b' = bids"
    and best: "mb_best_bid b' = (if idx = mb_best_bid b \<and> bids ! nat idx = 0
      then (case first_down bids (nat idx) of Some i \<Rightarrow> i | None \<Rightarrow> 0) else 0)"
    by (auto simp: mb_update_def mb_update_price_level_def Let_def simp del: c_int_Inr_iff)
  then have "mb_best_bid b' = 0" using assms(5) by auto
  moreover have "0 < length bids" using bids(1) by (auto simp: add_level_Inr_iff)
  then have get: "array_get bids 0 = Inr (bids ! 0)" by (simp add: array_get_def)
  ultimately show ?thesis using bids(2) by (simp add: mb_best_bid_top_def get)
qed

text \<open>The scenario of \<open>main\<close>, on a book of three levels with prices in cents.\<close>

definition cent_orders :: "mock_order list" where
  "cent_orders = [\<lparr>mo_id = 1, mo_price = TICK_SIZE, mo_quantity = 10, mo_buy = True\<rparr>]"

lemma cent_index: "price_to_index TICK_SIZE = Inr 1"
  by (simp add: price_to_index_def TICK_SIZE_def TICKS_PER_UNIT_def round_even_def bits_numeral c_int_eval)

lemma mock_update_forgets_best_witness:
  "\<exists>b b'. mb_insert (hd cent_orders) (mb_new 2 3) = Inr b \<and> mb_best_bid b = 1 \<and>
     mb_update 1 15 b = Inr b' \<and> mb_bids b' = [0, 15, 0] \<and> mb_best_bid_top b' = Inr (index_to_price 0, 0)"
proof -
  define b where "b = \<lparr>mb_pool = [empty_order, hd cent_orders], mb_memory = [0], mb_count = 1, mb_map = [1 \<mapsto> 1],
    mb_bids = [0, 10, 0], mb_asks = [0, 0, 0], mb_best_bid = 1, mb_best_ask = 3\<rparr>"
  have ins: "mb_insert (hd cent_orders) (mb_new 2 3) = Inr b"
    by (simp add: mb_insert_def mb_new_def b_def cent_orders_def cent_index add_level_def array_get_def array_set_def
      c_int_eval upt_rec numeral_eq_Suc Let_def)
  define b' where "b' = b\<lparr>mb_bids := [0, 15, 0], mb_best_bid := 0,
    mb_pool := [empty_order, (hd cent_orders)\<lparr>mo_quantity := 15\<rparr>]\<rparr>"
  have upd: "mb_update 1 15 b = Inr b'"
    by (simp add: mb_update_def mb_update_price_level_def b_def b'_def cent_orders_def cent_index add_level_def array_get_def
      array_set_def c_int_eval Let_def)
  have "mb_best_bid_top b' = Inr (index_to_price 0, mb_bids b' ! 0)"
    using mock_update_forgets_best [OF _ _ upd, of 1 1] by (simp add: b_def b'_def cent_orders_def cent_index)
  with ins upd show ?thesis by (auto simp: b_def b'_def)
qed

text \<open>
  The copy-free book: an insertion leaves the best bid at \<open>2 ^ 64 - 1\<close>, whatever the level, and
  reading the top of the book is out of bounds.
\<close>

lemma zc_insert_keeps_best_bid:
  assumes "zc_insert p b = Inr b'" and "zc_best_bid b = - 1"
  shows "zc_best_bid b' = - 1"
proof -
  have "\<not> idx > (- 1 :: u64)" for idx by (simp add: not_less word_order.extremum)
  with assms show ?thesis
    by (auto simp: zc_insert_def Let_def split: if_splits)
qed

lemma zc_best_bid_unset:
  assumes "zc_best_bid b = - 1" and "length (zc_bids b) < 2 ^ 64 - 1"
  shows "zc_best_bid_top b = Inl (UB OutOfBounds)"
  using assms by (simp add: zc_best_bid_top_def array_get_def unsigned_minus_1_eq_mask mask_eq_exp_minus_1)

end
