(* ===== verification/InterviewQueues.thy ===== *)
theory InterviewQueues
  imports Ring MemoryPools Floats
begin

text \<open>
  Four small programs of \<^verbatim>\<open>c++20\<close>: the snapshot ring of \<^verbatim>\<open>RingBuffer.cpp\<close>, the blocking queue
  of \<^verbatim>\<open>BoundedBlockingQueue.cpp\<close>, the free list of \<^verbatim>\<open>LockFreeQueue.cpp\<close>, which keeps the contract
  \<open>message_pool\<close>, and the matching book of \<^verbatim>\<open>OrderBook.cpp\<close>.
\<close>

subsection \<open>MarketDataRingBuffer\<close>

type_synonym snapshot = "int \<times> dbl \<times> dbl"

record ring_buffer =
  rb_cells :: "snapshot list"
  current_index :: int
  m_capacity :: int
  m_cap_mask :: int

text \<open>A failed \<open>assert\<close> is shown as an exception; a negative capacity makes \<open>resize\<close> throw.\<close>

definition rb_new :: "int \<Rightarrow> ring_buffer res" where
  "rb_new capacity =
     bind_res (c_int (capacity - 1)) (\<lambda>m.
      if capacity AND m \<noteq> 0 then Inl (Throw ''Capacity must be power of two'')
      else if capacity < 0 then Inl (Throw ''vector::_M_default_append'')
      else Inr \<lparr>rb_cells = replicate (nat capacity) (0, Dbl 0 0, Dbl 0 0), current_index = - 1,
                m_capacity = capacity, m_cap_mask = m\<rparr>)"

definition rb_insert :: "snapshot \<Rightarrow> ring_buffer \<Rightarrow> ring_buffer res" where
  "rb_insert x b =
     bind_res (c_int (current_index b + 1)) (\<lambda>i.
     if m_capacity b = 0 then Inl (UB DivisionByZero)
     else bind_res (array_set (rb_cells b) (i mod m_capacity b) x) (\<lambda>cells.
       Inr (b\<lparr>rb_cells := cells, current_index := i\<rparr>)))"

fun rb_collect :: "ring_buffer \<Rightarrow> int \<Rightarrow> nat \<Rightarrow> int \<Rightarrow> snapshot list res" where
  "rb_collect b offset 0 i = Inr []"
| "rb_collect b offset (Suc k) i =
     bind_res (c_int (i + offset)) (\<lambda>j.
     bind_res (array_get (rb_cells b) (j AND m_cap_mask b)) (\<lambda>x.
     bind_res (rb_collect b offset k (i + 1)) (\<lambda>xs. Inr (x # xs))))"

definition rb_last :: "int \<Rightarrow> ring_buffer \<Rightarrow> snapshot list res" where
  "rb_last n b =
     bind_res (c_int (current_index b + 1)) (\<lambda>filled.
     let n = min n filled in
     bind_res (c_int (filled - n)) (\<lambda>start.
     bind_res (c_int (start + m_capacity b)) (\<lambda>start.
     rb_collect b (start AND m_cap_mask b) (nat n) 0)))"

fun rb_insert_all :: "snapshot list \<Rightarrow> ring_buffer \<Rightarrow> ring_buffer res" where
  "rb_insert_all [] b = Inr b"
| "rb_insert_all (x # xs) b = bind_res (rb_insert x b) (rb_insert_all xs)"

text \<open>\<open>main\<close>, with any prices.\<close>

definition rb_main :: "snapshot list \<Rightarrow> snapshot list res" where
  "rb_main xs = bind_res (rb_new 4) (\<lambda>b. bind_res (rb_insert_all xs b) (rb_last 2))"

text \<open>After inserting \<open>xs\<close>, cell \<open>i mod capacity\<close> holds the newest \<open>xs ! i\<close>.\<close>

definition rb_holds :: "nat \<Rightarrow> snapshot list \<Rightarrow> ring_buffer \<Rightarrow> bool" where
  "rb_holds k xs b \<longleftrightarrow> m_capacity b = 2 ^ k \<and> m_cap_mask b = 2 ^ k - 1 \<and> length (rb_cells b) = 2 ^ k \<and>
     current_index b = int (length xs) - 1 \<and>
     (\<forall>i<length xs. length xs \<le> i + 2 ^ k \<longrightarrow> rb_cells b ! (i mod 2 ^ k) = xs ! i)"

lemma int_and_mask: "(x :: int) AND (2 ^ k - 1) = x mod 2 ^ k"
  using take_bit_eq_mask [of k x] by (simp add: mask_eq_exp_minus_1 take_bit_eq_mod)

lemma rb_new_holds: "k < 31 \<Longrightarrow> \<exists>b. rb_new (2 ^ k) = Inr b \<and> rb_holds k [] b"
proof -
  assume "k < 31"
  have "((2 :: int) ^ k) AND (2 ^ k - 1) = 0" by (simp add: int_and_mask)
  moreover have c: "c_int (2 ^ k - 1) = Inr (2 ^ k - 1)"
  proof (rule c_int_ok)
    have "(2 :: int) ^ k \<le> 2 ^ 31" using \<open>k < 31\<close> by (intro power_increasing) simp_all
    then show "2 ^ k - 1 \<le> int_max" by (simp add: int_max_def)
    have "(0 :: int) \<le> 2 ^ k" and "int_min \<le> - 1" by (simp_all add: int_min_def)
    then show "int_min \<le> 2 ^ k - 1" by linarith
  qed
  ultimately show ?thesis unfolding rb_new_def c by (simp add: rb_holds_def nat_power_eq)
qed

lemma rb_insert_holds:
  assumes "rb_holds k xs b" and "int (length xs) \<le> int_max"
  shows "\<exists>b'. rb_insert x b = Inr b' \<and> rb_holds k (xs @ [x]) b'"
proof -
  let ?n = "length xs" and ?cells = "(rb_cells b)[length xs mod 2 ^ k := x]"
  have b: "m_capacity b = 2 ^ k" "length (rb_cells b) = 2 ^ k" "current_index b = int ?n - 1" "m_cap_mask b = 2 ^ k - 1"
    and old: "\<And>i. i < ?n \<Longrightarrow> ?n \<le> i + 2 ^ k \<Longrightarrow> rb_cells b ! (i mod 2 ^ k) = xs ! i"
    using assms(1) by (auto simp: rb_holds_def)
  have idx: "int ?n mod 2 ^ k = int (?n mod 2 ^ k)" by (simp add: zmod_int)
  have lt: "?n mod 2 ^ k < length (rb_cells b)" using b by simp
  have c: "c_int (int ?n) = Inr (int ?n)" using assms(2) by (simp add: int_min_def)
  have s: "array_set (rb_cells b) (int ?n mod 2 ^ k) x = Inr ?cells"
    unfolding idx by (rule array_set_nat [OF lt])
  have ins: "rb_insert x b = Inr (b\<lparr>rb_cells := ?cells, current_index := int ?n\<rparr>)"
    unfolding rb_insert_def b by (simp add: c s)
  have "?cells ! (i mod 2 ^ k) = (xs @ [x]) ! i" if "i < Suc ?n" "Suc ?n \<le> i + 2 ^ k" for i
  proof (cases "i = ?n")
    case True
    then show ?thesis using lt by simp
  next
    case False
    then have i: "i < ?n" "?n \<le> i + 2 ^ k" "?n - i < 2 ^ k" using that by auto
    have "i mod 2 ^ k \<noteq> ?n mod 2 ^ k"
      using ring_slot_inj [of i 0 "2 ^ k" "?n - i"] i by auto
    then show ?thesis using old [OF i(1,2)] i(1) by (simp add: nth_append)
  qed
  then show ?thesis unfolding ins using b by (auto simp: rb_holds_def)
qed

lemma rb_collect_holds:
  assumes b: "rb_holds k xs b" and small: "int (length xs) + 2 ^ k \<le> int_max"
    and "start + n = length xs" and "n \<le> 2 ^ k" and "i + m = n"
  shows "rb_collect b (int (start mod 2 ^ k)) m (int i) = Inr (drop i (drop start xs))"
  using assms(5)
proof (induction m arbitrary: i)
  case 0
  then show ?case using assms(3) by simp
next
  case (Suc m)
  have b': "m_cap_mask b = 2 ^ k - 1" "length (rb_cells b) = 2 ^ k"
    and get: "\<And>i. i < length xs \<Longrightarrow> length xs \<le> i + 2 ^ k \<Longrightarrow> rb_cells b ! (i mod 2 ^ k) = xs ! i"
    using b by (auto simp: rb_holds_def)
  have "int (start mod 2 ^ k) < 2 ^ k" by (simp add: zmod_int)
  then have "int i + int (start mod 2 ^ k) \<le> int_max" using small Suc.prems assms(3) by linarith
  moreover have "int_min \<le> int i + int (start mod 2 ^ k)" by (simp add: int_min_def)
  ultimately have sum: "c_int (int i + int (start mod 2 ^ k)) = Inr (int (i + start mod 2 ^ k))"
    unfolding c_int_def by simp
  have "int (i + start mod 2 ^ k) AND (2 ^ k - 1) = int ((start + i) mod 2 ^ k)"
    unfolding int_and_mask by (simp add: zmod_int mod_add_right_eq add.commute)
  moreover have "(start + i) mod 2 ^ k < length (rb_cells b)" using b' by simp
  ultimately have cell: "array_get (rb_cells b) (int (i + start mod 2 ^ k) AND (2 ^ k - 1)) = Inr (xs ! (start + i))"
    using get [of "start + i"] Suc.prems assms(3,4) by (simp only: array_get_nat)
  have "rb_collect b (int (start mod 2 ^ k)) m (int i + 1) = Inr (drop (Suc i) (drop start xs))"
    using Suc.IH [of "Suc i"] Suc.prems by (simp add: add.commute)
  moreover have "drop i (drop start xs) = xs ! (start + i) # drop (Suc i) (drop start xs)"
    using Suc.prems assms(3) Cons_nth_drop_Suc [of "start + i" xs] by (simp add: add.commute)
  ultimately show ?case
    unfolding rb_collect.simps sum bind_res_simps b'(1) cell by simp
qed

text \<open>Asking for at most a capacity of snapshots gives the newest ones, oldest first.\<close>

lemma rb_last_holds:
  assumes b: "rb_holds k xs b" and small: "int (length xs) + 2 ^ k \<le> int_max" and n: "n \<le> 2 ^ k"
  shows "rb_last (int n) b = Inr (drop (length xs - n) xs)"
proof -
  let ?m = "min n (length xs)" and ?s = "length xs - min n (length xs)"
  have b': "m_capacity b = 2 ^ k" "m_cap_mask b = 2 ^ k - 1" "current_index b = int (length xs) - 1"
    using b by (auto simp: rb_holds_def)
  have c: "c_int (int (length xs)) = Inr (int (length xs))" "c_int (int ?s) = Inr (int ?s)"
    "c_int (int ?s + 2 ^ k) = Inr (int ?s + 2 ^ k)"
  proof -
    have "int ?s \<le> int (length xs)" "(0 :: int) \<le> 2 ^ k" "0 \<le> int ?s" "0 \<le> int (length xs)" "int_min \<le> 0"
      by (simp_all add: int_min_def)
    with small have "int (length xs) \<le> int_max" "int ?s \<le> int_max" "int ?s + 2 ^ k \<le> int_max"
      "int_min \<le> int (length xs)" "int_min \<le> int ?s" "int_min \<le> int ?s + 2 ^ k" by linarith+
    then show "c_int (int (length xs)) = Inr (int (length xs))" "c_int (int ?s) = Inr (int ?s)"
      "c_int (int ?s + 2 ^ k) = Inr (int ?s + 2 ^ k)"
      by (simp_all only: c_int_def if_True conj_absorb simp_thms)
  qed
  have an: "(int ?s + 2 ^ k) AND (2 ^ k - 1) = int (?s mod 2 ^ k)"
    unfolding int_and_mask by (simp add: zmod_int)
  have mn: "min (int n) (int (length xs)) = int ?m" by (simp only: of_nat_min)
  have sb: "int (length xs) - int ?m = int ?s" by (subst of_nat_diff) simp_all
  have f: "current_index b + 1 = int (length xs)" using b' by simp
  have col: "rb_collect b (int (?s mod 2 ^ k)) ?m (int 0) = Inr (drop 0 (drop ?s xs))"
    by (rule rb_collect_holds [OF b small, of _ ?m]) (use n in auto)
  have dr: "drop ?s xs = drop (length xs - n) xs" by (cases "n \<le> length xs") auto
  show ?thesis
    unfolding rb_last_def f c(1) bind_res_simps Let_def mn sb c(2) b'(1,2) c(3) an nat_int
    using col unfolding dr by simp
qed

subsection \<open>BoundedBlockingQueue\<close>

text \<open>
  Both operations hold the mutex from the test of their condition to their end, and release it only
  to sleep; so an operation is one step, which either completes or, on \<open>None\<close>, sends its thread to
  sleep on the condition variable.  The test compares a \<open>size_t\<close> with an \<open>int\<close> converted to it.
\<close>

record blocking_queue =
  bq_capacity :: int
  bq_elems :: "int list"

definition bq_enqueue :: "int \<Rightarrow> blocking_queue \<Rightarrow> blocking_queue option" where
  "bq_enqueue element b =
     (if (of_nat (length (bq_elems b)) :: u64) < word_of_int (bq_capacity b)
      then Some (b\<lparr>bq_elems := bq_elems b @ [element]\<rparr>) else None)"

definition bq_dequeue :: "blocking_queue \<Rightarrow> (int \<times> blocking_queue) option" where
  "bq_dequeue b = (case bq_elems b of [] \<Rightarrow> None | front # rest \<Rightarrow> Some (front, b\<lparr>bq_elems := rest\<rparr>))"

definition bq_size :: "blocking_queue \<Rightarrow> int" where
  "bq_size b = signed_take_bit 31 (int (length (bq_elems b)))"

text \<open>
  The threads: those inside \<open>enqueue\<close> with their element, awake or asleep, and the number of those
  inside \<open>dequeue\<close>.  \<open>entered\<close> and \<open>left\<close> record the accepted and the returned elements.
\<close>

record bq_threads =
  bq_queue :: blocking_queue
  awake_enq :: "int list"
  asleep_enq :: "int list"
  awake_deq :: nat
  asleep_deq :: nat
  entered :: "int list"
  left :: "int list"

definition wake_deq :: "bq_threads \<Rightarrow> bq_threads" where
  "wake_deq s = (if asleep_deq s = 0 then s
     else s\<lparr>asleep_deq := asleep_deq s - 1, awake_deq := Suc (awake_deq s)\<rparr>)"

definition wake_enq :: "nat \<Rightarrow> bq_threads \<Rightarrow> bq_threads" where
  "wake_enq i s = (if i < length (asleep_enq s)
     then s\<lparr>asleep_enq := take i (asleep_enq s) @ drop (Suc i) (asleep_enq s), awake_enq := asleep_enq s ! i # awake_enq s\<rparr>
     else s)"

text \<open>Steps: \<open>notify_one\<close> wakes some sleeping thread if there is one; a sleeper may also wake by itself.\<close>

inductive bq_step :: "bq_threads \<Rightarrow> bq_threads \<Rightarrow> bool" where
  call_enq: "bq_step s (s\<lparr>awake_enq := e # awake_enq s\<rparr>)"
| call_deq: "bq_step s (s\<lparr>awake_deq := Suc (awake_deq s)\<rparr>)"
| enq_done: "awake_enq s = xs @ e # ys \<Longrightarrow> bq_enqueue e (bq_queue s) = Some q \<Longrightarrow>
    bq_step s (wake_deq (s\<lparr>bq_queue := q, awake_enq := xs @ ys, entered := entered s @ [e]\<rparr>))"
| enq_wait: "awake_enq s = xs @ e # ys \<Longrightarrow> bq_enqueue e (bq_queue s) = None \<Longrightarrow>
    bq_step s (s\<lparr>awake_enq := xs @ ys, asleep_enq := e # asleep_enq s\<rparr>)"
| deq_done: "awake_deq s = Suc n \<Longrightarrow> bq_dequeue (bq_queue s) = Some (x, q) \<Longrightarrow>
    i < length (asleep_enq s) \<or> asleep_enq s = [] \<Longrightarrow>
    bq_step s (wake_enq i (s\<lparr>bq_queue := q, awake_deq := n, left := left s @ [x]\<rparr>))"
| deq_wait: "awake_deq s = Suc n \<Longrightarrow> bq_dequeue (bq_queue s) = None \<Longrightarrow>
    bq_step s (s\<lparr>awake_deq := n, asleep_deq := Suc (asleep_deq s)\<rparr>)"
| wakes_enq: "bq_step s (wake_enq i s)"
| wakes_deq: "bq_step s (wake_deq s)"

definition bq_init :: "int \<Rightarrow> bq_threads" where
  "bq_init capacity = \<lparr>bq_queue = \<lparr>bq_capacity = capacity, bq_elems = []\<rparr>, awake_enq = [], asleep_enq = [],
     awake_deq = 0, asleep_deq = 0, entered = [], left = []\<rparr>"

text \<open>
  The invariant: while a consumer sleeps there are at least as many consumers awake as elements,
  and while a producer sleeps at least as many producers awake as free places.
\<close>

definition bq_ok :: "nat \<Rightarrow> bq_threads \<Rightarrow> bool" where
  "bq_ok c s \<longleftrightarrow> bq_capacity (bq_queue s) = int c \<and> length (bq_elems (bq_queue s)) \<le> c \<and>
     entered s = left s @ bq_elems (bq_queue s) \<and>
     (0 < asleep_deq s \<longrightarrow> length (bq_elems (bq_queue s)) \<le> awake_deq s) \<and>
     (asleep_enq s \<noteq> [] \<longrightarrow> c \<le> length (bq_elems (bq_queue s)) + length (awake_enq s))"

lemma bq_enqueue_room:
  assumes "bq_capacity b = int c" and "length (bq_elems b) \<le> c" and "c < 2 ^ 31"
  shows "bq_enqueue e b = (if length (bq_elems b) < c then Some (b\<lparr>bq_elems := bq_elems b @ [e]\<rparr>) else None)"
proof -
  have "(of_nat (length (bq_elems b)) :: u64) < word_of_int (int c) \<longleftrightarrow> length (bq_elems b) < c"
    using assms by (simp add: word_less_nat_alt unsigned_of_nat take_bit_nat_eq_self)
  then show ?thesis using assms(1) by (simp add: bq_enqueue_def)
qed

lemma bq_ok_wake: "bq_ok c s \<Longrightarrow> bq_ok c (wake_enq i s)" "bq_ok c s \<Longrightarrow> bq_ok c (wake_deq s)"
  by (auto simp: bq_ok_def wake_enq_def wake_deq_def)

lemma bq_ok_step:
  assumes "bq_step s s'" and "bq_ok c s" and "c < 2 ^ 31"
  shows "bq_ok c s'"
  using assms(1)
proof cases
  case (enq_done xs e ys q)
  then have "length (bq_elems (bq_queue s)) < c" and "q = (bq_queue s)\<lparr>bq_elems := bq_elems (bq_queue s) @ [e]\<rparr>"
    using assms(2,3) by (auto simp: bq_ok_def bq_enqueue_room split: if_splits)
  then show ?thesis using assms(2) enq_done by (auto simp: bq_ok_def wake_deq_def)
next
  case (enq_wait xs e ys)
  then have "length (bq_elems (bq_queue s)) = c"
    using assms(2,3) by (auto simp: bq_ok_def bq_enqueue_room split: if_splits)
  then show ?thesis using assms(2) enq_wait by (auto simp: bq_ok_def)
next
  case (deq_done n x q i)
  then show ?thesis using assms(2)
    by (auto simp: bq_ok_def bq_dequeue_def wake_enq_def split: list.splits)
next
  case (deq_wait n)
  then show ?thesis using assms(2) by (auto simp: bq_ok_def bq_dequeue_def split: list.splits)
next
  case (wakes_enq i)
  then show ?thesis using bq_ok_wake(1) assms(2) by simp
next
  case wakes_deq
  then show ?thesis using bq_ok_wake(2) assms(2) by simp
qed (use assms(2) in \<open>auto simp: bq_ok_def\<close>)

lemma bq_ok_reachable: "bq_step\<^sup>*\<^sup>* (bq_init (int c)) s \<Longrightarrow> c < 2 ^ 31 \<Longrightarrow> bq_ok c s"
proof (induction rule: rtranclp_induct)
  case base
  then show ?case by (simp add: bq_ok_def bq_init_def)
qed (blast intro: bq_ok_step)

text \<open>
  No wake-up is lost: when every thread sleeps, the consumers do because the queue is empty, the
  producers because it is full, and so not both; the elements leave in the order they entered.
\<close>

lemma bq_no_lost_wakeup:
  assumes "bq_step\<^sup>*\<^sup>* (bq_init (int c)) s" and "c < 2 ^ 31" and "awake_enq s = []" and "awake_deq s = 0"
  shows "0 < asleep_deq s \<Longrightarrow> bq_elems (bq_queue s) = []"
    and "asleep_enq s \<noteq> [] \<Longrightarrow> length (bq_elems (bq_queue s)) = c"
    and "0 < c \<Longrightarrow> asleep_enq s = [] \<or> asleep_deq s = 0"
    and "entered s = left s @ bq_elems (bq_queue s)"
  using bq_ok_reachable [OF assms(1,2)] assms(3,4) by (auto simp: bq_ok_def)

text \<open>
  Claim C37.  Whatever the interleaving of producers and consumers on a queue of positive capacity,
  the queue keeps within its capacity, the elements leave in the order they entered, and no wake-up
  is lost: when no thread is awake, consumers sleep only on an empty queue and producers only on a
  full one, so it never happens that both do and the program is stuck.
\<close>

theorem bounded_queue_live:
  assumes "bq_step\<^sup>*\<^sup>* (bq_init (int c)) s" and "0 < c" and "c < 2 ^ 31"
  shows "length (bq_elems (bq_queue s)) \<le> c \<and> entered s = left s @ bq_elems (bq_queue s) \<and>
    (awake_enq s = [] \<and> awake_deq s = 0 \<longrightarrow>
      (asleep_enq s = [] \<or> asleep_deq s = 0) \<and>
      (0 < asleep_deq s \<longrightarrow> bq_elems (bq_queue s) = []) \<and>
      (asleep_enq s \<noteq> [] \<longrightarrow> length (bq_elems (bq_queue s)) = c))"
  using bq_ok_reachable [OF assms(1,3)] assms(2) by (auto simp: bq_ok_def)

text \<open>A consumer that comes first falls asleep.\<close>

lemma bounded_queue_live_witness:
  "\<exists>s. bq_step\<^sup>*\<^sup>* (bq_init (int 2)) s \<and> asleep_deq s = 1 \<and> bq_elems (bq_queue s) = [] \<and> asleep_enq s = []"
proof -
  define s0 where "s0 = bq_init (int 2)"
  define s1 where "s1 = s0\<lparr>awake_deq := 1\<rparr>"
  define s2 where "s2 = s1\<lparr>awake_deq := 0, asleep_deq := 1\<rparr>"
  have "bq_step s0 s1" using call_deq [of s0] by (simp add: s0_def s1_def bq_init_def)
  moreover have "bq_step s1 s2"
    using deq_wait [of s1 0] by (simp add: s0_def s1_def s2_def bq_init_def bq_dequeue_def)
  ultimately have run: "bq_step\<^sup>*\<^sup>* (bq_init (int 2)) s2"
    unfolding s0_def [symmetric] by (rule converse_rtranclp_into_rtranclp [OF _ r_into_rtranclp])
  have "awake_enq s2 = [] \<and> awake_deq s2 = 0 \<and> asleep_deq s2 = 1"
    by (simp add: s0_def s1_def s2_def bq_init_def)
  then show ?thesis using bounded_queue_live [OF run] run by auto
qed

text \<open>A negative capacity is a huge one after the conversion: such a queue never blocks a producer.\<close>

lemma bq_negative_capacity: "bq_enqueue e \<lparr>bq_capacity = - 1, bq_elems = [1, 2]\<rparr> \<noteq> None"
  by (simp add: bq_enqueue_def)

subsection \<open>LockFreePool\<close>

text \<open>
  One call at a time.  An object is its index in \<open>storage_\<close>; the counters run modulo twice the
  capacity, so that a full ring differs from an empty one.
\<close>

record lfq =
  lq_capacity :: u64
  lq_freelist :: "nat option list"
  lq_head :: u64
  lq_tail :: u64

definition lq_new :: "u64 \<Rightarrow> lfq" where
  "lq_new capacity = \<lparr>lq_capacity = capacity, lq_freelist = map Some [0..<unat capacity], lq_head = capacity, lq_tail = 0\<rparr>"

definition lq_acquire :: "lfq \<Rightarrow> (nat option \<times> lfq) res" where
  "lq_acquire p =
     (if lq_tail p = lq_head p then Inr (None, p)
      else bind_res (array_get (lq_freelist p) (uint (lq_tail p mod lq_capacity p))) (\<lambda>obj.
        Inr (obj, p\<lparr>lq_tail := (lq_tail p + 1) mod (2 * lq_capacity p)\<rparr>)))"

definition lq_release :: "nat option \<Rightarrow> lfq \<Rightarrow> lfq res" where
  "lq_release obj p =
     (if lq_head p - lq_tail p = lq_capacity p then Inl (Throw ''Pool overflow'')
      else bind_res (array_set (lq_freelist p) (uint (lq_head p mod lq_capacity p)) obj) (\<lambda>cells.
        Inr (p\<lparr>lq_freelist := cells, lq_head := (lq_head p + 1) mod (2 * lq_capacity p)\<rparr>)))"

definition lq_ops :: "lfq pool_ops" where
  "lq_ops = \<lparr>allocate_op = lq_acquire, deallocate_op = lq_release\<rparr>"

definition lq_count :: "lfq \<Rightarrow> nat" where
  "lq_count p = (let h = unat (lq_head p); t = unat (lq_tail p) in
     if t \<le> h then h - t else h + 2 * unat (lq_capacity p) - t)"

definition lq_window :: "lfq \<Rightarrow> nat option list" where
  "lq_window p = ring_read (lq_freelist p) (unat (lq_tail p)) (lq_count p)"

definition lq_free :: "lfq \<Rightarrow> nat set" where
  "lq_free p = {m. Some m \<in> set (lq_window p)}"

text \<open>The bound on the capacity keeps \<open>2 * capacity_\<close> and the test of \<open>release\<close> from wrapping.\<close>

definition lq_good :: "lfq \<Rightarrow> bool" where
  "lq_good p \<longleftrightarrow> (let c = unat (lq_capacity p) in 0 < c \<and> 3 * c < 2 ^ 64 \<and> length (lq_freelist p) = c \<and>
     unat (lq_head p) < 2 * c \<and> unat (lq_tail p) < 2 * c \<and> lq_count p \<le> c \<and>
     distinct (lq_window p) \<and> set (lq_window p) \<subseteq> Some ` {..<c})"

lemma lq_next:
  assumes "3 * unat c < 2 ^ 64" and "unat t < 2 * unat c"
  shows "unat ((t + 1) mod (2 * c) :: u64) = (if Suc (unat t) = 2 * unat c then 0 else Suc (unat t))"
proof -
  have "unat (2 * c) = 2 * unat c" using assms(1) by (simp add: unat_word_ariths)
  moreover have "unat (t + 1) = Suc (unat t)" using assms by (intro unat_plus_one) linarith
  ultimately show ?thesis using assms(2) by (simp add: unat_mod)
qed

lemma lq_cell: "uint ((t :: u64) mod c) = int (unat t mod unat c)"
  by (simp add: uint_mod zmod_int)

lemma lq_alloc_ok:
  assumes good: "lq_good p" and ne: "lq_free p \<noteq> {}"
  shows "\<exists>m p'. allocate_op lq_ops p = Inr (Some m, p') \<and> m \<in> lq_free p \<and> lq_good p' \<and>
      lq_free p' = lq_free p - {m} \<and> unat (lq_capacity p') = unat (lq_capacity p)"
proof -
  let ?c = "unat (lq_capacity p)" and ?h = "unat (lq_head p)" and ?t = "unat (lq_tail p)"
  have g: "0 < ?c" "3 * ?c < 2 ^ 64" "length (lq_freelist p) = ?c" "?h < 2 * ?c" "?t < 2 * ?c" "lq_count p \<le> ?c"
    "distinct (lq_window p)" "set (lq_window p) \<subseteq> Some ` {..<?c}"
    using good by (auto simp: lq_good_def Let_def)
  have "lq_count p \<noteq> 0"
  proof
    assume "lq_count p = 0"
    then show False using ne by (simp add: lq_free_def lq_window_def)
  qed
  then obtain n where n: "lq_count p = Suc n" by (cases "lq_count p") auto
  let ?p = "p\<lparr>lq_tail := (lq_tail p + 1) mod (2 * lq_capacity p)\<rparr>"
  have t': "unat (lq_tail ?p) = (if Suc ?t = 2 * ?c then 0 else Suc ?t)" using lq_next [OF g(2,5)] by simp
  have diff: "lq_tail p \<noteq> lq_head p" using n by (auto simp: lq_count_def Let_def)
  have n': "lq_count ?p = n" using n g(4,5,6) t' unfolding lq_count_def Let_def by (auto split: if_splits)
  have "unat (lq_tail ?p) mod ?c = Suc ?t mod ?c" unfolding t' by simp
  then have w: "lq_window p = lq_freelist p ! (?t mod ?c) # lq_window ?p"
    using ring_read_mod_eq [of "unat (lq_tail ?p)" "lq_freelist p" "Suc ?t" n] g(3)
    by (simp add: lq_window_def n n' ring_read_Cons)
  then obtain m where m: "lq_freelist p ! (?t mod ?c) = Some m" "m < ?c" using g(8) by auto
  have "?t mod ?c < length (lq_freelist p)" using g(1,3) by simp
  then have "allocate_op lq_ops p = Inr (Some m, ?p)"
    using diff m(1) unfolding lq_ops_def lq_acquire_def lq_cell by (simp add: array_get_def)
  moreover have "lq_good ?p" using g n n' t' w by (simp add: lq_good_def Let_def)
  moreover have "lq_free ?p = lq_free p - {m}" "m \<in> lq_free p" using w m g(7) by (auto simp: lq_free_def)
  ultimately show ?thesis by (intro exI [of _ m] exI [of _ ?p]) simp
qed

lemma lq_dealloc_ok:
  assumes good: "lq_good p" and m: "m < unat (lq_capacity p)" "m \<notin> lq_free p"
  shows "\<exists>p'. deallocate_op lq_ops (Some m) p = Inr p' \<and> lq_good p' \<and>
      lq_free p' = insert m (lq_free p) \<and> unat (lq_capacity p') = unat (lq_capacity p)"
proof -
  let ?c = "unat (lq_capacity p)" and ?h = "unat (lq_head p)" and ?t = "unat (lq_tail p)" and ?n = "lq_count p"
  have g: "0 < ?c" "3 * ?c < 2 ^ 64" "length (lq_freelist p) = ?c" "?h < 2 * ?c" "?t < 2 * ?c" "?n \<le> ?c"
    "distinct (lq_window p)" "set (lq_window p) \<subseteq> Some ` {..<?c}"
    using good by (auto simp: lq_good_def Let_def)
  have "card (set (lq_window p)) < card (Some ` {..<?c})"
    using g(8) m by (intro psubset_card_mono) (auto simp: lq_free_def)
  then have n: "?n < ?c" using distinct_card [OF g(7)] by (simp add: card_image lq_window_def)
  have "unat (lq_head p - lq_tail p) \<noteq> ?c"
    using n g(2,4,5) unat_u64_less [of "lq_head p"]
    by (cases "?t \<le> ?h") (auto simp: lq_count_def unat_sub_if')
  then have room: "lq_head p - lq_tail p \<noteq> lq_capacity p" by auto
  let ?cells = "(lq_freelist p)[?h mod ?c := Some m]"
  let ?p = "p\<lparr>lq_freelist := ?cells, lq_head := (lq_head p + 1) mod (2 * lq_capacity p)\<rparr>"
  have h': "unat (lq_head ?p) = (if Suc ?h = 2 * ?c then 0 else Suc ?h)" using lq_next [OF g(2,4)] by simp
  have n': "lq_count ?p = Suc ?n" using n g(4,5) h' unfolding lq_count_def Let_def by (auto split: if_splits)
  have "?h mod ?c = (?t + ?n) mod ?c" using g(4,5) by (auto simp: lq_count_def Let_def)
  then have w: "lq_window ?p = lq_window p @ [Some m]"
    using ring_read_push [of ?n "lq_freelist p" ?t "Some m"] n n' g(3) by (simp add: lq_window_def)
  have "?h mod ?c < length (lq_freelist p)" using g(1,3) by simp
  then have "deallocate_op lq_ops (Some m) p = Inr ?p"
    using room unfolding lq_ops_def lq_release_def lq_cell by (simp add: array_set_def)
  moreover have "lq_good ?p" using g n n' h' w m by (auto simp: lq_good_def lq_free_def Let_def)
  moreover have "lq_free ?p = insert m (lq_free p)" using w by (auto simp: lq_free_def)
  ultimately show ?thesis by (intro exI [of _ ?p]) simp
qed

interpretation lqp: message_pool lq_ops lq_free "\<lambda>p. unat (lq_capacity p)" lq_good
  by unfold_locales (simp_all add: lq_alloc_ok lq_dealloc_ok)

text \<open>
  The overflow test compares a difference that is not reduced: with all objects free it fires only
  while the tail is in the first half of its range, so a surplus release can go unnoticed.
\<close>

lemma lq_overflow_unnoticed:
  "\<exists>p. lqp.accounted ([], p) \<and> lq_release (Some 0) p \<noteq> Inl (Throw ''Pool overflow'')"
proof -
  define p where "p = \<lparr>lq_capacity = 1, lq_freelist = [Some 0], lq_head = 0, lq_tail = 1\<rparr>"
  have "lq_window p = [Some 0]" by (simp add: p_def lq_window_def lq_count_def ring_read_def)
  then have "lqp.accounted ([], p)"
    by (auto simp: lqp.accounted_def lq_good_def lq_free_def p_def lq_count_def)
  moreover have "lq_release (Some 0) p \<noteq> Inl (Throw ''Pool overflow'')"
    by (simp add: p_def lq_release_def array_set_def)
  ultimately show ?thesis by blast
qed

subsection \<open>The matching book\<close>

text \<open>A \<open>map\<close> is the list of its entries by increasing key; \<open>emplace\<close> does nothing for a key it has.\<close>

fun map_emplace :: "int \<Rightarrow> int \<Rightarrow> (int \<times> int) list \<Rightarrow> (int \<times> int) list" where
  "map_emplace k v [] = [(k, v)]"
| "map_emplace k v ((k', v') # m) =
     (if k < k' then (k, v) # (k', v') # m else if k = k' then (k', v') # m else (k', v') # map_emplace k v m)"

datatype trade_side = Buy | Sell

record match_book =
  buy_side :: "(int \<times> int) list"
  sell_side :: "(int \<times> int) list"
  done_trades :: "(trade_side \<times> int \<times> int) list"

text \<open>A trade is its side, quantity and price, which the code prints into a string.\<close>

definition match_new :: match_book where
  "match_new = \<lparr>buy_side = [], sell_side = [], done_trades = []\<rparr>"

definition addBuy :: "int \<Rightarrow> int \<Rightarrow> match_book \<Rightarrow> match_book res" where
  "addBuy price quantity b =
     (let rest = bind_res (c_int (- price)) (\<lambda>key. Inr (b\<lparr>buy_side := map_emplace key quantity (buy_side b)\<rparr>))
      in case sell_side b of
           [] \<Rightarrow> rest
         | (sell_price, sell_quantity) # others \<Rightarrow>
             if sell_price \<le> price
             then Inr (b\<lparr>sell_side := others, done_trades := done_trades b @
               [(Buy, quantity, sell_price), (Sell, sell_quantity, sell_price)]\<rparr>)
             else rest)"

definition addSell :: "int \<Rightarrow> int \<Rightarrow> match_book \<Rightarrow> match_book res" where
  "addSell price quantity b =
     (let rest = bind_res (c_int (- price)) (\<lambda>key. Inr (b\<lparr>sell_side := map_emplace key quantity (sell_side b)\<rparr>))
      in case buy_side b of
           [] \<Rightarrow> rest
         | (key, buy_quantity) # others \<Rightarrow>
             bind_res (c_int (- 1 * key)) (\<lambda>buy_price.
             if buy_price \<ge> price
             then Inr (b\<lparr>buy_side := others, done_trades := done_trades b @
               [(Sell, quantity, buy_price), (Buy, buy_quantity, buy_price)]\<rparr>)
             else rest))"

definition match_main :: "(trade_side \<times> int \<times> int) list res" where
  "match_main = bind_res (addBuy 50 100 match_new) (\<lambda>b. bind_res (addSell 49 100 b) (\<lambda>b. Inr (done_trades b)))"

lemma match_main_trades: "match_main = Inr [(Sell, 100, 50), (Buy, 100, 50)]"
  by (simp add: match_main_def addBuy_def addSell_def match_new_def c_int_eval)

lemma map_emplace_keys:
  "(\<forall>x \<in> set (map_emplace k v m). P (fst x)) \<longleftrightarrow> P k \<and> (\<forall>x \<in> set m. P (fst x))"
  by (induction k v m rule: map_emplace.induct) auto

lemma map_emplace_sorted: "sorted_wrt (<) (map fst m) \<Longrightarrow> sorted_wrt (<) (map fst (map_emplace k v m))"
proof (induction k v m rule: map_emplace.induct)
  case (2 k v k' v' m)
  have "k' < k" if "\<not> k < k'" "k \<noteq> k'" using that by simp
  then show ?case using 2 map_emplace_keys [of k v m "\<lambda>x. k' < x"] by fastforce
qed simp

text \<open>
  A resting sell order is stored under its negated price and read back without negating it: with
  positive prices every buy order trades against the dearest sell order, at a negative price.
\<close>

definition sells_ok :: "match_book \<Rightarrow> bool" where
  "sells_ok b \<longleftrightarrow> list_all (\<lambda>x. fst x < 0) (sell_side b)"

lemma sells_ok_preserved:
  assumes "sells_ok b"
  shows "addBuy p q b = Inr b' \<Longrightarrow> sells_ok b'" and "0 < p \<Longrightarrow> addSell p q b = Inr b' \<Longrightarrow> sells_ok b'"
proof -
  show "sells_ok b'" if "addBuy p q b = Inr b'"
    using assms that unfolding sells_ok_def addBuy_def Let_def
    by (cases "sell_side b") (auto split: if_splits)
  show "sells_ok b'" if "0 < p" "addSell p q b = Inr b'"
    using assms that map_emplace_keys [of "- p" q "sell_side b" "\<lambda>x. x < 0", folded list_all_iff] unfolding sells_ok_def addSell_def Let_def
    by (cases "buy_side b") (auto simp del: map_emplace.simps split: if_splits)
qed

lemma buy_always_trades:
  assumes "sells_ok b" and "sell_side b = (key, q') # rest" and "0 < p"
  shows "key < 0" and "addBuy p q b = Inr (b\<lparr>sell_side := rest, done_trades := done_trades b @ [(Buy, q, key), (Sell, q', key)]\<rparr>)"
  using assms by (auto simp: sells_ok_def addBuy_def)

text \<open>A second order at a price that rests already is dropped: \<open>emplace\<close> keeps the first quantity.\<close>

lemma same_price_dropped: "(k, v) \<in> set m \<Longrightarrow> sorted_wrt (<) (map fst m) \<Longrightarrow> map_emplace k w m = m"
  by (induction k w m rule: map_emplace.induct) force+

end
