(* ===== verification/Feeds.thy ===== *)
theory Feeds
  imports Prelude "HOL-Library.Multiset"
begin

text \<open>
  News feeds: the two implementations of \<open>Twitter\<close> in \<^verbatim>\<open>c++20/Twitter.cpp\<close> (a bounded min-heap
  over all tweets, and a merge of the followees' deques) and the two stock feed managers of
  \<^verbatim>\<open>StockFeedManager.cpp\<close> and \<^verbatim>\<open>StockFeedManager2.cpp\<close>.  A tweet or event is the pair of its
  timestamp and its id.  The order in which a hash set is traversed is the parameter \<open>traverse\<close>; a
  priority queue is the list of its elements in the order in which they are popped.
\<close>

type_synonym tweet = "int \<times> int"

text \<open>\<open>operator[]\<close> of a map, which inserts an empty value for a missing key.\<close>

definition at_key :: "('k \<Rightarrow> 'v option) \<Rightarrow> 'k \<Rightarrow> 'v \<Rightarrow> 'v" where
  "at_key m k d = (case m k of None \<Rightarrow> d | Some v \<Rightarrow> v)"

lemma at_key_upd [simp]: "at_key (m(k \<mapsto> v)) k' d = (if k' = k then v else at_key m k' d)"
  by (simp add: at_key_def)

subsection \<open>Lists in decreasing order of time\<close>

definition newest_first :: "tweet list \<Rightarrow> bool" where
  "newest_first xs \<longleftrightarrow> sorted_wrt (\<lambda>a b. fst b < fst a) xs"

lemma newest_first_simps [simp]:
  "newest_first []"
  "newest_first (x # xs) \<longleftrightarrow> (\<forall>y \<in> set xs. fst y < fst x) \<and> newest_first xs"
  "newest_first (xs @ ys) \<longleftrightarrow> newest_first xs \<and> newest_first ys \<and> (\<forall>x \<in> set xs. \<forall>y \<in> set ys. fst y < fst x)"
  by (auto simp: newest_first_def sorted_wrt_append)

lemma newest_first_distinct: "newest_first xs \<Longrightarrow> distinct xs"
  by (induction xs) auto

lemma newest_first_filter: "newest_first xs \<Longrightarrow> newest_first (filter P xs)"
  by (induction xs) auto

lemma newest_first_take: "newest_first xs \<Longrightarrow> newest_first (take n xs)"
  by (metis append_take_drop_id newest_first_simps(3))

lemma newest_first_unique: "newest_first xs \<Longrightarrow> newest_first ys \<Longrightarrow> set xs = set ys \<Longrightarrow> xs = ys"
proof (induction xs arbitrary: ys)
  case (Cons x xs)
  then obtain y ys' where ys: "ys = y # ys'" by (cases ys) auto
  have "x \<in> set ys" "y \<in> set (x # xs)" using Cons.prems(3) ys by auto
  then have "x = y" using Cons.prems(1,2) ys by fastforce
  moreover have "x \<notin> set xs" "y \<notin> set ys'" using Cons.prems ys by auto
  then have "set xs = set ys'" using Cons.prems(3) ys \<open>x = y\<close> by auto
  ultimately show ?case using Cons.IH [of ys'] Cons.prems ys by simp
qed simp

lemma take_filter_front: "(\<And>x. x \<in> set (take n xs) \<Longrightarrow> P x) \<Longrightarrow> take n (filter P xs) = take n xs"
proof (induction xs arbitrary: n)
  case (Cons x xs)
  then show ?case by (cases n) auto
qed simp

subsection \<open>The bounded min-heap\<close>

definition heap_add :: "nat \<Rightarrow> tweet list \<Rightarrow> tweet \<Rightarrow> tweet list" where
  "heap_add limit min_heap tweet =
     (let h = insort_key fst tweet min_heap in if length h > limit then tl h else h)"

text \<open>Popping fills the feed from its end.\<close>

fun drain_heap :: "tweet list \<Rightarrow> int list \<Rightarrow> int list" where
  "drain_heap [] news_feed = news_feed"
| "drain_heap (first # min_heap) news_feed = drain_heap min_heap (snd first # news_feed)"

lemma drain_heap_rev: "drain_heap h acc = map snd (rev h) @ acc"
  by (induction h acc rule: drain_heap.induct) simp_all

lemma insort_between:
  "\<forall>x \<in> set xs. fst x < fst y \<Longrightarrow> \<forall>z \<in> set zs. fst y < fst z \<Longrightarrow> insort_key fst y (xs @ zs) = xs @ (y :: tweet) # zs"
proof (induction xs)
  case Nil
  then show ?case by (cases zs) auto
qed auto

lemma heap_add_step:
  assumes "newest_first (a @ y # b)"
  shows "heap_add n (rev (take n (a @ b))) y = rev (take n (a @ y # b))"
proof (cases "n \<le> length a")
  case True
  have "insort_key fst y ([] @ rev (take n a)) = [] @ y # rev (take n a)"
    by (rule insort_between) (use assms in \<open>auto dest: in_set_takeD\<close>)
  then show ?thesis using True by (simp add: heap_add_def)
next
  case False
  define m where "m = n - length a - 1"
  have n: "n = Suc (length a + m)" using False by (simp add: m_def)
  have "insort_key fst y (rev (take (Suc m) b) @ rev a) = rev (take (Suc m) b) @ y # rev a"
    by (rule insort_between) (use assms in \<open>auto dest: in_set_takeD\<close>)
  then have h: "insort_key fst y (rev (take n (a @ b))) = rev (take (Suc m) b) @ y # rev a"
    using n by simp
  show ?thesis
  proof (cases "m < length b")
    case True
    then have "rev (take (Suc m) b) = b ! m # rev (take m b)" by (simp add: take_Suc_conv_app_nth)
    then show ?thesis using True n h by (simp add: heap_add_def)
  next
    case False
    then show ?thesis using n h by (simp add: heap_add_def)
  qed
qed

lemma bounded_heap:
  "newest_first zs \<Longrightarrow> mset zs = mset ys \<Longrightarrow> foldl (heap_add n) [] ys = rev (take n zs)"
proof (induction ys arbitrary: zs rule: rev_induct)
  case (snoc y ys)
  then have "y \<in> set zs" by (metis add_mset_add_single mset_append mset.simps set_mset_mset union_single_eq_member)
  then obtain a b where zs: "zs = a @ y # b" by (meson split_list)
  then have "foldl (heap_add n) [] ys = rev (take n (a @ b))"
    using snoc.prems by (intro snoc.IH) auto
  then show ?case using heap_add_step [of a y b n] snoc.prems zs by simp
qed simp

subsection \<open>The merge\<close>

text \<open>An entry of the queue is the range from an iterator to its end, with its first element as key.\<close>

fun feed_insert :: "tweet list \<Rightarrow> tweet list list \<Rightarrow> tweet list list" where
  "feed_insert x [] = [x]"
| "feed_insert x (y # ys) = (if fst (hd y) < fst (hd x) then x # y # ys else y # feed_insert x ys)"

fun feed_merge :: "nat \<Rightarrow> tweet list list \<Rightarrow> int list" where
  "feed_merge (Suc k) ((tweet # rest) # max_heap) =
     snd tweet # feed_merge k (if rest = [] then max_heap else feed_insert rest max_heap)"
| "feed_merge _ _ = []"

fun feed_start :: "tweet list list \<Rightarrow> tweet list list \<Rightarrow> tweet list list" where
  "feed_start [] max_heap = max_heap"
| "feed_start (d # ds) max_heap = feed_start ds (if d = [] then max_heap else feed_insert d max_heap)"

definition merge_ok :: "tweet list list \<Rightarrow> bool" where
  "merge_ok h \<longleftrightarrow> (\<forall>d \<in> set h. d \<noteq> [] \<and> newest_first d) \<and> sorted_wrt (\<lambda>a b. fst (hd b) \<le> fst (hd a)) h"

lemma set_feed_insert: "set (feed_insert x h) = insert x (set h)"
  by (induction x h rule: feed_insert.induct) auto

lemma mset_feed_insert: "mset (concat (feed_insert x h)) = mset x + mset (concat h)"
  by (induction x h rule: feed_insert.induct) simp_all

lemma merge_ok_insert: "merge_ok h \<Longrightarrow> x \<noteq> [] \<Longrightarrow> newest_first x \<Longrightarrow> merge_ok (feed_insert x h)"
proof (induction x h rule: feed_insert.induct)
  case (2 x y ys)
  have ys: "merge_ok ys" using "2.prems"(1) by (simp add: merge_ok_def)
  show ?case
  proof (cases "fst (hd y) < fst (hd x)")
    case True
    then show ?thesis using "2.prems" by (force simp: merge_ok_def)
  next
    case False
    then show ?thesis using "2.IH" [OF False ys] "2.prems" by (auto simp: merge_ok_def set_feed_insert)
  qed
qed (simp add: merge_ok_def)

lemma feed_start_ok:
  "merge_ok h \<Longrightarrow> \<forall>d \<in> set ds. newest_first d \<Longrightarrow>
   merge_ok (feed_start ds h) \<and> mset (concat (feed_start ds h)) = mset (concat ds) + mset (concat h)"
proof (induction ds h rule: feed_start.induct)
  case (2 d ds h)
  then show ?case by (cases "d = []") (simp_all add: merge_ok_insert mset_feed_insert)
qed simp

lemma feed_merge_newest:
  "merge_ok h \<Longrightarrow> newest_first zs \<Longrightarrow> mset zs = mset (concat h) \<Longrightarrow> feed_merge k h = map snd (take k zs)"
proof (induction k h arbitrary: zs rule: feed_merge.induct)
  case (1 k tweet rest h)
  have later: "fst x \<le> fst tweet" if "x \<in> set (concat ((tweet # rest) # h))" for x
  proof (cases "x \<in> set (tweet # rest)")
    case True
    then show ?thesis using "1.prems"(1) by (auto simp: merge_ok_def)
  next
    case False
    then have "x \<in> (\<Union>d \<in> set h. set d)" using that by simp
    then obtain d where d: "d \<in> set h" "x \<in> set d" by blast
    then have "fst (hd d) \<le> fst tweet" "newest_first d" using "1.prems"(1) by (auto simp: merge_ok_def)
    then show ?thesis using d(2) by (cases d) auto
  qed
  have sets: "set zs = set (concat ((tweet # rest) # h))" using "1.prems"(3) by (rule mset_eq_setD)
  then obtain z zs' where zs: "zs = z # zs'" by (cases zs) auto
  have "z \<in> set zs" "tweet \<in> set zs" using sets zs by auto
  then have "tweet = z" using later [of z] sets "1.prems"(2) zs by fastforce
  let ?h = "if rest = [] then h else feed_insert rest h"
  have "merge_ok h" "newest_first rest" using "1.prems"(1) by (simp_all add: merge_ok_def)
  then have "merge_ok ?h" by (simp add: merge_ok_insert)
  moreover have "mset zs' = mset (concat ?h)"
    using "1.prems"(3) zs \<open>tweet = z\<close> by (simp add: mset_feed_insert)
  ultimately have "feed_merge k ?h = map snd (take k zs')" using "1.IH" [of zs'] "1.prems"(2) zs by simp
  then show ?case using zs \<open>tweet = z\<close> by simp
qed (simp_all add: merge_ok_def)

subsection \<open>Twitter\<close>

record twitter =
  user_follows :: "int \<Rightarrow> int set option"
  user_tweets :: "int \<Rightarrow> tweet list option"
  tw_timestamp :: int

definition tw_new :: twitter where
  "tw_new = \<lparr>user_follows = (\<lambda>_. None), user_tweets = (\<lambda>_. None), tw_timestamp = 0\<rparr>"

definition tweets_of :: "twitter \<Rightarrow> int \<Rightarrow> tweet list" where
  "tweets_of t u = at_key (user_tweets t) u []"

definition follows_of :: "twitter \<Rightarrow> int \<Rightarrow> int set" where
  "follows_of t u = at_key (user_follows t) u {}"

definition postTweet :: "int \<Rightarrow> int \<Rightarrow> twitter \<Rightarrow> twitter res" where
  "postTweet userId tweetId t =
     bind_res (c_int (tw_timestamp t + 1)) (\<lambda>next.
     let tweets = (tw_timestamp t, tweetId) # tweets_of t userId;
         tweets = (if length tweets > 10 then butlast tweets else tweets) in
     Inr (t\<lparr>user_tweets := (user_tweets t)(userId \<mapsto> tweets), tw_timestamp := next\<rparr>))"

definition follow :: "int \<Rightarrow> int \<Rightarrow> twitter \<Rightarrow> twitter" where
  "follow followerId followeeId t =
     t\<lparr>user_follows := (user_follows t)(followerId \<mapsto> insert followeeId (follows_of t followerId))\<rparr>"

definition unfollow :: "int \<Rightarrow> int \<Rightarrow> twitter \<Rightarrow> twitter" where
  "unfollow followerId followeeId t =
     (if followerId \<noteq> followeeId
      then t\<lparr>user_follows := (user_follows t)(followerId \<mapsto> follows_of t followerId - {followeeId})\<rparr> else t)"

text \<open>Both feeds first make the user follow itself and create the missing deques of the followees.\<close>

definition touch_feed :: "int \<Rightarrow> twitter \<Rightarrow> twitter" where
  "touch_feed userId t =
     (let t = follow userId userId t in
      t\<lparr>user_tweets := (\<lambda>u. if u \<in> follows_of t userId then Some (tweets_of t u) else user_tweets t u)\<rparr>)"

definition getNewsFeed_heap :: "(int set \<Rightarrow> int list) \<Rightarrow> int \<Rightarrow> twitter \<Rightarrow> int list \<times> twitter" where
  "getNewsFeed_heap traverse userId t =
     (let t = touch_feed userId t;
          min_heap = foldl (heap_add 10) [] (concat (map (tweets_of t) (traverse (follows_of t userId))))
      in (drain_heap min_heap [], t))"

definition getNewsFeed_merge :: "(int set \<Rightarrow> int list) \<Rightarrow> int \<Rightarrow> twitter \<Rightarrow> int list \<times> twitter" where
  "getNewsFeed_merge traverse userId t =
     (let t = touch_feed userId t;
          max_heap = feed_start (map (tweets_of t) (traverse (follows_of t userId))) []
      in (feed_merge 10 max_heap, t))"

datatype tw_call = Post int int | Follow int int | Unfollow int int | Read_heap int | Read_merge int

fun tw_step :: "(int set \<Rightarrow> int list) \<Rightarrow> tw_call \<Rightarrow> twitter \<Rightarrow> twitter res" where
  "tw_step traverse (Post u i) t = postTweet u i t"
| "tw_step traverse (Follow a b) t = Inr (follow a b t)"
| "tw_step traverse (Unfollow a b) t = Inr (unfollow a b t)"
| "tw_step traverse (Read_heap u) t = Inr (snd (getNewsFeed_heap traverse u t))"
| "tw_step traverse (Read_merge u) t = Inr (snd (getNewsFeed_merge traverse u t))"

fun tw_run :: "(int set \<Rightarrow> int list) \<Rightarrow> tw_call list \<Rightarrow> twitter \<Rightarrow> twitter res" where
  "tw_run traverse [] t = Inr t"
| "tw_run traverse (c # cs) t = bind_res (tw_step traverse c t) (tw_run traverse cs)"

text \<open>The reference: the posts of a run with their authors, the newest first.\<close>

fun newest_posts :: "tw_call list \<Rightarrow> (int \<times> int) list" where
  "newest_posts [] = []"
| "newest_posts (Post u i # cs) = newest_posts cs @ [(u, i)]"
| "newest_posts (c # cs) = newest_posts cs"

definition recent_posts :: "int set \<Rightarrow> tw_call list \<Rightarrow> int list" where
  "recent_posts users cs = map snd (take 10 (filter (\<lambda>p. fst p \<in> users) (newest_posts cs)))"

text \<open>The invariant, over the log of the posts with their timestamps.\<close>

definition by_user :: "('u \<times> tweet) list \<Rightarrow> 'u set \<Rightarrow> tweet list" where
  "by_user posts users = map snd (filter (\<lambda>p. fst p \<in> users) posts)"

definition tw_inv :: "(int \<times> tweet) list \<Rightarrow> twitter \<Rightarrow> bool" where
  "tw_inv posts t \<longleftrightarrow> newest_first (map snd posts) \<and> (\<forall>p \<in> set posts. fst (snd p) < tw_timestamp t) \<and>
     (\<forall>u. tweets_of t u = take 10 (by_user posts {u})) \<and> (\<forall>u. finite (follows_of t u))"

lemma follow_simps [simp]:
  "tweets_of (follow a b t) v = tweets_of t v" "tw_timestamp (follow a b t) = tw_timestamp t"
  "follows_of (follow a b t) v = (if v = a then insert b (follows_of t a) else follows_of t v)"
  "tweets_of (unfollow a b t) v = tweets_of t v" "tw_timestamp (unfollow a b t) = tw_timestamp t"
  "follows_of (unfollow a b t) v = (if v = a \<and> a \<noteq> b then follows_of t a - {b} else follows_of t v)"
  by (simp_all add: follow_def unfollow_def tweets_of_def follows_of_def)

lemma tweets_of_touch [simp]: "tweets_of (touch_feed u t) v = tweets_of t v"
  by (simp add: touch_feed_def tweets_of_def follow_def at_key_def Let_def split: option.split)

lemma follows_of_touch [simp]: "follows_of (touch_feed u t) v = (if v = u then insert u (follows_of t u) else follows_of t v)"
  by (simp add: touch_feed_def follows_of_def follow_def Let_def)

lemma tw_timestamp_touch [simp]: "tw_timestamp (touch_feed u t) = tw_timestamp t"
  by (simp add: touch_feed_def follow_def Let_def)

lemma tw_inv_post:
  assumes "tw_inv posts t" and "postTweet u i t = Inr t'"
  shows "tw_inv ((u, tw_timestamp t, i) # posts) t'"
proof -
  let ?new = "(tw_timestamp t, i) # take 10 (by_user posts {u})"
  have cut: "(if length ?new > 10 then butlast ?new else ?new) = take 10 ((tw_timestamp t, i) # by_user posts {u})"
    by (cases "length (by_user posts {u}) = 10") (auto simp: butlast_conv_take take_Cons' min_def)
  have t': "t' = t\<lparr>user_tweets := (user_tweets t)(u \<mapsto> take 10 ((tw_timestamp t, i) # by_user posts {u})),
      tw_timestamp := tw_timestamp t + 1\<rparr>"
    using assms unfolding postTweet_def Let_def tw_inv_def cut [symmetric] by auto
  have "tweets_of t' v = take 10 (by_user ((u, tw_timestamp t, i) # posts) {v})" for v
    using assms(1) unfolding t' tw_inv_def by (auto simp: tweets_of_def by_user_def)
  then show ?thesis
    using assms(1) unfolding tw_inv_def by (auto simp: t' follows_of_def)
qed

lemma tw_inv_step:
  assumes "tw_inv posts t" and "tw_step traverse c t = Inr t'"
  shows "tw_inv ((case c of Post u i \<Rightarrow> [(u, tw_timestamp t, i)] | _ \<Rightarrow> []) @ posts) t'"
proof (cases c)
  case (Post u i)
  then show ?thesis using tw_inv_post assms by simp
qed (use assms in \<open>auto simp: tw_inv_def getNewsFeed_heap_def getNewsFeed_merge_def Let_def\<close>)

lemma tw_inv_run:
  "tw_inv posts t \<Longrightarrow> tw_run traverse cs t = Inr t' \<Longrightarrow>
   \<exists>more. tw_inv (more @ posts) t' \<and> map (\<lambda>(u, ts, i). (u, i)) more = newest_posts cs"
proof (induction cs arbitrary: posts t)
  case (Cons c cs)
  then obtain t1 where t1: "tw_step traverse c t = Inr t1" "tw_run traverse cs t1 = Inr t'" by auto
  let ?p = "case c of Post u i \<Rightarrow> [(u, tw_timestamp t, i)] | _ \<Rightarrow> []"
  obtain more where "tw_inv (more @ ?p @ posts) t'" "map (\<lambda>(u, ts, i). (u, i)) more = newest_posts cs"
    using Cons.IH [OF tw_inv_step [OF Cons.prems(1) t1(1)] t1(2)] by auto
  then show ?case by (intro exI [of _ "more @ ?p"]) (cases c; simp)
qed simp

text \<open>
  The newest ten of what some users posted are the newest ten of their own newest ten.
\<close>

lemma take_own:
  assumes "x \<in> set (take n (filter P xs))" and "P x" and "Q x" and "\<And>y. Q y \<Longrightarrow> P y"
  shows "x \<in> set (take n (filter Q xs))"
  using assms(1)
proof (induction xs arbitrary: n)
  case (Cons y xs)
  show ?case
  proof (cases n)
    case (Suc m)
    show ?thesis
    proof (cases "Q y")
      case True
      then show ?thesis using Cons.IH [of m] Cons.prems Suc assms(4) by auto
    next
      case False
      then have "x \<noteq> y" using assms(3) by auto
      then have "x \<in> set (take n (filter P xs))"
        using Cons.prems Suc by (auto split: if_splits dest: subsetD [OF set_take_subset_set_take [of m n], rotated])
      then show ?thesis using Cons.IH False by simp
    qed
  qed (use Cons.prems in simp)
qed simp

lemma distinct_concat_map:
  "distinct us \<Longrightarrow> (\<And>u. distinct (f u)) \<Longrightarrow> (\<And>u v. u \<noteq> v \<Longrightarrow> set (f u) \<inter> set (f v) = {}) \<Longrightarrow>
   distinct (concat (map f us))"
proof (induction us)
  case (Cons a us)
  have "set (f a) \<inter> set (f v) = {}" if "v \<in> set us" for v
    using Cons.prems(1) that by (intro Cons.prems(3)) auto
  then show ?case using Cons by auto
qed simp

lemma by_user_newest: "newest_first (map snd posts) \<Longrightarrow> newest_first (by_user posts users)"
proof (induction posts)
  case (Cons p posts)
  then show ?case by (auto simp: by_user_def)
qed (simp add: by_user_def)

lemma followees_newest:
  assumes inv: "tw_inv posts t" and us: "distinct us" and sub: "set us = users"
  shows "\<exists>zs. newest_first zs \<and> mset zs = mset (concat (map (tweets_of t) us)) \<and>
    take 10 zs = take 10 (by_user posts users)"
proof -
  let ?ys = "concat (map (tweets_of t) us)" and ?all = "by_user posts users"
  let ?zs = "filter (\<lambda>x. x \<in> set ?ys) ?all"
  have sorted: "newest_first (map snd posts)" and tw: "\<And>u. tweets_of t u = take 10 (by_user posts {u})"
    using inv by (auto simp: tw_inv_def)
  then have inj: "inj_on snd (set posts)" using newest_first_distinct distinct_map by blast
  have own: "x \<in> set (by_user posts {u}) \<longleftrightarrow> (u, x) \<in> set posts" for x u
    by (force simp: by_user_def)
  have "set (tweets_of t u) \<inter> set (tweets_of t v) = {}" if "u \<noteq> v" for u v
    using that inj_onD [OF inj] unfolding tw by (force simp: own dest!: in_set_takeD)
  moreover have "distinct (tweets_of t u)" for u
    unfolding tw using by_user_newest [OF sorted] newest_first_distinct newest_first_take by blast
  ultimately have "distinct ?ys" using us by (intro distinct_concat_map) auto
  moreover have "newest_first ?zs" by (intro newest_first_filter by_user_newest sorted)
  moreover have "set ?ys \<subseteq> set ?all"
  proof
    fix x assume "x \<in> set ?ys"
    then obtain u where "u \<in> users" "(u, x) \<in> set posts"
      using sub by (auto simp: tw own dest!: in_set_takeD)
    then show "x \<in> set ?all" by (force simp: by_user_def)
  qed
  then have "set ?zs = set ?ys" by auto
  ultimately have "mset ?zs = mset ?ys"
    using newest_first_distinct set_eq_iff_mset_eq_distinct by blast
  moreover have "take 10 ?zs = take 10 ?all"
  proof (rule take_filter_front)
    fix x assume "x \<in> set (take 10 ?all)"
    then obtain p where p: "p \<in> set (take 10 (filter (\<lambda>p. fst p \<in> users) posts))" "x = snd p"
      by (auto simp: by_user_def take_map)
    then have u: "fst p \<in> users" by (auto dest: in_set_takeD)
    have "p \<in> set (take 10 (filter (\<lambda>q. fst q \<in> {fst p}) posts))"
      by (rule take_own [OF p(1) u]) (use u in auto)
    then have "x \<in> set (tweets_of t (fst p))" using p(2) by (auto simp: tw by_user_def take_map)
    then show "x \<in> set ?ys" using u sub by auto
  qed
  ultimately show ?thesis using \<open>newest_first ?zs\<close> by blast
qed

lemma feeds_newest:
  assumes inv: "tw_inv posts t" and tr: "\<And>S. finite S \<Longrightarrow> distinct (traverse S) \<and> set (traverse S) = S"
  shows "fst (getNewsFeed_heap traverse u t) = map snd (take 10 (by_user posts (insert u (follows_of t u))))"
    and "fst (getNewsFeed_merge traverse u t) = map snd (take 10 (by_user posts (insert u (follows_of t u))))"
proof -
  let ?users = "insert u (follows_of t u)"
  let ?ds = "map (tweets_of t) (traverse ?users)"
  have "finite ?users" using inv by (simp add: tw_inv_def)
  then obtain zs where zs: "newest_first zs" "mset zs = mset (concat ?ds)" "take 10 zs = take 10 (by_user posts ?users)"
    using followees_newest [OF inv, of "traverse ?users" ?users] tr by blast
  have ds: "map (tweets_of (touch_feed u t)) xs = map (tweets_of t) xs" for xs by simp
  show "fst (getNewsFeed_heap traverse u t) = map snd (take 10 (by_user posts ?users))"
    using bounded_heap [OF zs(1,2), of 10] zs(3) by (simp add: getNewsFeed_heap_def Let_def ds drain_heap_rev)
  have "newest_first (tweets_of t v)" for v
    using inv newest_first_take by_user_newest unfolding tw_inv_def by metis
  then have "\<forall>d \<in> set ?ds. newest_first d" by simp
  then have "merge_ok (feed_start ?ds [])" "mset (concat (feed_start ?ds [])) = mset (concat ?ds)"
    using feed_start_ok [of "[]" ?ds] by (simp_all add: merge_ok_def)
  then have "feed_merge 10 (feed_start ?ds []) = map snd (take 10 zs)"
    using feed_merge_newest zs(1,2) by metis
  then show "fst (getNewsFeed_merge traverse u t) = map snd (take 10 (by_user posts ?users))"
    using zs(3) by (simp add: getNewsFeed_merge_def Let_def ds)
qed

text \<open>
  Claim C36.  After any calls on a new \<open>Twitter\<close>, both implementations of \<open>getNewsFeed\<close> return the
  same feed, in whatever order the set of followees is traversed: the ids of the ten newest of all
  the tweets ever posted by the user and those it follows, newest first, although a deque keeps
  only ten tweets.
\<close>

theorem twitter_feeds_agree:
  assumes "\<forall>S. finite S \<longrightarrow> distinct (traverse S) \<and> set (traverse S) = S"
    and "tw_run traverse cs tw_new = Inr t"
  shows "fst (getNewsFeed_heap traverse u t) = recent_posts (insert u (follows_of t u)) cs \<and>
    fst (getNewsFeed_merge traverse u t) = recent_posts (insert u (follows_of t u)) cs"
proof -
  have "tw_inv [] tw_new"
    by (simp add: tw_inv_def tw_new_def tweets_of_def follows_of_def at_key_def by_user_def)
  then obtain posts where posts: "tw_inv posts t" "map (\<lambda>(u, ts, i). (u, i)) posts = newest_posts cs"
    using tw_inv_run [of "[]" tw_new traverse cs t] assms(2) by auto
  have "map snd (take 10 (by_user posts users)) = recent_posts users cs" for users
    unfolding recent_posts_def posts(2) [symmetric] by_user_def
    by (simp add: filter_map take_map comp_def case_prod_beta)
  then show ?thesis using feeds_newest [OF posts(1), of traverse u] assms(1) by simp
qed

lemma twitter_feeds_agree_witness:
  "\<exists>t. tw_run sorted_list_of_set [Post 1 5, Post 2 6, Follow 1 2, Post 2 7] tw_new = Inr t \<and>
     fst (getNewsFeed_heap sorted_list_of_set 1 t) = [7, 6, 5] \<and> fst (getNewsFeed_merge sorted_list_of_set 1 t) = [7, 6, 5]"
proof -
  define t where "t = \<lparr>user_follows = [1 \<mapsto> {2}], user_tweets = [1 \<mapsto> [(0, 5)], 2 \<mapsto> [(2, 7), (1, 6)]], tw_timestamp = 3\<rparr>"
  have run: "tw_run sorted_list_of_set [Post 1 5, Post 2 6, Follow 1 2, Post 2 7] tw_new = Inr t"
    by (simp add: postTweet_def follow_def tweets_of_def follows_of_def tw_new_def at_key_def c_int_eval t_def)
  have "\<forall>S :: int set. finite S \<longrightarrow> distinct (sorted_list_of_set S) \<and> set (sorted_list_of_set S) = S" by simp
  note feeds = twitter_feeds_agree [OF this run, of 1]
  have "recent_posts (insert 1 (follows_of t 1)) [Post 1 5, Post 2 6, Follow 1 2, Post 2 7] = [7, 6, 5]"
    by (simp add: recent_posts_def follows_of_def at_key_def t_def)
  then show ?thesis using run feeds by auto
qed

subsection \<open>StockFeedManager\<close>

record stock_feed =
  sf_timestamp :: int
  user_stocks :: "int \<Rightarrow> string set option"
  events :: "string \<Rightarrow> tweet list option"

definition sf_new :: stock_feed where
  "sf_new = \<lparr>sf_timestamp = 0, user_stocks = (\<lambda>_. None), events = (\<lambda>_. None)\<rparr>"

definition stocks_of :: "stock_feed \<Rightarrow> int \<Rightarrow> string set" where
  "stocks_of s u = at_key (user_stocks s) u {}"

definition events_of :: "stock_feed \<Rightarrow> string \<Rightarrow> tweet list" where
  "events_of s symbol = at_key (events s) symbol []"

definition addEvent :: "string \<Rightarrow> int \<Rightarrow> stock_feed \<Rightarrow> stock_feed res" where
  "addEvent stockSymbol eventId s =
     bind_res (c_int (sf_timestamp s + 1)) (\<lambda>next.
     Inr (s\<lparr>events := (events s)(stockSymbol \<mapsto> events_of s stockSymbol @ [(sf_timestamp s, eventId)]), sf_timestamp := next\<rparr>))"

definition subscribe :: "int \<Rightarrow> string \<Rightarrow> stock_feed \<Rightarrow> stock_feed" where
  "subscribe userId stockSymbol s =
     s\<lparr>user_stocks := (user_stocks s)(userId \<mapsto> insert stockSymbol (stocks_of s userId))\<rparr>"

definition unsubscribe :: "int \<Rightarrow> string \<Rightarrow> stock_feed \<Rightarrow> stock_feed" where
  "unsubscribe userId stockSymbol s =
     s\<lparr>user_stocks := (user_stocks s)(userId \<mapsto> stocks_of s userId - {stockSymbol})\<rparr>"

text \<open>A negative \<open>maxEvents\<close> becomes a huge \<open>size_t\<close>, which \<open>reserve\<close> refuses.\<close>

definition getUserFeed :: "(string set \<Rightarrow> string list) \<Rightarrow> int \<Rightarrow> int \<Rightarrow> stock_feed \<Rightarrow> (int list \<times> stock_feed) res" where
  "getUserFeed traverse userId maxEvents s =
     (if user_stocks s userId = None then Inr ([], s)
      else
        let symbols = stocks_of s userId;
            s = s\<lparr>events := (\<lambda>x. if x \<in> symbols then Some (events_of s x) else events s x)\<rparr>;
            q = feed_start (map (\<lambda>x. rev (events_of s x)) (traverse symbols)) []
        in if maxEvents < 0 then Inl (Throw ''vector::reserve'')
           else Inr (feed_merge (nat maxEvents) q, s))"

definition sf_inv :: "(string \<times> tweet) list \<Rightarrow> stock_feed \<Rightarrow> bool" where
  "sf_inv posts s \<longleftrightarrow> newest_first (map snd posts) \<and> (\<forall>p \<in> set posts. fst (snd p) < sf_timestamp s) \<and>
     (\<forall>x. events_of s x = rev (by_user posts {x})) \<and> (\<forall>u. finite (stocks_of s u))"

lemma sf_inv_new: "sf_inv [] sf_new"
  by (simp add: sf_inv_def sf_new_def events_of_def stocks_of_def at_key_def by_user_def)

lemma sf_inv_step:
  assumes "sf_inv posts s"
  shows "addEvent x i s = Inr s' \<Longrightarrow> sf_inv ((x, sf_timestamp s, i) # posts) s'"
    and "sf_inv posts (subscribe u x s)" and "sf_inv posts (unsubscribe u x s)"
    and "getUserFeed traverse u n s = Inr (xs, s') \<Longrightarrow> sf_inv posts s'"
  using assms by (auto simp: sf_inv_def addEvent_def subscribe_def unsubscribe_def getUserFeed_def events_of_def
    stocks_of_def by_user_def at_key_def Let_def split: if_splits)

lemma mset_by_user_insert:
  "u \<notin> users \<Longrightarrow> mset (by_user posts (insert u users)) = mset (by_user posts {u}) + mset (by_user posts users)"
  by (induction posts) (auto simp: by_user_def)

lemma mset_by_user: "distinct us \<Longrightarrow> mset (concat (map (\<lambda>u. by_user posts {u}) us)) = mset (by_user posts (set us))"
proof (induction us)
  case Nil
  then show ?case by (simp add: by_user_def)
next
  case (Cons a us)
  then show ?case using mset_by_user_insert [of a "set us" posts] by simp
qed

text \<open>The feed is the newest \<open>maxEvents\<close> events of the subscribed stocks, newest first.\<close>

lemma getUserFeed_newest:
  assumes inv: "sf_inv posts s" and tr: "\<And>S. finite S \<Longrightarrow> distinct (traverse S) \<and> set (traverse S) = S"
    and sub: "user_stocks s u \<noteq> None"
  shows "\<exists>s'. getUserFeed traverse u (int n) s = Inr (map snd (take n (by_user posts (stocks_of s u))), s')"
proof -
  let ?S = "stocks_of s u" and ?ds = "map (\<lambda>x. by_user posts {x}) (traverse (stocks_of s u))"
  have S: "distinct (traverse ?S)" "set (traverse ?S) = ?S" using inv tr by (simp_all add: sf_inv_def)
  have sorted: "newest_first (map snd posts)" using inv by (simp add: sf_inv_def)
  have "\<forall>d \<in> set ?ds. newest_first d" using by_user_newest [OF sorted] by auto
  then have "merge_ok (feed_start ?ds [])" "mset (concat (feed_start ?ds [])) = mset (by_user posts ?S)"
    using feed_start_ok [of "[]" ?ds] mset_by_user [OF S(1), of posts] S(2) by (simp_all add: merge_ok_def)
  then have merge: "feed_merge n (feed_start ?ds []) = map snd (take n (by_user posts ?S))"
    using feed_merge_newest by_user_newest [OF sorted] by metis
  let ?s = "s\<lparr>events := (\<lambda>x. if x \<in> ?S then Some (events_of s x) else events s x)\<rparr>"
  have "events_of ?s = events_of s" by (auto simp: events_of_def at_key_def)
  then have ev: "map (\<lambda>x. rev (events_of ?s x)) (traverse ?S) = ?ds" using inv by (simp add: sf_inv_def)
  have "\<not> int n < 0" by simp
  then show ?thesis unfolding getUserFeed_def Let_def ev nat_int merge using sub by auto
qed

text \<open>\<open>main\<close>: the feeds before and after the unsubscription.\<close>

definition sf_main :: "(string set \<Rightarrow> string list) \<Rightarrow> (int list \<times> int list) res" where
  "sf_main traverse =
     bind_res (addEvent ''AAPL'' 101 sf_new) (\<lambda>s.
     bind_res (addEvent ''TSLA'' 102 s) (\<lambda>s.
     let s = subscribe 1 ''TSLA'' (subscribe 1 ''AAPL'' s) in
     bind_res (addEvent ''TSLA'' 103 s) (\<lambda>s.
     bind_res (addEvent ''AAPL'' 104 s) (\<lambda>s.
     bind_res (getUserFeed traverse 1 3 s) (\<lambda>(feed, s).
     let s = unsubscribe 1 ''AAPL'' s in
     bind_res (addEvent ''TSLA'' 105 s) (\<lambda>s.
     bind_res (addEvent ''TSLA'' 106 s) (\<lambda>s.
     bind_res (getUserFeed traverse 1 3 s) (\<lambda>(feed', s). Inr (feed, feed')))))))))"

subsection \<open>The second StockFeedManager\<close>

text \<open>A feed per user, kept up to date by every event and subscription.\<close>

record stock_feed2 =
  sf2_timestamp :: int
  user_feed2 :: "int \<Rightarrow> int list option"
  user_stocks2 :: "int \<Rightarrow> string set option"
  events2 :: "string \<Rightarrow> tweet list option"

definition sf2_new :: stock_feed2 where
  "sf2_new = \<lparr>sf2_timestamp = 0, user_feed2 = (\<lambda>_. None), user_stocks2 = (\<lambda>_. None), events2 = (\<lambda>_. None)\<rparr>"

definition addEvent2 :: "string \<Rightarrow> int \<Rightarrow> stock_feed2 \<Rightarrow> stock_feed2 res" where
  "addEvent2 stockSymbol eventId s =
     bind_res (c_int (sf2_timestamp s + 1)) (\<lambda>next.
     Inr (s\<lparr>events2 := (events2 s)(stockSymbol \<mapsto> at_key (events2 s) stockSymbol [] @ [(sf2_timestamp s, eventId)]),
       sf2_timestamp := next,
       user_feed2 := (\<lambda>u. if stockSymbol \<in> at_key (user_stocks2 s) u {} then Some (eventId # at_key (user_feed2 s) u [])
         else user_feed2 s u)\<rparr>))"

definition subscribe2 :: "int \<Rightarrow> string \<Rightarrow> stock_feed2 \<Rightarrow> stock_feed2" where
  "subscribe2 userId stockSymbol s =
     (let s = s\<lparr>user_stocks2 := (user_stocks2 s)(userId \<mapsto> insert stockSymbol (at_key (user_stocks2 s) userId {}))\<rparr> in
      case events2 s stockSymbol of
        Some (e # es) \<Rightarrow> s\<lparr>user_feed2 := (user_feed2 s)(userId \<mapsto>
          foldl (\<lambda>feed event. snd event # feed) (at_key (user_feed2 s) userId []) (e # es))\<rparr>
      | _ \<Rightarrow> s)"

definition unsubscribe2 :: "int \<Rightarrow> string \<Rightarrow> stock_feed2 \<Rightarrow> stock_feed2" where
  "unsubscribe2 userId stockSymbol s = (case user_stocks2 s userId of
     None \<Rightarrow> s
   | Some stocks \<Rightarrow>
       if stockSymbol \<notin> stocks then s
       else let evs = at_key (events2 s) stockSymbol [] in
         s\<lparr>user_stocks2 := (user_stocks2 s)(userId \<mapsto> stocks - {stockSymbol}),
           events2 := (events2 s)(stockSymbol \<mapsto> evs),
           user_feed2 := (user_feed2 s)(userId \<mapsto>
             foldl (\<lambda>feed event. removeAll (snd event) feed) (at_key (user_feed2 s) userId []) evs)\<rparr>)"

definition getUserFeed2 :: "int \<Rightarrow> int \<Rightarrow> stock_feed2 \<Rightarrow> int list res" where
  "getUserFeed2 userId maxEvents s = (case user_feed2 s userId of
     None \<Rightarrow> Inr []
   | Some feed \<Rightarrow> if maxEvents < 0 then Inl (Throw ''vector::reserve'') else Inr (take (nat maxEvents) feed))"

definition sf2_main :: "(int list \<times> int list) res" where
  "sf2_main =
     bind_res (addEvent2 ''AAPL'' 101 sf2_new) (\<lambda>s.
     bind_res (addEvent2 ''TSLA'' 102 s) (\<lambda>s.
     let s = subscribe2 1 ''TSLA'' (subscribe2 1 ''AAPL'' s) in
     bind_res (addEvent2 ''TSLA'' 103 s) (\<lambda>s.
     bind_res (addEvent2 ''AAPL'' 104 s) (\<lambda>s.
     bind_res (getUserFeed2 1 3 s) (\<lambda>feed.
     let s = unsubscribe2 1 ''AAPL'' s in
     bind_res (addEvent2 ''TSLA'' 105 s) (\<lambda>s.
     bind_res (addEvent2 ''TSLA'' 106 s) (\<lambda>s.
     bind_res (getUserFeed2 1 3 s) (\<lambda>feed'. Inr (feed, feed')))))))))"

text \<open>The second feed of \<open>main\<close> is not the \<open>[103, 102]\<close> its comment expects.\<close>

lemma sf2_main_feeds: "sf2_main = Inr ([104, 103, 102], [106, 105, 103])"
  by (simp add: sf2_main_def sf2_new_def addEvent2_def subscribe2_def unsubscribe2_def getUserFeed2_def at_key_def
    c_int_eval Let_def)

text \<open>
  A subscription prepends the old events of its stock, however old: the two managers give
  different feeds when a user subscribes to the stocks in another order than their events came.
\<close>

definition late_subscriber :: "stock_feed2 res" where
  "late_subscriber = bind_res (addEvent2 ''A'' 1 sf2_new) (\<lambda>s. bind_res (addEvent2 ''B'' 2 s) (\<lambda>s.
     Inr (subscribe2 1 ''A'' (subscribe2 1 ''B'' s))))"

lemma late_subscriber_unsorted: "bind_res late_subscriber (getUserFeed2 1 2) = Inr [1, 2]"
  by (simp add: late_subscriber_def sf2_new_def addEvent2_def subscribe2_def getUserFeed2_def at_key_def
    c_int_eval Let_def)

text \<open>Subscribing twice shows every old event twice.\<close>

lemma subscribe2_twice:
  "events2 s x = Some evs \<Longrightarrow> evs \<noteq> [] \<Longrightarrow>
   at_key (user_feed2 (subscribe2 u x (subscribe2 u x s))) u [] =
     rev (map snd evs) @ rev (map snd evs) @ at_key (user_feed2 s) u []"
proof -
  have "foldl (\<lambda>feed event. snd event # feed) acc evs = rev (map snd evs) @ acc" for acc and evs :: "tweet list"
    by (induction evs arbitrary: acc) simp_all
  then show "events2 s x = Some evs \<Longrightarrow> evs \<noteq> [] \<Longrightarrow> ?thesis"
    by (cases evs) (simp_all add: subscribe2_def Let_def)
qed

end

