(* ===== verification/SmartPointers.thy ===== *)
theory SmartPointers
  imports Prelude "HOL-Library.Multiset"
begin

text \<open>
  The smart pointers of \<^verbatim>\<open>Study/weak_ptr_impl.cpp\<close> (\<open>SharedPtr\<close>, \<open>WeakPtr\<close> and their
  \<open>ControlBlock\<close>) and of \<^verbatim>\<open>Study/smart_ptr.cpp\<close> (\<open>my_unique\<close>, \<open>my_shared\<close>), over a heap on
  which reading or deleting what has been deleted is undefined behaviour.  The managed objects
  own no smart pointers themselves.
\<close>

subsection \<open>Control blocks\<close>

record control_block =
  cb_ptr :: "nat option"
  shared_count :: int
  weak_count :: int

record ptr_memory =
  blocks :: "control_block option list"
  objects :: "bool list"

definition block_at :: "nat \<Rightarrow> ptr_memory \<Rightarrow> control_block res" where
  "block_at c m =
     (if c < length (blocks m) then (case blocks m ! c of Some b \<Rightarrow> Inr b | None \<Rightarrow> Inl (UB DanglingPointer))
      else Inl (UB DanglingPointer))"

definition set_block :: "nat \<Rightarrow> control_block option \<Rightarrow> ptr_memory \<Rightarrow> ptr_memory" where
  "set_block c b m = m\<lparr>blocks := (blocks m)[c := b]\<rparr>"

definition delete_object :: "nat option \<Rightarrow> ptr_memory \<Rightarrow> ptr_memory res" where
  "delete_object p m = (case p of
     None \<Rightarrow> Inr m
   | Some x \<Rightarrow> if x < length (objects m) \<and> objects m ! x then Inr (m\<lparr>objects := (objects m)[x := False]\<rparr>)
       else Inl (UB DanglingPointer))"

subsection \<open>SharedPtr and WeakPtr\<close>

text \<open>A pointer is its \<open>control\<close>; \<open>SharedPtr(new T)\<close> makes an object and a block.\<close>

definition sp_new :: "ptr_memory \<Rightarrow> nat option \<times> ptr_memory" where
  "sp_new m = (Some (length (blocks m)), m\<lparr>objects := objects m @ [True],
     blocks := blocks m @ [Some \<lparr>cb_ptr = Some (length (objects m)), shared_count = 1, weak_count = 1\<rparr>]\<rparr>)"

text \<open>\<open>if (control) control->shared_count++\<close>, and the same for \<open>weak_count\<close>.\<close>

definition acquire_shared :: "nat option \<Rightarrow> ptr_memory \<Rightarrow> ptr_memory res" where
  "acquire_shared control m = (case control of
     None \<Rightarrow> Inr m
   | Some c \<Rightarrow> bind_res (block_at c m) (\<lambda>b. bind_res (c_int (shared_count b + 1)) (\<lambda>n.
       Inr (set_block c (Some (b\<lparr>shared_count := n\<rparr>)) m))))"

definition acquire_weak :: "nat option \<Rightarrow> ptr_memory \<Rightarrow> ptr_memory res" where
  "acquire_weak control m = (case control of
     None \<Rightarrow> Inr m
   | Some c \<Rightarrow> bind_res (block_at c m) (\<lambda>b. bind_res (c_int (weak_count b + 1)) (\<lambda>n.
       Inr (set_block c (Some (b\<lparr>weak_count := n\<rparr>)) m))))"

definition sp_release :: "nat option \<Rightarrow> ptr_memory \<Rightarrow> ptr_memory res" where
  "sp_release control m = (case control of
     None \<Rightarrow> Inr m
   | Some c \<Rightarrow> bind_res (block_at c m) (\<lambda>b. bind_res (c_int (shared_count b - 1)) (\<lambda>n.
       if n = 0
       then bind_res (delete_object (cb_ptr b) m) (\<lambda>m. bind_res (c_int (weak_count b - 1)) (\<lambda>k.
         Inr (set_block c (if k = 0 then None else Some \<lparr>cb_ptr = None, shared_count = n, weak_count = k\<rparr>) m)))
       else Inr (set_block c (Some (b\<lparr>shared_count := n\<rparr>)) m))))"

definition wp_release :: "nat option \<Rightarrow> ptr_memory \<Rightarrow> ptr_memory res" where
  "wp_release control m = (case control of
     None \<Rightarrow> Inr m
   | Some c \<Rightarrow> bind_res (block_at c m) (\<lambda>b. bind_res (c_int (weak_count b - 1)) (\<lambda>k.
       Inr (set_block c (if shared_count b = 0 \<and> k = 0 then None else Some (b\<lparr>weak_count := k\<rparr>)) m))))"

definition sp_get :: "nat option \<Rightarrow> ptr_memory \<Rightarrow> nat option res" where
  "sp_get control m = (case control of
     None \<Rightarrow> Inr None
   | Some c \<Rightarrow> bind_res (block_at c m) (\<lambda>b. Inr (cb_ptr b)))"

text \<open>\<open>operator*\<close> and \<open>operator->\<close>, with the access to the object that follows.\<close>

definition sp_deref :: "nat option \<Rightarrow> ptr_memory \<Rightarrow> nat res" where
  "sp_deref control m = (case control of
     None \<Rightarrow> Inl (UB NullPointer)
   | Some c \<Rightarrow> bind_res (block_at c m) (\<lambda>b. case cb_ptr b of
       None \<Rightarrow> Inl (UB NullPointer)
     | Some x \<Rightarrow> if x < length (objects m) \<and> objects m ! x then Inr x else Inl (UB DanglingPointer)))"

definition sp_unique :: "nat option \<Rightarrow> ptr_memory \<Rightarrow> bool res" where
  "sp_unique control m = (case control of
     None \<Rightarrow> Inr False
   | Some c \<Rightarrow> bind_res (block_at c m) (\<lambda>b. Inr (shared_count b = 1)))"

definition wp_expired :: "nat option \<Rightarrow> ptr_memory \<Rightarrow> bool res" where
  "wp_expired control m = (case control of
     None \<Rightarrow> Inr True
   | Some c \<Rightarrow> bind_res (block_at c m) (\<lambda>b. Inr (shared_count b = 0)))"

definition sp_of_weak :: "nat option \<Rightarrow> ptr_memory \<Rightarrow> (nat option \<times> ptr_memory) res" where
  "sp_of_weak control m = (case control of
     None \<Rightarrow> Inr (None, m)
   | Some c \<Rightarrow> bind_res (block_at c m) (\<lambda>b.
       if shared_count b > 0
       then bind_res (c_int (shared_count b + 1)) (\<lambda>n. Inr (Some c, set_block c (Some (b\<lparr>shared_count := n\<rparr>)) m))
       else Inr (None, m)))"

definition wp_lock :: "nat option \<Rightarrow> ptr_memory \<Rightarrow> (nat option \<times> ptr_memory) res" where
  "wp_lock control m = bind_res (wp_expired control m) (\<lambda>e. if e then Inr (None, m) else sp_of_weak control m)"

subsection \<open>Programs over the pointers\<close>

text \<open>
  The live variables of both kinds, in two lists; a call that names no live variable does nothing.
\<close>

record ptr_vars =
  sps :: "nat option list"
  wps :: "nat option list"
  ptr_mem :: ptr_memory

definition pv_new :: ptr_vars where
  "pv_new = \<lparr>sps = [], wps = [], ptr_mem = \<lparr>blocks = [], objects = []\<rparr>\<rparr>"

datatype ptr_call = Sp_null | Sp_new | Sp_copy nat | Sp_move nat | Sp_assign nat nat | Sp_move_assign nat nat | Sp_destroy nat
  | Wp_null | Wp_of nat | Wp_copy nat | Wp_assign nat nat | Wp_destroy nat | Wp_lock nat

definition without :: "nat \<Rightarrow> 'a list \<Rightarrow> 'a list" where
  "without i xs = take i xs @ drop (Suc i) xs"

fun ptr_do :: "ptr_call \<Rightarrow> ptr_vars \<Rightarrow> ptr_vars res" where
  "ptr_do Sp_null s = Inr (s\<lparr>sps := sps s @ [None]\<rparr>)"
| "ptr_do Sp_new s = (let (control, m) = sp_new (ptr_mem s) in Inr (s\<lparr>sps := sps s @ [control], ptr_mem := m\<rparr>))"
| "ptr_do (Sp_copy i) s =
     (if i < length (sps s)
      then bind_res (acquire_shared (sps s ! i) (ptr_mem s)) (\<lambda>m. Inr (s\<lparr>sps := sps s @ [sps s ! i], ptr_mem := m\<rparr>))
      else Inr s)"
| "ptr_do (Sp_move i) s =
     (if i < length (sps s) then Inr (s\<lparr>sps := (sps s)[i := None] @ [sps s ! i]\<rparr>) else Inr s)"
| "ptr_do (Sp_assign i j) s =
     (if i < length (sps s) \<and> j < length (sps s) \<and> i \<noteq> j
      then bind_res (sp_release (sps s ! i) (ptr_mem s)) (\<lambda>m. bind_res (acquire_shared (sps s ! j) m) (\<lambda>m.
        Inr (s\<lparr>sps := (sps s)[i := sps s ! j], ptr_mem := m\<rparr>)))
      else Inr s)"
| "ptr_do (Sp_move_assign i j) s =
     (if i < length (sps s) \<and> j < length (sps s) \<and> i \<noteq> j
      then bind_res (sp_release (sps s ! i) (ptr_mem s)) (\<lambda>m.
        Inr (s\<lparr>sps := (sps s)[i := sps s ! j, j := None], ptr_mem := m\<rparr>))
      else Inr s)"
| "ptr_do (Sp_destroy i) s =
     (if i < length (sps s)
      then bind_res (sp_release (sps s ! i) (ptr_mem s)) (\<lambda>m. Inr (s\<lparr>sps := without i (sps s), ptr_mem := m\<rparr>))
      else Inr s)"
| "ptr_do Wp_null s = Inr (s\<lparr>wps := wps s @ [None]\<rparr>)"
| "ptr_do (Wp_of i) s =
     (if i < length (sps s)
      then bind_res (acquire_weak (sps s ! i) (ptr_mem s)) (\<lambda>m. Inr (s\<lparr>wps := wps s @ [sps s ! i], ptr_mem := m\<rparr>))
      else Inr s)"
| "ptr_do (Wp_copy i) s =
     (if i < length (wps s)
      then bind_res (acquire_weak (wps s ! i) (ptr_mem s)) (\<lambda>m. Inr (s\<lparr>wps := wps s @ [wps s ! i], ptr_mem := m\<rparr>))
      else Inr s)"
| "ptr_do (Wp_assign i j) s =
     (if i < length (wps s) \<and> j < length (wps s) \<and> i \<noteq> j
      then bind_res (wp_release (wps s ! i) (ptr_mem s)) (\<lambda>m. bind_res (acquire_weak (wps s ! j) m) (\<lambda>m.
        Inr (s\<lparr>wps := (wps s)[i := wps s ! j], ptr_mem := m\<rparr>)))
      else Inr s)"
| "ptr_do (Wp_destroy i) s =
     (if i < length (wps s)
      then bind_res (wp_release (wps s ! i) (ptr_mem s)) (\<lambda>m. Inr (s\<lparr>wps := without i (wps s), ptr_mem := m\<rparr>))
      else Inr s)"
| "ptr_do (Wp_lock i) s =
     (if i < length (wps s)
      then bind_res (wp_lock (wps s ! i) (ptr_mem s)) (\<lambda>(control, m). Inr (s\<lparr>sps := sps s @ [control], ptr_mem := m\<rparr>))
      else Inr s)"

fun ptr_run :: "ptr_call list \<Rightarrow> ptr_vars \<Rightarrow> ptr_vars res" where
  "ptr_run [] s = Inr s"
| "ptr_run (c # cs) s = bind_res (ptr_do c s) (ptr_run cs)"

subsection \<open>The counts are right\<close>

definition one_handle :: "nat option \<Rightarrow> nat multiset" where
  "one_handle x = (case x of None \<Rightarrow> {#} | Some c \<Rightarrow> {#c#})"

definition handles :: "nat option list \<Rightarrow> nat multiset" where
  "handles xs = sum_list (map one_handle xs)"

lemma handles_simps [simp]:
  "handles [] = {#}" "handles (x # xs) = one_handle x + handles xs" "handles (xs @ ys) = handles xs + handles ys"
  "one_handle None = {#}" "one_handle (Some c) = {#c#}"
  by (simp_all add: handles_def one_handle_def)

lemma handles_member: "c \<in># handles xs \<longleftrightarrow> Some c \<in> set xs"
  by (induction xs) (auto simp: one_handle_def split: option.splits)

lemma size_handles: "size (handles xs) \<le> length xs"
proof (induction xs)
  case (Cons x xs)
  then show ?case by (cases x) simp_all
qed simp

lemma handles_split: "i < length xs \<Longrightarrow> handles xs = one_handle (xs ! i) + handles (without i xs)"
  using id_take_nth_drop [of i xs] by (metis handles_simps(2,3) without_def union_lcomm)

lemma handles_update: "i < length xs \<Longrightarrow> handles (xs[i := y]) = one_handle y + handles (without i xs)"
  by (simp add: upd_conv_take_nth_drop without_def union_lcomm)

fun cell_ok :: "control_block option \<Rightarrow> bool \<Rightarrow> nat \<Rightarrow> nat \<Rightarrow> nat \<Rightarrow> bool" where
  "cell_ok None alive c ns nw \<longleftrightarrow> ns = 0 \<and> nw = 0 \<and> \<not> alive"
| "cell_ok (Some b) alive c ns nw \<longleftrightarrow> 0 < ns + nw \<and> shared_count b = int ns \<and> alive = (0 < ns) \<and>
     weak_count b = int nw + (if 0 < ns then 1 else 0) \<and> cb_ptr b = (if 0 < ns then Some c else None)"

definition counts_ok :: "ptr_memory \<Rightarrow> nat multiset \<Rightarrow> nat multiset \<Rightarrow> bool" where
  "counts_ok m S W \<longleftrightarrow> length (objects m) = length (blocks m) \<and> (\<forall>c \<in># S + W. c < length (blocks m)) \<and>
     (\<forall>c < length (blocks m). cell_ok (blocks m ! c) (objects m ! c) c (count S c) (count W c))"

text \<open>A bound that keeps the \<open>int\<close> counts from overflowing.\<close>

definition few_handles :: "nat multiset \<Rightarrow> nat multiset \<Rightarrow> bool" where
  "few_handles S W \<longleftrightarrow> int (size S) + int (size W) + 2 < int_max"

lemma member_counts: "c \<in># S + W \<longleftrightarrow> 0 < count S c + count W c"
  by (simp only: count_greater_zero_iff [symmetric] count_union)

lemma counts_okE:
  assumes "counts_ok m S W" and "0 < count S c + count W c"
  obtains b where "c < length (blocks m)" and "c < length (objects m)" and "block_at c m = Inr b"
    and "blocks m ! c = Some b"
    and "shared_count b = int (count S c)" and "objects m ! c = (0 < count S c)"
    and "weak_count b = int (count W c) + (if 0 < count S c then 1 else 0)"
    and "cb_ptr b = (if 0 < count S c then Some c else None)"
proof -
  have "c \<in># S + W" using assms(2) member_counts by metis
  then have c: "c < length (blocks m)" "length (objects m) = length (blocks m)"
    "cell_ok (blocks m ! c) (objects m ! c) c (count S c) (count W c)"
    using assms(1) by (auto simp: counts_ok_def)
  then obtain b where "blocks m ! c = Some b" using assms(2) by (cases "blocks m ! c") auto
  then show thesis using that [of b] c by (simp add: block_at_def)
qed

lemma counts_ok_change:
  assumes ok: "counts_ok m S W" and c: "c < length (blocks m)"
    and cell: "cell_ok x alive c (count S' c) (count W' c)"
    and others: "\<And>d. d \<noteq> c \<Longrightarrow> count S' d = count S d \<and> count W' d = count W d"
  shows "counts_ok (m\<lparr>blocks := (blocks m)[c := x], objects := (objects m)[c := alive]\<rparr>) S' W'"
proof -
  have "d < length (blocks m)" if "d \<in># S' + W'" for d
  proof (cases "d = c")
    case False
    then have "d \<in># S + W" using that others [OF False] by (metis count_greater_zero_iff count_union)
    then show ?thesis using ok by (simp add: counts_ok_def)
  qed (use c in simp)
  then show ?thesis
    using assms by (auto simp: counts_ok_def nth_list_update)
qed

lemma counts_ok_block:
  assumes "counts_ok m S W" and "c < length (blocks m)"
    and "cell_ok x (objects m ! c) c (count S' c) (count W' c)"
    and "\<And>d. d \<noteq> c \<Longrightarrow> count S' d = count S d \<and> count W' d = count W d"
  shows "counts_ok (set_block c x m) S' W'"
  using counts_ok_change [of m S W c x "objects m ! c"] assms by (simp add: set_block_def)

lemma few_counts: "few_handles S W \<Longrightarrow> int (count S c) + int (count W c) + 2 < int_max"
  using count_le_size [of S c] count_le_size [of W c] unfolding few_handles_def by linarith

lemma acquire_shared_ok:
  assumes ok: "counts_ok m S W" and few: "few_handles S W" and x: "\<And>c. x = Some c \<Longrightarrow> c \<in># S"
  shows "\<exists>m'. acquire_shared x m = Inr m' \<and> counts_ok m' (one_handle x + S) W"
proof (cases x)
  case None
  then show ?thesis using ok by (simp add: acquire_shared_def)
next
  case (Some c)
  then have pos: "0 < count S c" using x by simp
  then obtain b where b: "c < length (blocks m)" "block_at c m = Inr b" "shared_count b = int (count S c)"
    "objects m ! c" "weak_count b = int (count W c) + 1" "cb_ptr b = Some c"
    using counts_okE [OF ok, of c] by auto
  have "int_min \<le> 0" by (simp add: int_min_def)
  then have n: "c_int (int (count S c) + 1) = Inr (int (count S c) + 1)"
    using few_counts [OF few, of c] by (intro c_int_ok) linarith+
  have "counts_ok (set_block c (Some (b\<lparr>shared_count := int (count S c) + 1\<rparr>)) m) (one_handle x + S) W"
    by (rule counts_ok_block [OF ok b(1)]) (use pos b Some in auto)
  then show ?thesis by (simp add: acquire_shared_def Some b(2,3) n)
qed

lemma acquire_weak_ok:
  assumes ok: "counts_ok m S W" and few: "few_handles S W" and x: "\<And>c. x = Some c \<Longrightarrow> c \<in># S + W"
  shows "\<exists>m'. acquire_weak x m = Inr m' \<and> counts_ok m' S (one_handle x + W)"
proof (cases x)
  case None
  then show ?thesis using ok by (simp add: acquire_weak_def)
next
  case (Some c)
  then have pos: "0 < count S c + count W c" using x member_counts by metis
  then obtain b where b: "c < length (blocks m)" "block_at c m = Inr b" "shared_count b = int (count S c)"
    "objects m ! c = (0 < count S c)" "weak_count b = int (count W c) + (if 0 < count S c then 1 else 0)"
    "cb_ptr b = (if 0 < count S c then Some c else None)"
    using counts_okE [OF ok] by metis
  have "int_min \<le> 0" "weak_count b \<le> int (count W c) + 1" "0 \<le> weak_count b"
    using b(5) by (auto simp: int_min_def)
  then have n: "c_int (weak_count b + 1) = Inr (weak_count b + 1)"
    using few_counts [OF few, of c] by (intro c_int_ok) linarith+
  have "counts_ok (set_block c (Some (b\<lparr>weak_count := weak_count b + 1\<rparr>)) m) S (one_handle x + W)"
    by (rule counts_ok_block [OF ok b(1)]) (use pos b Some in auto)
  then show ?thesis by (simp add: acquire_weak_def Some b(2) n)
qed

lemma sp_release_ok:
  assumes ok: "counts_ok m (one_handle x + S) W" and few: "few_handles S W"
  shows "\<exists>m'. sp_release x m = Inr m' \<and> counts_ok m' S W"
proof (cases x)
  case None
  then show ?thesis using ok by (simp add: sp_release_def)
next
  case (Some c)
  have ok': "counts_ok m (add_mset c S) W" using ok Some by simp
  obtain b where b: "c < length (blocks m)" "c < length (objects m)" "block_at c m = Inr b"
    "shared_count b = int (count S c) + 1" "objects m ! c" "weak_count b = int (count W c) + 1" "cb_ptr b = Some c"
    using counts_okE [OF ok', of c] by (force simp: add.commute)
  have "int_min \<le> 0" by (simp add: int_min_def)
  then have n: "c_int (int (count S c)) = Inr (int (count S c))" and k: "c_int (int (count W c)) = Inr (int (count W c))"
    using few_counts [OF few, of c] by (intro c_int_ok; linarith)+
  show ?thesis
  proof (cases "count S c = 0")
    case False
    have "counts_ok (set_block c (Some (b\<lparr>shared_count := int (count S c)\<rparr>)) m) S W"
      by (rule counts_ok_block [OF ok b(1)]) (use b Some False in auto)
    moreover have no: "(int (count S c) = 0) = False" using False by simp
    ultimately show ?thesis
      by (simp only: sp_release_def Some option.case b(3,4) add_diff_cancel_right' bind_res_simps n no if_False) blast
  next
    case True
    let ?x = "if int (count W c) = 0 then None else Some \<lparr>cb_ptr = None, shared_count = int (count S c), weak_count = int (count W c)\<rparr>"
    have del: "delete_object (cb_ptr b) m = Inr (m\<lparr>objects := (objects m)[c := False]\<rparr>)"
      using b by (simp add: delete_object_def)
    have "counts_ok (m\<lparr>blocks := (blocks m)[c := ?x], objects := (objects m)[c := False]\<rparr>) S W"
      by (rule counts_ok_change [OF ok b(1)]) (use True Some in auto)
    moreover have sb: "m\<lparr>blocks := (blocks m)[c := ?x], objects := (objects m)[c := False]\<rparr> =
        set_block c ?x (m\<lparr>objects := (objects m)[c := False]\<rparr>)" by (simp add: set_block_def)
    moreover have yes: "(int (count S c) = 0) = True" using True by simp
    ultimately show ?thesis
      by (simp only: sp_release_def Some option.case b(3,4,6) add_diff_cancel_right' bind_res_simps n yes if_True del k) blast
  qed
qed

lemma wp_release_ok:
  assumes ok: "counts_ok m S (one_handle x + W)" and few: "few_handles S W"
  shows "\<exists>m'. wp_release x m = Inr m' \<and> counts_ok m' S W"
proof (cases x)
  case None
  then show ?thesis using ok by (simp add: wp_release_def)
next
  case (Some c)
  have ok': "counts_ok m S (add_mset c W)" using ok Some by simp
  have pos: "0 < count S c + count (add_mset c W) c" by simp
  obtain b where b: "c < length (blocks m)" "block_at c m = Inr b" "shared_count b = int (count S c)"
    "objects m ! c = (0 < count S c)" "weak_count b = int (count (add_mset c W) c) + (if 0 < count S c then 1 else 0)"
    "cb_ptr b = (if 0 < count S c then Some c else None)"
    using counts_okE [OF ok' pos] by metis
  then have w: "weak_count b - 1 = int (count W c) + (if 0 < count S c then 1 else 0)" by simp
  have "int_min \<le> 0" "weak_count b - 1 \<le> int (count W c) + 1" "0 \<le> weak_count b - 1"
    using w by (auto simp: int_min_def)
  then have k: "c_int (weak_count b - 1) = Inr (weak_count b - 1)"
    using few_counts [OF few, of c] by (intro c_int_ok) linarith+
  have "counts_ok (set_block c (if shared_count b = 0 \<and> weak_count b - 1 = 0 then None
      else Some (b\<lparr>weak_count := weak_count b - 1\<rparr>)) m) S W"
    by (rule counts_ok_block [OF ok b(1)]) (use b w Some in auto)
  then show ?thesis by (simp only: wp_release_def Some b(2) k bind_res_simps option.case) blast
qed

lemma sp_new_ok:
  assumes "counts_ok m S W"
  shows "counts_ok (snd (sp_new m)) (one_handle (fst (sp_new m)) + S) W"
proof -
  have fresh: "count S (length (blocks m)) = 0" "count W (length (blocks m)) = 0"
    using assms by (auto simp: counts_ok_def count_eq_zero_iff)
  have "c < Suc (length (blocks m))" if "c \<in># S + W" for c
    using assms that by (auto simp: counts_ok_def intro: less_SucI)
  then show ?thesis using assms fresh by (auto simp: counts_ok_def sp_new_def nth_append less_Suc_eq)
qed

lemma wp_expired_ok:
  assumes "counts_ok m S W" and "\<And>c. x = Some c \<Longrightarrow> c \<in># S + W"
  shows "wp_expired x m = Inr (\<forall>c. x = Some c \<longrightarrow> c \<notin># S)"
proof (cases x)
  case (Some c)
  then have pos: "0 < count S c + count W c" using assms(2) member_counts by metis
  show ?thesis using counts_okE [OF assms(1) pos] Some by (force simp: wp_expired_def count_eq_zero_iff)
qed (simp add: wp_expired_def)

lemma wp_lock_ok:
  assumes ok: "counts_ok m S W" and few: "few_handles S W" and x: "\<And>c. x = Some c \<Longrightarrow> c \<in># W"
  shows "\<exists>y m'. wp_lock x m = Inr (y, m') \<and> y = (if \<exists>c. x = Some c \<and> c \<in># S then x else None) \<and>
    counts_ok m' (one_handle y + S) W"
proof (cases "\<exists>c. x = Some c \<and> c \<in># S")
  case True
  then obtain c where c: "x = Some c" "c \<in># S" by blast
  then obtain m' where m': "acquire_shared x m = Inr m'" "counts_ok m' (one_handle x + S) W"
    using acquire_shared_ok [OF ok few, of x] by auto
  obtain b where b: "block_at c m = Inr b" "shared_count b = int (count S c)"
    using counts_okE [OF ok, of c] c(2) by auto
  have "sp_of_weak x m = Inr (x, m')"
    using m'(1) b c by (auto simp: acquire_shared_def sp_of_weak_def simp del: c_int_Inr_iff)
  moreover have "wp_expired x m = Inr False" using wp_expired_ok [OF ok, of x] c by simp
  ultimately show ?thesis using m'(2) True by (simp add: wp_lock_def)
next
  case False
  then have "wp_expired x m = Inr True" using wp_expired_ok [OF ok, of x] x by auto
  then show ?thesis using False ok by (auto simp: wp_lock_def)
qed

subsection \<open>Every program is safe\<close>

definition vars_ok :: "ptr_vars \<Rightarrow> bool" where
  "vars_ok s \<longleftrightarrow> counts_ok (ptr_mem s) (handles (sps s)) (handles (wps s))"

lemma few_handlesI: "int (length xs) + int (length ys) + 2 < int_max \<Longrightarrow> few_handles (handles xs) (handles ys)"
  using size_handles [of xs] size_handles [of ys] unfolding few_handles_def by linarith

lemma few_handles_less: "few_handles (A + S) (B + W) \<Longrightarrow> few_handles S W"
  by (simp add: few_handles_def)

lemma nth_without: "i < length xs \<Longrightarrow> j < length xs \<Longrightarrow> i \<noteq> j \<Longrightarrow> xs ! j \<in> set (without i xs)"
  unfolding without_def set_append Un_iff
  by (cases "j < i") (auto simp: in_set_conv_nth intro: exI [of _ j] exI [of _ "j - Suc i"])

lemma length_without: "i < length xs \<Longrightarrow> length (without i xs) = length xs - 1"
  by (simp add: without_def)

text \<open>Giving up the handle in one variable.\<close>

lemma handles_pick:
  assumes "i < length xs"
  shows "handles xs = one_handle (xs ! i) + handles (without i xs)" and "xs ! i = Some c \<Longrightarrow> c \<in># handles xs"
  using assms handles_split [OF assms] by (auto simp: handles_member in_set_conv_nth)

lemma sp_slot_release:
  assumes cnt: "counts_ok m (handles xs) W" and few: "few_handles (handles xs) W" and i: "i < length xs"
  shows "few_handles (handles (without i xs)) W"
    and "\<exists>m'. sp_release (xs ! i) m = Inr m' \<and> counts_ok m' (handles (without i xs)) W"
proof -
  show few': "few_handles (handles (without i xs)) W"
    using few few_handles_less [of "one_handle (xs ! i)" _ "{#}" W] by (simp add: handles_pick(1) [OF i])
  show "\<exists>m'. sp_release (xs ! i) m = Inr m' \<and> counts_ok m' (handles (without i xs)) W"
    by (rule sp_release_ok [OF _ few']) (use cnt handles_pick(1) [OF i] in simp)
qed

lemma wp_slot_release:
  assumes cnt: "counts_ok m S (handles ys)" and few: "few_handles S (handles ys)" and i: "i < length ys"
  shows "few_handles S (handles (without i ys))"
    and "\<exists>m'. wp_release (ys ! i) m = Inr m' \<and> counts_ok m' S (handles (without i ys))"
proof -
  show few': "few_handles S (handles (without i ys))"
    using few few_handles_less [of "{#}" S "one_handle (ys ! i)"] by (simp add: handles_pick(1) [OF i])
  show "\<exists>m'. wp_release (ys ! i) m = Inr m' \<and> counts_ok m' S (handles (without i ys))"
    by (rule wp_release_ok [OF _ few']) (use cnt handles_pick(1) [OF i] in simp)
qed

text \<open>
  One call: it succeeds, keeps the counts, and makes at most one variable.  First the assignments
  between two different variables.
\<close>

definition call_ok :: "ptr_vars \<Rightarrow> ptr_vars res \<Rightarrow> bool" where
  "call_ok s r \<longleftrightarrow> (\<exists>s'. r = Inr s' \<and> vars_ok s' \<and>
     length (sps s') + length (wps s') \<le> Suc (length (sps s) + length (wps s)))"

lemma sp_assign_call_ok:
  assumes ok: "vars_ok s" and few: "few_handles (handles (sps s)) (handles (wps s))"
    and ij: "i < length (sps s)" "j < length (sps s)" "i \<noteq> j"
  shows "call_ok s (ptr_do (Sp_assign i j) s)"
proof -
  note cnt = ok [unfolded vars_ok_def]
  obtain m1 where m1: "sp_release (sps s ! i) (ptr_mem s) = Inr m1"
      "counts_ok m1 (handles (without i (sps s))) (handles (wps s))"
    using sp_slot_release(2) [OF cnt few ij(1)] by blast
  have "c \<in># handles (without i (sps s))" if "sps s ! j = Some c" for c
    using nth_without [OF ij] that by (simp add: handles_member)
  then obtain m2 where "acquire_shared (sps s ! j) m1 = Inr m2"
      "counts_ok m2 (one_handle (sps s ! j) + handles (without i (sps s))) (handles (wps s))"
    using acquire_shared_ok [OF m1(2) sp_slot_release(1) [OF cnt few ij(1)]] by blast
  then show ?thesis using ij m1 by (simp add: call_ok_def vars_ok_def handles_update)
qed

lemma sp_move_assign_call_ok:
  assumes ok: "vars_ok s" and few: "few_handles (handles (sps s)) (handles (wps s))"
    and ij: "i < length (sps s)" "j < length (sps s)" "i \<noteq> j"
  shows "call_ok s (ptr_do (Sp_move_assign i j) s)"
proof -
  obtain m1 where m1: "sp_release (sps s ! i) (ptr_mem s) = Inr m1"
      "counts_ok m1 (handles (without i (sps s))) (handles (wps s))"
    using sp_slot_release(2) [OF ok [unfolded vars_ok_def] few ij(1)] by blast
  let ?xs = "(sps s)[i := sps s ! j]"
  have "handles ?xs = one_handle (sps s ! j) + handles (without j ?xs)"
    using handles_split [of j ?xs] ij by simp
  moreover have "handles (?xs[j := None]) = handles (without j ?xs)"
    using handles_update [of j ?xs None] ij by simp
  moreover have "handles ?xs = one_handle (sps s ! j) + handles (without i (sps s))"
    using ij by (simp add: handles_update)
  ultimately show ?thesis using ij m1 by (simp add: call_ok_def vars_ok_def)
qed

lemma wp_assign_call_ok:
  assumes ok: "vars_ok s" and few: "few_handles (handles (sps s)) (handles (wps s))"
    and ij: "i < length (wps s)" "j < length (wps s)" "i \<noteq> j"
  shows "call_ok s (ptr_do (Wp_assign i j) s)"
proof -
  note cnt = ok [unfolded vars_ok_def]
  obtain m1 where m1: "wp_release (wps s ! i) (ptr_mem s) = Inr m1"
      "counts_ok m1 (handles (sps s)) (handles (without i (wps s)))"
    using wp_slot_release(2) [OF cnt few ij(1)] by blast
  have "c \<in># handles (sps s) + handles (without i (wps s))" if "wps s ! j = Some c" for c
    using nth_without [OF ij] that by (simp add: handles_member)
  then obtain m2 where "acquire_weak (wps s ! j) m1 = Inr m2"
      "counts_ok m2 (handles (sps s)) (one_handle (wps s ! j) + handles (without i (wps s)))"
    using acquire_weak_ok [OF m1(2) wp_slot_release(1) [OF cnt few ij(1)]] by blast
  then show ?thesis using ij m1 by (simp add: call_ok_def vars_ok_def handles_update)
qed

lemma ptr_do_call_ok:
  assumes ok: "vars_ok s" and few: "few_handles (handles (sps s)) (handles (wps s))"
  shows "call_ok s (ptr_do c s)"
proof -
  note cnt = ok [unfolded vars_ok_def]
  note in_sp = handles_pick(2) [of _ "sps s"] and in_wp = handles_pick(2) [of _ "wps s"]
  have same: "call_ok s (Inr s)" using ok by (simp add: call_ok_def)
  show ?thesis
  proof (cases c)
    case Sp_new
    then show ?thesis using sp_new_ok [OF cnt] by (auto simp: call_ok_def vars_ok_def add.commute split: prod.split)
  next
    case (Sp_copy i)
    then show ?thesis using acquire_shared_ok [OF cnt few, of "sps s ! i"] in_sp [of i] same
      by (cases "i < length (sps s)") (auto simp: call_ok_def vars_ok_def add.commute)
  next
    case (Sp_move i)
    then show ?thesis using cnt same handles_pick(1) [of i "sps s"]
      by (auto simp: call_ok_def vars_ok_def handles_update add.commute)
  next
    case (Sp_assign i j)
    then show ?thesis using sp_assign_call_ok [OF ok few, of i j] same by auto
  next
    case (Sp_move_assign i j)
    then show ?thesis using sp_move_assign_call_ok [OF ok few, of i j] same by auto
  next
    case (Sp_destroy i)
    then show ?thesis using sp_slot_release(2) [OF cnt few, of i] same by (auto simp: call_ok_def vars_ok_def length_without)
  next
    case (Wp_of i)
    then show ?thesis using acquire_weak_ok [OF cnt few, of "sps s ! i"] in_sp [of i] same
      by (cases "i < length (sps s)") (auto simp: call_ok_def vars_ok_def add.commute)
  next
    case (Wp_copy i)
    then show ?thesis using acquire_weak_ok [OF cnt few, of "wps s ! i"] in_wp [of i] same
      by (cases "i < length (wps s)") (auto simp: call_ok_def vars_ok_def add.commute)
  next
    case (Wp_assign i j)
    then show ?thesis using wp_assign_call_ok [OF ok few, of i j] same by auto
  next
    case (Wp_destroy i)
    then show ?thesis using wp_slot_release(2) [OF cnt few, of i] same by (auto simp: call_ok_def vars_ok_def length_without)
  next
    case (Wp_lock i)
    then show ?thesis using wp_lock_ok [OF cnt few, of "wps s ! i"] in_wp [of i] same
      by (cases "i < length (wps s)") (auto simp: call_ok_def vars_ok_def add.commute)
  qed (use ok in \<open>simp_all add: call_ok_def vars_ok_def\<close>)
qed

lemma ptr_do_ok:
  assumes "vars_ok s" and "int (length (sps s)) + int (length (wps s)) + 2 < int_max"
  shows "\<exists>s'. ptr_do c s = Inr s' \<and> vars_ok s' \<and>
    length (sps s') + length (wps s') \<le> Suc (length (sps s) + length (wps s))"
  using ptr_do_call_ok [OF assms(1) few_handlesI [OF assms(2)], of c] by (simp add: call_ok_def)

lemma ptr_run_ok:
  "vars_ok s \<Longrightarrow> int (length (sps s)) + int (length (wps s)) + int (length cs) + 2 < int_max \<Longrightarrow>
   \<exists>s'. ptr_run cs s = Inr s' \<and> vars_ok s'"
proof (induction cs arbitrary: s)
  case (Cons c cs)
  then have "int (length (sps s)) + int (length (wps s)) + 2 < int_max" by simp
  then obtain s1 where s1: "ptr_do c s = Inr s1" "vars_ok s1"
      "length (sps s1) + length (wps s1) \<le> Suc (length (sps s) + length (wps s))"
    using ptr_do_ok [OF Cons.prems(1)] by blast
  then have "int (length (sps s1)) + int (length (wps s1)) + int (length cs) + 2 < int_max"
    using Cons.prems(2) by simp
  then show ?case using Cons.IH [OF s1(2)] s1(1) by simp
qed simp

lemma counts_ok_cells:
  assumes "counts_ok m S W" and "c < length (objects m)"
  shows "objects m ! c \<longleftrightarrow> c \<in># S" and "blocks m ! c = None \<longleftrightarrow> c \<notin># S \<and> c \<notin># W"
proof -
  have cell: "cell_ok (blocks m ! c) (objects m ! c) c (count S c) (count W c)"
    using assms by (simp add: counts_ok_def)
  show "objects m ! c \<longleftrightarrow> c \<in># S" and "blocks m ! c = None \<longleftrightarrow> c \<notin># S \<and> c \<notin># W"
    using cell unfolding not_in_iff count_greater_zero_iff [symmetric] by (cases "blocks m ! c"; simp)+
qed

text \<open>
  Claim C38.  No program of constructions, copies, moves, assignments, locks and destructions of
  \<open>SharedPtr\<close>s and \<open>WeakPtr\<close>s reads or deletes anything deleted; at its end an object is alive
  exactly if some \<open>SharedPtr\<close> refers to it, its control block is deleted exactly if no pointer of
  either kind does, and \<open>expired\<close> tells exactly whether the object is gone.
\<close>

theorem weak_ptr_ownership:
  assumes "length cs < 2 ^ 31 - 8"
  shows "\<exists>s. ptr_run cs pv_new = Inr s \<and>
    (\<forall>c < length (objects (ptr_mem s)). (objects (ptr_mem s) ! c \<longleftrightarrow> Some c \<in> set (sps s)) \<and>
      (blocks (ptr_mem s) ! c = None \<longleftrightarrow> Some c \<notin> set (sps s) \<and> Some c \<notin> set (wps s))) \<and>
    (\<forall>x \<in> set (wps s). wp_expired x (ptr_mem s) = Inr (\<forall>c. x = Some c \<longrightarrow> \<not> objects (ptr_mem s) ! c))"
proof -
  have "vars_ok pv_new" by (simp add: vars_ok_def pv_new_def counts_ok_def)
  moreover have "int (length cs) + 2 < int_max" using assms by (simp add: int_max_def)
  ultimately obtain s where s: "ptr_run cs pv_new = Inr s" "vars_ok s"
    using ptr_run_ok [of pv_new cs] by (auto simp: pv_new_def)
  let ?m = "ptr_mem s"
  have cnt: "counts_ok ?m (handles (sps s)) (handles (wps s))" using s(2) by (simp add: vars_ok_def)
  then have cells: "objects ?m ! c \<longleftrightarrow> Some c \<in> set (sps s)"
      "blocks ?m ! c = None \<longleftrightarrow> Some c \<notin> set (sps s) \<and> Some c \<notin> set (wps s)"
    if "c < length (objects ?m)" for c
    using counts_ok_cells [OF cnt that] by (simp_all only: handles_member)
  moreover have "wp_expired x ?m = Inr (\<forall>c. x = Some c \<longrightarrow> \<not> objects ?m ! c)" if "x \<in> set (wps s)" for x
  proof -
    have "c < length (objects ?m)" "c \<in># handles (sps s) + handles (wps s)" if "x = Some c" for c
      using cnt that \<open>x \<in> set (wps s)\<close> by (auto simp: counts_ok_def handles_member)
    then show ?thesis
      using wp_expired_ok [OF cnt, of x] cells(1) by (auto simp: handles_member)
  qed
  ultimately show ?thesis using s(1) by blast
qed

text \<open>\<open>main\<close>: Alice is greeted through a lock, and expires with her only \<open>SharedPtr\<close>.\<close>

definition weak_main_calls :: "ptr_call list" where
  "weak_main_calls = [Wp_null, Sp_new, Wp_of 0, Wp_assign 0 1, Wp_destroy 1, Wp_lock 0, Sp_destroy 1, Sp_destroy 0]"

definition weak_main :: "bool res" where
  "weak_main = bind_res (ptr_run weak_main_calls pv_new) (\<lambda>s. wp_expired (wps s ! 0) (ptr_mem s))"

lemma weak_ptr_ownership_witness:
  "\<exists>s. ptr_run weak_main_calls pv_new = Inr s \<and> wps s = [Some 0] \<and> objects (ptr_mem s) = [False] \<and>
     wp_expired (Some 0) (ptr_mem s) = Inr True"
proof -
  define s where "s = \<lparr>sps = [], wps = [Some 0], ptr_mem =
    \<lparr>blocks = [Some \<lparr>cb_ptr = None, shared_count = 0, weak_count = 1\<rparr>], objects = [False]\<rparr>\<rparr>"
  have "length weak_main_calls < 2 ^ 31 - 8" by (simp add: weak_main_calls_def)
  note spec = weak_ptr_ownership [OF this]
  have "ptr_run weak_main_calls pv_new = Inr s"
    unfolding s_def by code_simp
  with spec show ?thesis by (auto simp: s_def)
qed

subsection \<open>my_unique\<close>

definition uq_move_construct :: "nat option \<Rightarrow> nat option \<times> nat option" where
  "uq_move_construct other = (other, None)"

text \<open>\<open>v = std::move(w)\<close> on the variables \<open>vs\<close>, and the destructor.\<close>

definition uq_move_assign :: "nat \<Rightarrow> nat \<Rightarrow> nat option list \<times> ptr_memory \<Rightarrow> (nat option list \<times> ptr_memory) res" where
  "uq_move_assign v w s = (case s of (vs, m) \<Rightarrow>
     if v = w then Inr (vs, m)
     else bind_res (delete_object (vs ! v) m) (\<lambda>m. Inr (vs[v := vs ! w, w := None], m)))"

definition uq_destroy :: "nat \<Rightarrow> nat option list \<times> ptr_memory \<Rightarrow> (nat option list \<times> ptr_memory) res" where
  "uq_destroy v s = (case s of (vs, m) \<Rightarrow> bind_res (delete_object (vs ! v) m) (\<lambda>m. Inr (without v vs, m)))"

definition uq_deref :: "nat option \<Rightarrow> ptr_memory \<Rightarrow> nat res" where
  "uq_deref p m = (case p of
     None \<Rightarrow> Inl (UB NullPointer)
   | Some x \<Rightarrow> if x < length (objects m) \<and> objects m ! x then Inr x else Inl (UB DanglingPointer))"

text \<open>Each live object has exactly one owner.\<close>

definition uq_ok :: "nat option list \<times> ptr_memory \<Rightarrow> bool" where
  "uq_ok s \<longleftrightarrow> (case s of (vs, m) \<Rightarrow> (\<forall>c. count (handles vs) c = (if c < length (objects m) \<and> objects m ! c then 1 else 0)))"

lemma uq_delete:
  assumes "uq_ok (vs, m)" and "i < length vs"
  shows "\<exists>m'. delete_object (vs ! i) m = Inr m' \<and> length (objects m') = length (objects m) \<and>
    (\<forall>c. count (handles (without i vs)) c = (if c < length (objects m') \<and> objects m' ! c then 1 else 0))"
proof -
  have own: "count (handles vs) c = (if c < length (objects m) \<and> objects m ! c then 1 else 0)" for c
    using assms(1) by (simp add: uq_ok_def)
  have split: "count (handles vs) c = count (one_handle (vs ! i)) c + count (handles (without i vs)) c" for c
    by (simp add: handles_split [OF assms(2)])
  show ?thesis
  proof (cases "vs ! i")
    case None
    then show ?thesis using own split by (simp add: delete_object_def)
  next
    case (Some x)
    have "0 < count (handles vs) x" using split [of x] Some by simp
    then have x: "x < length (objects m)" "objects m ! x" using own [of x] by (auto split: if_splits)
    have "count (handles (without i vs)) c = (if c < length (objects m) \<and> c \<noteq> x \<and> objects m ! c then 1 else 0)" for c
      using split [of c] own [of c] Some x by (auto split: if_splits)
    then show ?thesis using x Some by (auto simp: delete_object_def nth_list_update)
  qed
qed

lemma uq_ok_ops:
  assumes "uq_ok (vs, m)" and "i < length vs"
  shows "\<exists>s'. uq_destroy i (vs, m) = Inr s' \<and> uq_ok s'"
    and "j < length vs \<Longrightarrow> \<exists>s'. uq_move_assign i j (vs, m) = Inr s' \<and> uq_ok s'"
    and "uq_ok (vs[i := snd (uq_move_construct (vs ! i))] @ [fst (uq_move_construct (vs ! i))], m)"
proof -
  obtain m' where m': "delete_object (vs ! i) m = Inr m'"
      "\<And>c. count (handles (without i vs)) c = (if c < length (objects m') \<and> objects m' ! c then 1 else 0)"
    using uq_delete [OF assms] by blast
  show "\<exists>s'. uq_destroy i (vs, m) = Inr s' \<and> uq_ok s'" using m' by (simp add: uq_destroy_def uq_ok_def)
  show "\<exists>s'. uq_move_assign i j (vs, m) = Inr s' \<and> uq_ok s'" if j: "j < length vs"
  proof (cases "i = j")
    case True
    then show ?thesis using assms by (simp add: uq_move_assign_def)
  next
    case False
    let ?xs = "vs[i := vs ! j]"
    have "handles ?xs = one_handle (vs ! j) + handles (without j ?xs)"
      using handles_split [of j ?xs] j False by simp
    moreover have "handles (?xs[j := None]) = handles (without j ?xs)"
      using handles_update [of j ?xs None] j by simp
    moreover have "handles ?xs = one_handle (vs ! j) + handles (without i vs)"
      using assms(2) by (simp add: handles_update)
    ultimately show ?thesis using m' False by (simp add: uq_move_assign_def uq_ok_def)
  qed
  show "uq_ok (vs[i := snd (uq_move_construct (vs ! i))] @ [fst (uq_move_construct (vs ! i))], m)"
  proof -
    have "handles (vs[i := None] @ [vs ! i]) = handles vs"
      by (simp add: handles_update assms(2) handles_split [OF assms(2)] add.commute)
    then show ?thesis using assms(1) by (simp add: uq_ok_def uq_move_construct_def)
  qed
qed

subsection \<open>my_shared\<close>

record my_shared =
  m_ptr :: "nat option"
  m_ref_count :: "nat option"

record rc_heap =
  rc_mem :: ptr_memory
  ref_counts :: "int option list"

definition no_heap :: rc_heap where
  "no_heap = \<lparr>rc_mem = \<lparr>blocks = [], objects = []\<rparr>, ref_counts = []\<rparr>"

definition ms_new :: "rc_heap \<Rightarrow> my_shared \<times> rc_heap" where
  "ms_new h = (\<lparr>m_ptr = Some (length (objects (rc_mem h))), m_ref_count = Some (length (ref_counts h))\<rparr>,
     h\<lparr>rc_mem := (rc_mem h)\<lparr>objects := objects (rc_mem h) @ [True]\<rparr>, ref_counts := ref_counts h @ [Some 1]\<rparr>)"

definition count_at :: "nat \<Rightarrow> rc_heap \<Rightarrow> int res" where
  "count_at r h =
     (if r < length (ref_counts h) then (case ref_counts h ! r of Some n \<Rightarrow> Inr n | None \<Rightarrow> Inl (UB DanglingPointer))
      else Inl (UB DanglingPointer))"

definition ms_delete :: "nat option \<Rightarrow> rc_heap \<Rightarrow> rc_heap res" where
  "ms_delete p h = bind_res (delete_object p (rc_mem h)) (\<lambda>m. Inr (h\<lparr>rc_mem := m\<rparr>))"

definition ms_cleanup :: "my_shared \<Rightarrow> rc_heap \<Rightarrow> rc_heap res" where
  "ms_cleanup s h = (case m_ref_count s of
     None \<Rightarrow> Inr h
   | Some r \<Rightarrow> bind_res (count_at r h) (\<lambda>n. bind_res (c_int (n - 1)) (\<lambda>n.
       let h = h\<lparr>ref_counts := (ref_counts h)[r := Some n]\<rparr> in
       if n = 0
       then bind_res (ms_delete (m_ptr s) h) (\<lambda>h. Inr (h\<lparr>ref_counts := (ref_counts h)[r := None]\<rparr>))
       else Inr h)))"

definition ms_count_up :: "my_shared \<Rightarrow> rc_heap \<Rightarrow> rc_heap res" where
  "ms_count_up s h = (case m_ref_count s of
     None \<Rightarrow> Inl (UB NullPointer)
   | Some r \<Rightarrow> bind_res (count_at r h) (\<lambda>n. bind_res (c_int (n + 1)) (\<lambda>n.
       Inr (h\<lparr>ref_counts := (ref_counts h)[r := Some n]\<rparr>))))"

definition ms_copy :: "my_shared \<Rightarrow> rc_heap \<Rightarrow> (my_shared \<times> rc_heap) res" where
  "ms_copy other h = bind_res (ms_count_up other h) (\<lambda>h. Inr (other, h))"

text \<open>The assignments of different objects; an assignment to itself does nothing.\<close>

definition ms_copy_assign :: "my_shared \<Rightarrow> my_shared \<Rightarrow> rc_heap \<Rightarrow> (my_shared \<times> rc_heap) res" where
  "ms_copy_assign s other h = bind_res (ms_cleanup s h) (\<lambda>h. bind_res (ms_count_up other h) (\<lambda>h. Inr (other, h)))"

text \<open>The moves: the new pointer first, then what is left of \<open>other\<close>.\<close>

definition ms_move_construct :: "my_shared \<Rightarrow> my_shared \<times> my_shared" where
  "ms_move_construct other = (\<lparr>m_ptr = m_ptr other, m_ref_count = None\<rparr>, other\<lparr>m_ptr := None\<rparr>)"

definition ms_move_assign :: "my_shared \<Rightarrow> my_shared \<Rightarrow> rc_heap \<Rightarrow> ((my_shared \<times> my_shared) \<times> rc_heap) res" where
  "ms_move_assign s other h = bind_res (ms_delete (m_ptr s) h) (\<lambda>h.
     Inr ((s\<lparr>m_ptr := m_ptr other\<rparr>, other\<lparr>m_ptr := None\<rparr>), h))"

definition ms_deref :: "my_shared \<Rightarrow> rc_heap \<Rightarrow> nat res" where
  "ms_deref s h = uq_deref (m_ptr s) (rc_mem h)"

text \<open>The first block of \<open>main\<close>, with its last reads through \<open>data2\<close>.\<close>

definition ms_main :: "rc_heap res" where
  "ms_main =
     (let (data2, h) = ms_new no_heap; (data, h) = ms_new h in
      bind_res (ms_copy data h) (\<lambda>(datan, h). let (datam, h) = ms_new h in
      bind_res (ms_copy_assign datam datan h) (\<lambda>(datam, h). let (data3, data) = ms_move_construct data in
      bind_res (ms_move_assign data2 data3 h) (\<lambda>((data2, data3), h).
      bind_res (ms_deref data2 h) (\<lambda>_.
      bind_res (ms_cleanup data3 h) (\<lambda>h. bind_res (ms_cleanup datam h) (\<lambda>h.
      bind_res (ms_cleanup datan h) (\<lambda>h. bind_res (ms_cleanup data h) (\<lambda>h.
      bind_res (ms_deref data2 h) (\<lambda>_. ms_cleanup data2 h))))))))))"

lemma ms_main_frees: "ms_main = Inr \<lparr>rc_mem = \<lparr>blocks = [], objects = [False, False, False]\<rparr>, ref_counts = [None, None, None]\<rparr>"
  by code_simp

text \<open>
  The moves do not take the counter along.  A moved object is never deleted, assigning by move
  deletes an object that copies still use, and a copy of a pointer made by a move has no counter.
\<close>

definition moved_leaks :: "rc_heap res" where
  "moved_leaks = (let (a, h) = ms_new no_heap; (b, a) = ms_move_construct a in
     bind_res (ms_cleanup b h) (\<lambda>h. ms_cleanup a h))"

definition moved_dangles :: "nat res" where
  "moved_dangles = (let (a, h) = ms_new no_heap in
     bind_res (ms_copy a h) (\<lambda>(b, h). let (c, h) = ms_new h in
     bind_res (ms_move_assign a c h) (\<lambda>((a, c), h). ms_deref b h)))"

definition moved_copied :: "(my_shared \<times> rc_heap) res" where
  "moved_copied = (let (a, h) = ms_new no_heap; (b, a) = ms_move_construct a in ms_copy b h)"

lemma my_shared_moves:
  "moved_leaks = Inr \<lparr>rc_mem = \<lparr>blocks = [], objects = [True]\<rparr>, ref_counts = [None]\<rparr>"
  "moved_dangles = Inl (UB DanglingPointer)"
  "moved_copied = Inl (UB NullPointer)"
  by code_simp+

end
