(* ===== verification/MoveStrings.thy ===== *)
theory MoveStrings
  imports Prelude
begin

text \<open>
  The class \<open>String\<close> of \<^verbatim>\<open>Study/move_semantics.cpp\<close>: a pointer to an array of characters with a
  closing null and a size.  A deleted array is \<open>None\<close>, a character that was never written is
  \<open>None\<close> in its array.  Copying no characters from a null pointer is taken to do nothing.
\<close>

type_synonym chars = "char option list"

record str =
  s_data :: "nat option"
  s_size :: int

record str_state =
  arrays :: "chars option list"
  strs :: "str option list"

definition NUL :: char where "NUL = CHR 0x00"

subsection \<open>The heap\<close>

definition read_chars :: "nat option \<Rightarrow> int \<Rightarrow> str_state \<Rightarrow> chars res" where
  "read_chars p n s =
     (if n = 0 then Inr []
      else case p of
        None \<Rightarrow> Inl (UB NullPointer)
      | Some a \<Rightarrow> if a < length (arrays s)
          then (case arrays s ! a of
              None \<Rightarrow> Inl (UB DanglingPointer)
            | Some cs \<Rightarrow> if 0 \<le> n \<and> n \<le> int (length cs) then Inr (take (nat n) cs) else Inl (UB OutOfBounds))
          else Inl (UB DanglingPointer))"

definition delete_chars :: "nat option \<Rightarrow> str_state \<Rightarrow> str_state res" where
  "delete_chars p s = (case p of
     None \<Rightarrow> Inr s
   | Some a \<Rightarrow> if a < length (arrays s) \<and> arrays s ! a \<noteq> None then Inr (s\<lparr>arrays := (arrays s)[a := None]\<rparr>)
       else Inl (UB DanglingPointer))"

text \<open>\<open>strlen\<close>, and the characters it counts.\<close>

fun c_string :: "chars \<Rightarrow> string res" where
  "c_string [] = Inl (UB OutOfBounds)"
| "c_string (None # cs) = Inl (UB NoObject)"
| "c_string (Some c # cs) = (if c = NUL then Inr [] else bind_res (c_string cs) (\<lambda>w. Inr (c # w)))"

definition string_at :: "nat option \<Rightarrow> str_state \<Rightarrow> string res" where
  "string_at p s = (case p of
     None \<Rightarrow> Inl (UB NullPointer)
   | Some a \<Rightarrow> (if a < length (arrays s)
       then (case arrays s ! a of None \<Rightarrow> Inl (UB DanglingPointer) | Some cs \<Rightarrow> c_string cs)
       else Inl (UB DanglingPointer)))"

text \<open>A live variable.\<close>

definition str_at :: "nat \<Rightarrow> str_state \<Rightarrow> str res" where
  "str_at i s = (if i < length (strs s) then (case strs s ! i of Some x \<Rightarrow> Inr x | None \<Rightarrow> Inl (UB DanglingPointer))
     else Inl (UB DanglingPointer))"

definition new_array :: "chars \<Rightarrow> str_state \<Rightarrow> str_state" where
  "new_array cs s = s\<lparr>arrays := arrays s @ [Some cs]\<rparr>"

definition add_str :: "nat option \<Rightarrow> int \<Rightarrow> str_state \<Rightarrow> str_state" where
  "add_str p n s = s\<lparr>strs := strs s @ [Some \<lparr>s_data = p, s_size = n\<rparr>]\<rparr>"

definition set_str :: "nat \<Rightarrow> str option \<Rightarrow> str_state \<Rightarrow> str_state" where
  "set_str i x s = s\<lparr>strs := (strs s)[i := x]\<rparr>"

subsection \<open>The members\<close>

text \<open>A constructor appends the new variable.\<close>

definition str_new :: "string \<Rightarrow> str_state \<Rightarrow> str_state res" where
  "str_new d s = bind_res (c_int (int (length d))) (\<lambda>n.
     Inr (add_str (Some (length (arrays s))) n (new_array (map Some d @ [Some NUL]) s)))"

definition str_copy :: "nat \<Rightarrow> str_state \<Rightarrow> str_state res" where
  "str_copy j s = bind_res (str_at j s) (\<lambda>other.
     bind_res (read_chars (s_data other) (s_size other) s) (\<lambda>cs.
     Inr (add_str (Some (length (arrays s))) (s_size other) (new_array (cs @ [Some NUL]) s))))"

definition str_move :: "nat \<Rightarrow> str_state \<Rightarrow> str_state res" where
  "str_move j s = bind_res (str_at j s) (\<lambda>other.
     Inr (add_str (s_data other) (s_size other) (set_str j (Some \<lparr>s_data = None, s_size = 0\<rparr>) s)))"

text \<open>The constructor from a \<open>char*&&\<close>, which takes the array.\<close>

definition str_adopt :: "nat option \<Rightarrow> str_state \<Rightarrow> str_state res" where
  "str_adopt d s = bind_res (string_at d s) (\<lambda>w. bind_res (c_int (int (length w))) (\<lambda>n. Inr (add_str d n s)))"

text \<open>
  Copy assignment: the size and the new array are stored first, so on self-assignment the source is
  the new array, not yet written.
\<close>

definition str_assign :: "nat \<Rightarrow> nat \<Rightarrow> str_state \<Rightarrow> str_state res" where
  "str_assign i j s = bind_res (str_at i s) (\<lambda>this. bind_res (str_at j s) (\<lambda>other.
     let n = s_size other; a = length (arrays s);
         s = set_str i (Some \<lparr>s_data = Some a, s_size = n\<rparr>) (new_array (replicate (nat n + 1) None) s) in
     bind_res (str_at j s) (\<lambda>other. bind_res (read_chars (s_data other) n s) (\<lambda>cs.
       Inr (s\<lparr>arrays := (arrays s)[a := Some (cs @ [Some NUL])]\<rparr>)))))"

definition str_move_assign :: "nat \<Rightarrow> nat \<Rightarrow> str_state \<Rightarrow> str_state res" where
  "str_move_assign i j s = bind_res (str_at i s) (\<lambda>this. bind_res (str_at j s) (\<lambda>other.
     if i = j then Inr s
     else Inr (set_str j (Some \<lparr>s_data = None, s_size = 0\<rparr>) (set_str i (Some other) s))))"

definition concat_chars :: "str \<Rightarrow> str \<Rightarrow> str_state \<Rightarrow> (int \<times> chars) res" where
  "concat_chars x y s = bind_res (c_int (s_size x + s_size y)) (\<lambda>n.
     bind_res (read_chars (s_data x) (s_size x) s) (\<lambda>a. bind_res (read_chars (s_data y) (s_size y) s) (\<lambda>b.
     Inr (n, a @ b @ [Some NUL]))))"

definition str_plus :: "nat \<Rightarrow> nat \<Rightarrow> str_state \<Rightarrow> str_state res" where
  "str_plus i j s = bind_res (str_at i s) (\<lambda>this. bind_res (str_at j s) (\<lambda>other.
     bind_res (concat_chars this other s) (\<lambda>(n, cs). str_adopt (Some (length (arrays s))) (new_array cs s))))"

definition str_plus_assign :: "nat \<Rightarrow> nat \<Rightarrow> str_state \<Rightarrow> str_state res" where
  "str_plus_assign i j s = bind_res (str_at i s) (\<lambda>this. bind_res (str_at j s) (\<lambda>other.
     bind_res (concat_chars this other s) (\<lambda>(n, cs). bind_res (delete_chars (s_data this) (new_array cs s)) (\<lambda>s'.
       Inr (set_str i (Some \<lparr>s_data = Some (length (arrays s)), s_size = n\<rparr>) s')))))"

definition str_destroy :: "nat \<Rightarrow> str_state \<Rightarrow> str_state res" where
  "str_destroy i s = bind_res (str_at i s) (\<lambda>this. bind_res (delete_chars (s_data this) s) (\<lambda>s. Inr (set_str i None s)))"

definition str_print :: "nat \<Rightarrow> str_state \<Rightarrow> string res" where
  "str_print i s = bind_res (str_at i s) (\<lambda>x. if s_data x \<noteq> None then string_at (s_data x) s else Inr ''nullptr'')"

subsection \<open>main\<close>

datatype str_call = New string | Copy nat | Move nat | Assign nat nat | Move_to nat nat | Plus nat nat | Plus_to nat nat | Drop nat

fun str_do :: "str_call \<Rightarrow> str_state \<Rightarrow> str_state res" where
  "str_do (New d) s = str_new d s"
| "str_do (Copy j) s = str_copy j s"
| "str_do (Move j) s = str_move j s"
| "str_do (Assign i j) s = str_assign i j s"
| "str_do (Move_to i j) s = str_move_assign i j s"
| "str_do (Plus i j) s = str_plus i j s"
| "str_do (Plus_to i j) s = str_plus_assign i j s"
| "str_do (Drop i) s = str_destroy i s"

fun str_run :: "str_call list \<Rightarrow> str_state \<Rightarrow> str_state res" where
  "str_run [] s = Inr s"
| "str_run (c # cs) s = bind_res (str_do c s) (str_run cs)"

fun str_prints :: "nat list \<Rightarrow> str_state \<Rightarrow> string list res" where
  "str_prints [] s = Inr []"
| "str_prints (i # is) s = bind_res (str_print i s) (\<lambda>w. bind_res (str_prints is s) (\<lambda>ws. Inr (w # ws)))"

definition no_strs :: str_state where "no_strs = \<lparr>arrays = [], strs = []\<rparr>"

text \<open>
  The variables are \<open>s1, s6, s7, s6_const, s7_const, s2, s3, s4, s5, s8\<close> to \<open>s11\<close>, the two
  temporaries and \<open>s12\<close>.
\<close>

definition str_main_calls :: "str_call list" where
  "str_main_calls = [New ''Cherno'', New ''Hello'', New ''World'', New ''Hello'', New ''World'',
     Copy 0, New ''Hello'', Assign 6 0, Move 0, New ''Hello'', Move_to 8 7, Plus 1 2, Plus 1 2, Plus 3 4, Plus 3 4,
     New ''Hi'', New ''There'', Plus 13 14, Drop 14, Drop 13, Plus_to 1 2]"

definition str_main_end :: "str_call list" where
  "str_main_end = map Drop [15, 12, 11, 10, 9, 8, 7, 6, 5, 4, 3, 2, 1, 0]"

lemma str_main_prints:
  "bind_res (str_run str_main_calls no_strs) (str_prints [0, 5, 6, 7, 8, 9, 12, 15, 1]) =
     Inr [''nullptr'', ''Cherno'', ''Cherno'', ''nullptr'', ''Cherno'', ''HelloWorld'', ''HelloWorld'', ''HiThere'', ''HelloWorld'']"
  by code_simp

text \<open>After all destructors two arrays are still there: the old contents of \<open>s3\<close> and of \<open>s5\<close>.\<close>

lemma str_main_leaks:
  "bind_res (str_run (str_main_calls @ str_main_end) no_strs)
     (\<lambda>s. Inr (filter (\<lambda>a. arrays s ! a \<noteq> None) [0..<length (arrays s)])) = Inr [6, 8]"
  by code_simp

subsection \<open>Contents and leaks\<close>

definition str_holds :: "nat \<Rightarrow> string \<Rightarrow> str_state \<Rightarrow> bool" where
  "str_holds i w s \<longleftrightarrow> NUL \<notin> set w \<and> (\<exists>a. i < length (strs s) \<and> strs s ! i = Some \<lparr>s_data = Some a, s_size = int (length w)\<rparr> \<and>
     a < length (arrays s) \<and> arrays s ! a = Some (map Some w @ [Some NUL]))"

lemma str_holdsE:
  assumes "str_holds i w s"
  obtains a where "str_at i s = Inr \<lparr>s_data = Some a, s_size = int (length w)\<rparr>" and "a < length (arrays s)"
    and "arrays s ! a = Some (map Some w @ [Some NUL])" and "NUL \<notin> set w"
    and "read_chars (Some a) (int (length w)) s = Inr (map Some w)"
  using assms by (auto simp: str_holds_def str_at_def read_chars_def)

lemma c_string_map: "NUL \<notin> set w \<Longrightarrow> c_string (map Some w @ Some NUL # cs) = Inr w"
  by (induction w) auto

lemma str_print_holds: "str_holds i w s \<Longrightarrow> str_print i s = Inr w"
  by (erule str_holdsE) (simp add: str_print_def string_at_def c_string_map)

lemma str_holds_grow: "str_holds i w s \<Longrightarrow> str_holds i w (add_str p n (new_array cs s))"
  by (auto simp: str_holds_def add_str_def new_array_def nth_append)

text \<open>Copying and concatenating give the right contents and leave all other strings alone.\<close>

lemma str_copy_ok:
  assumes "str_holds j w s"
  shows "\<exists>s'. str_copy j s = Inr s' \<and> str_holds (length (strs s)) w s' \<and> (\<forall>i v. str_holds i v s \<longrightarrow> str_holds i v s')"
proof -
  obtain a where "str_at j s = Inr \<lparr>s_data = Some a, s_size = int (length w)\<rparr>" "NUL \<notin> set w"
      "read_chars (Some a) (int (length w)) s = Inr (map Some w)"
    using str_holdsE [OF assms] by metis
  then have "str_copy j s = Inr (add_str (Some (length (arrays s))) (int (length w)) (new_array (map Some w @ [Some NUL]) s))"
    by (simp add: str_copy_def)
  moreover have "str_holds (length (strs s)) w (add_str (Some (length (arrays s))) (int (length w)) (new_array (map Some w @ [Some NUL]) s))"
    using \<open>NUL \<notin> set w\<close> by (auto simp: str_holds_def add_str_def new_array_def nth_append)
  ultimately show ?thesis using str_holds_grow by blast
qed

lemma str_plus_ok:
  assumes v: "str_holds i v s" and w: "str_holds j w s" and small: "int (length v + length w) \<le> int_max"
  shows "\<exists>s'. str_plus i j s = Inr s' \<and> str_holds (length (strs s)) (v @ w) s' \<and> (\<forall>k u. str_holds k u s \<longrightarrow> str_holds k u s')"
proof -
  obtain a where a: "str_at i s = Inr \<lparr>s_data = Some a, s_size = int (length v)\<rparr>" "NUL \<notin> set v"
      "read_chars (Some a) (int (length v)) s = Inr (map Some v)"
    using str_holdsE [OF v] by metis
  obtain b where b: "str_at j s = Inr \<lparr>s_data = Some b, s_size = int (length w)\<rparr>" "NUL \<notin> set w"
      "read_chars (Some b) (int (length w)) s = Inr (map Some w)"
    using str_holdsE [OF w] by metis
  let ?cs = "map Some (v @ w) @ [Some NUL]" and ?p = "Some (length (arrays s))" and ?n = "int (length (v @ w))"
  have n: "c_int ?n = Inr ?n" and n': "c_int (int (length v) + int (length w)) = Inr ?n"
    using small by (simp_all add: c_int_def int_min_def)
  have "concat_chars \<lparr>s_data = Some a, s_size = int (length v)\<rparr> \<lparr>s_data = Some b, s_size = int (length w)\<rparr> s = Inr (?n, ?cs)"
    unfolding concat_chars_def by (simp only: str.select_convs a(3) b(3) n' bind_res_simps) simp
  moreover have "string_at ?p (new_array ?cs s) = Inr (v @ w)"
    using c_string_map [of "v @ w" "[]"] a(2) b(2) by (simp add: string_at_def new_array_def)
  ultimately have "str_plus i j s = Inr (add_str ?p ?n (new_array ?cs s))"
    using a(1) b(1) by (simp add: str_plus_def str_adopt_def n del: length_append)
  moreover have "str_holds (length (strs s)) (v @ w) (add_str ?p ?n (new_array ?cs s))"
    using a(2) b(2) by (auto simp: str_holds_def add_str_def new_array_def nth_append)
  ultimately show ?thesis using str_holds_grow by blast
qed

text \<open>
  An assignment from another string overwrites the pointer to the old array without deleting it; an
  assignment of a nonempty string to itself reads the new array before writing it.
\<close>

definition owns_alone :: "nat \<Rightarrow> nat \<Rightarrow> str_state \<Rightarrow> bool" where
  "owns_alone i a s \<longleftrightarrow> (\<forall>k < length (strs s). \<forall>x. strs s ! k = Some x \<and> s_data x = Some a \<longrightarrow> k = i)"

lemma str_assign_leaks:
  assumes "str_holds i v s" and "str_holds j w s" and "i \<noteq> j"
  shows "\<exists>a s'. str_assign i j s = Inr s' \<and> arrays s' ! a = Some (map Some v @ [Some NUL]) \<and> a < length (arrays s) \<and>
    (owns_alone i a s \<longrightarrow> (\<forall>k < length (strs s'). \<forall>x. strs s' ! k = Some x \<longrightarrow> s_data x \<noteq> Some a))"
proof -
  obtain a where a: "str_at i s = Inr \<lparr>s_data = Some a, s_size = int (length v)\<rparr>" "a < length (arrays s)"
      "arrays s ! a = Some (map Some v @ [Some NUL])"
    using str_holdsE [OF assms(1)] by metis
  obtain b where b: "str_at j s = Inr \<lparr>s_data = Some b, s_size = int (length w)\<rparr>" "b < length (arrays s)"
      "read_chars (Some b) (int (length w)) s = Inr (map Some w)"
    using str_holdsE [OF assms(2)] by metis
  let ?new = "replicate (nat (int (length w)) + 1) None"
  let ?s = "set_str i (Some \<lparr>s_data = Some (length (arrays s)), s_size = int (length w)\<rparr>) (new_array ?new s)"
  have at: "str_at j ?s = Inr \<lparr>s_data = Some b, s_size = int (length w)\<rparr>"
    using b(1) assms(3) by (auto simp: str_at_def set_str_def new_array_def split: if_splits)
  have rd: "read_chars (Some b) (int (length w)) ?s = Inr (map Some w)"
    using b(2,3) by (auto simp: read_chars_def set_str_def new_array_def nth_append)
  let ?s' = "?s\<lparr>arrays := (arrays ?s)[length (arrays s) := Some (map Some w @ [Some NUL])]\<rparr>"
  have "str_assign i j s = Inr ?s'" using a(1) b(1) at rd by (simp add: str_assign_def Let_def)
  moreover have "arrays ?s' ! a = Some (map Some v @ [Some NUL])"
    using a(2,3) by (simp add: set_str_def new_array_def nth_append nth_list_update)
  moreover have "s_data x \<noteq> Some a" if "owns_alone i a s" "k < length (strs ?s')" "strs ?s' ! k = Some x" for k x
  proof (cases "k = i")
    case True
    then show ?thesis using that a(2) by (auto simp: set_str_def new_array_def)
  next
    case False
    then show ?thesis using that by (auto simp: owns_alone_def set_str_def new_array_def)
  qed
  ultimately show ?thesis using a(2) by blast
qed

lemma str_self_assign:
  assumes "str_holds i w s" and "w \<noteq> []"
  shows "bind_res (str_assign i i s) (str_print i) = Inl (UB NoObject)"
proof -
  obtain a where a: "str_at i s = Inr \<lparr>s_data = Some a, s_size = int (length w)\<rparr>"
    using str_holdsE [OF assms(1)] by metis
  then have i: "i < length (strs s)" by (auto simp: str_at_def split: if_splits)
  let ?n = "int (length w)"
  let ?s = "set_str i (Some \<lparr>s_data = Some (length (arrays s)), s_size = ?n\<rparr>) (new_array (replicate (nat ?n + 1) None) s)"
  have at: "str_at i ?s = Inr \<lparr>s_data = Some (length (arrays s)), s_size = ?n\<rparr>"
    using i by (simp add: str_at_def set_str_def new_array_def)
  have rd: "read_chars (Some (length (arrays s))) ?n ?s = Inr (replicate (length w) None)"
    using assms(2) by (simp add: read_chars_def set_str_def new_array_def take_replicate del: replicate.simps)
  have "c_string (replicate (length w) None @ [Some NUL]) = Inl (UB NoObject)" using assms(2) by (cases w) simp_all
  then show ?thesis
    using a at rd i
    by (simp add: str_assign_def Let_def str_print_def string_at_def) (simp add: str_at_def set_str_def new_array_def string_at_def)
qed

end
