(* ===== verification/Actors.thy ===== *)
theory Actors
  imports Prelude "HOL-Library.Multiset"
begin

text \<open>
  The object-oriented exercises of \<^verbatim>\<open>Study\<close>: the actor containers of \<^verbatim>\<open>inheritance.cpp\<close> (pointers to a
  base class, with its own iterators) and \<^verbatim>\<open>inheritance_template.cpp\<close> (type erasure with value
  semantics), the callbacks of \<^verbatim>\<open>callbacks.cpp\<close>, the users of \<^verbatim>\<open>stl_smart_ptr.cpp\<close>, the typed data of
  \<^verbatim>\<open>forward.cpp\<close>, the generator of \<^verbatim>\<open>c++20/cpp20Coroutines.cpp\<close> and the producer and consumer of
  \<^verbatim>\<open>my_threads.cpp\<close>.  Printing is a list of lines.
\<close>

subsection \<open>The actors\<close>

datatype actor_class = Fireball | Robot | Goblin

type_synonym actor = "actor_class \<times> string"

fun class_name :: "actor_class \<Rightarrow> string" where
  "class_name Fireball = ''Fireball''"
| "class_name Robot = ''Robot''"
| "class_name Goblin = ''Goblin''"

definition actor_name :: "actor \<Rightarrow> string" where
  "actor_name a = class_name (fst a) @ ''#'' @ snd a"

definition actor_act :: "actor \<Rightarrow> string" where
  "actor_act a = class_name (fst a) @ '' Act of '' @ snd a"

definition actor_created :: "actor \<Rightarrow> string" where
  "actor_created a = class_name (fst a) @ '' Constructor '' @ snd a"

definition actor_destroyed :: "actor \<Rightarrow> string" where
  "actor_destroyed a = class_name (fst a) @ '' Destructor '' @ snd a"

text \<open>The body of each loop of \<open>main\<close>.\<close>

definition perform_action :: "actor \<Rightarrow> string list" where
  "perform_action a = [actor_name a @ '' performs action'', actor_act a]"

subsection \<open>The container of pointers\<close>

type_synonym actor_container = "actor option list"

definition container_add :: "actor option \<Rightarrow> actor_container \<Rightarrow> actor_container" where
  "container_add p data = data @ [p]"

text \<open>The three \<open>emplace\<close> members differ in how they refuse a type; the object they make is the same.\<close>

definition container_emplace :: "actor_class \<Rightarrow> string \<Rightarrow> actor_container \<Rightarrow> actor_container" where
  "container_emplace c arg data = data @ [Some (c, arg)]"

record actor_iterator =
  m_index :: int
  m_forward :: bool

definition it_begin :: "actor_container \<Rightarrow> actor_iterator" where
  "it_begin data = \<lparr>m_index = 0, m_forward = True\<rparr>"

definition it_end :: "actor_container \<Rightarrow> actor_iterator" where
  "it_end data = \<lparr>m_index = int (length data), m_forward = True\<rparr>"

definition it_rbegin :: "actor_container \<Rightarrow> actor_iterator" where
  "it_rbegin data = \<lparr>m_index = int (length data) - 1, m_forward = False\<rparr>"

definition it_rend :: "actor_container \<Rightarrow> actor_iterator" where
  "it_rend data = \<lparr>m_index = - 1, m_forward = False\<rparr>"

definition it_deref :: "actor_container \<Rightarrow> actor_iterator \<Rightarrow> actor res" where
  "it_deref data it = bind_res (array_get data (m_index it)) (\<lambda>p. case p of
     None \<Rightarrow> Inl (UB NullPointer) | Some a \<Rightarrow> Inr a)"

definition it_next :: "actor_iterator \<Rightarrow> actor_iterator res" where
  "it_next it = bind_res (c_int (if m_forward it then m_index it + 1 else m_index it - 1))
     (\<lambda>i. Inr (it\<lparr>m_index := i\<rparr>))"

definition it_differ :: "actor_iterator \<Rightarrow> actor_iterator \<Rightarrow> bool" where
  "it_differ it other \<longleftrightarrow> m_index it \<noteq> m_index other"

text \<open>A loop \<open>for (it = first; it != last; ++it)\<close>; it ends after as many rounds as there are actors.\<close>

fun actor_loop :: "nat \<Rightarrow> actor_container \<Rightarrow> actor_iterator \<Rightarrow> actor_iterator \<Rightarrow> string list res" where
  "actor_loop 0 data it stop = Inl Diverges"
| "actor_loop (Suc fuel) data it stop =
     (if it_differ it stop
      then bind_res (it_deref data it) (\<lambda>a. bind_res (it_next it) (\<lambda>it.
        bind_res (actor_loop fuel data it stop) (\<lambda>out. Inr (perform_action a @ out))))
      else Inr [])"

lemma actor_loop_forward:
  assumes "int (length data) \<le> int_max"
  shows "n \<le> length data \<Longrightarrow> actor_loop (Suc n) (map Some data) \<lparr>m_index = int (length data - n), m_forward = True\<rparr>
    (it_end (map Some data)) = Inr (concat (map perform_action (drop (length data - n) data)))"
proof (induction n)
  case 0
  then show ?case by (simp add: it_end_def it_differ_def)
next
  case (Suc n)
  define i where "i = length data - Suc n"
  have i: "i < length data" "Suc i = length data - n" using Suc.prems by (simp_all add: i_def)
  have "int i + 1 = int (Suc i)" by simp
  moreover have "int_min \<le> int (Suc i)" "int (Suc i) \<le> int_max"
    using assms i(1) by (simp_all add: int_min_def)
  ultimately have next_i: "c_int (int i + 1) = Inr (int (Suc i))" by (simp only: c_int_ok)
  have here: "it_deref (map Some data) \<lparr>m_index = int i, m_forward = True\<rparr> = Inr (data ! i)"
    using i(1) by (simp add: it_deref_def array_get_def)
  have differ: "it_differ \<lparr>m_index = int i, m_forward = True\<rparr> (it_end (map Some data))"
    using i(1) by (simp add: it_differ_def it_end_def)
  have step: "it_next \<lparr>m_index = int i, m_forward = True\<rparr> = Inr \<lparr>m_index = int (Suc i), m_forward = True\<rparr>"
    by (simp add: it_next_def next_i)
  have "drop i data = data ! i # drop (Suc i) data" using Cons_nth_drop_Suc i(1) by metis
  moreover have "actor_loop (Suc n) (map Some data) \<lparr>m_index = int (Suc i), m_forward = True\<rparr>
      (it_end (map Some data)) = Inr (concat (map perform_action (drop (Suc i) data)))"
    using Suc.IH [OF Suc_leD [OF Suc.prems]] unfolding i(2) .
  ultimately show ?case
    unfolding actor_loop.simps(2) [of "Suc n"] i_def [symmetric] here step bind_res_simps using differ by simp
qed

lemma actor_loop_backward:
  assumes "int (length data) \<le> int_max"
  shows "n \<le> length data \<Longrightarrow> actor_loop (Suc n) (map Some data) \<lparr>m_index = int n - 1, m_forward = False\<rparr>
    (it_rend (map Some data)) = Inr (concat (map perform_action (rev (take n data))))"
proof (induction n)
  case 0
  then show ?case by (simp add: it_rend_def it_differ_def)
next
  case (Suc n)
  have "int_min \<le> int n - 1" "int n - 1 \<le> int_max" using assms Suc.prems by (simp_all add: int_min_def)
  then have next_i: "c_int (int n - 1) = Inr (int n - 1)" by (rule c_int_ok)
  have here: "it_deref (map Some data) \<lparr>m_index = int n, m_forward = False\<rparr> = Inr (data ! n)"
    using Suc.prems by (simp add: it_deref_def array_get_def)
  have differ: "it_differ \<lparr>m_index = int n, m_forward = False\<rparr> (it_rend (map Some data))"
    by (simp add: it_differ_def it_rend_def)
  have step: "it_next \<lparr>m_index = int n, m_forward = False\<rparr> = Inr \<lparr>m_index = int n - 1, m_forward = False\<rparr>"
    by (simp add: it_next_def next_i)
  have "rev (take (Suc n) data) = data ! n # rev (take n data)" using Suc.prems by (simp add: take_Suc_conv_app_nth)
  moreover have "int (Suc n) - 1 = int n" by simp
  ultimately show ?case
    unfolding actor_loop.simps(2) [of "Suc n"] using here step differ Suc.IH [OF Suc_leD [OF Suc.prems]] by simp
qed

text \<open>Both directions visit every actor once.\<close>

lemma actor_loops:
  assumes "int (length data) \<le> int_max"
  shows "actor_loop (Suc (length data)) (map Some data) (it_begin (map Some data)) (it_end (map Some data)) =
      Inr (concat (map perform_action data))"
    and "actor_loop (Suc (length data)) (map Some data) (it_rbegin (map Some data)) (it_rend (map Some data)) =
      Inr (concat (map perform_action (rev data)))"
  using actor_loop_forward [OF assms, of "length data"] actor_loop_backward [OF assms, of "length data"]
  by (simp_all add: it_begin_def it_rbegin_def)

definition actors_main :: "string list res" where
  "actors_main =
     (let actors = [(Fireball, ''f''), (Robot, ''r''), (Goblin, ''g'')];
          more = [(Robot, ''rrr''), (Fireball, ''ggg''), (Fireball, ''fff'')];
          data = foldl (\<lambda>d a. container_add (Some a) d) [] actors;
          data = foldl (\<lambda>d (c, arg). container_emplace c arg d) data more;
          n = Suc (length data) in
      bind_res (actor_loop n data (it_begin data) (it_end data)) (\<lambda>out1.
      bind_res (actor_loop n data (it_begin data) (it_end data)) (\<lambda>out2.
      bind_res (actor_loop n data (it_rbegin data) (it_rend data)) (\<lambda>out3.
      Inr (map actor_created (actors @ more) @ out1 @ out2 @ out3 @ map actor_destroyed (actors @ more))))))"

text \<open>A null pointer can be added and is then dereferenced.\<close>

lemma null_actor_traps: "actor_loop 2 (container_add None []) (it_begin [None]) (it_end [None]) = Inl (UB NullPointer)"
  by code_simp

subsection \<open>Actors by value\<close>

text \<open>\<open>Actor\<close> owns a model through \<open>m_ptr\<close>; a moved-from actor has none.\<close>

type_synonym erased_actor = "actor option"

definition erased_make :: "actor \<Rightarrow> erased_actor" where
  "erased_make actor = Some actor"

definition erased_clone :: "erased_actor \<Rightarrow> erased_actor res" where
  "erased_clone other = (case other of None \<Rightarrow> Inl (UB NullPointer) | Some a \<Rightarrow> Inr (Some a))"

definition erased_assign :: "nat \<Rightarrow> nat \<Rightarrow> erased_actor list \<Rightarrow> erased_actor list res" where
  "erased_assign i j actors =
     (if i = j then Inr actors else bind_res (erased_clone (actors ! j)) (\<lambda>p. Inr (actors[i := p])))"

definition erased_move_assign :: "nat \<Rightarrow> nat \<Rightarrow> erased_actor list \<Rightarrow> erased_actor list" where
  "erased_move_assign i j actors = (if i = j then actors else actors[i := actors ! j, j := None])"

definition erased_name :: "erased_actor \<Rightarrow> string res" where
  "erased_name x = (case x of None \<Rightarrow> Inl (UB NullPointer) | Some a \<Rightarrow> Inr (actor_name a))"

definition erased_act :: "erased_actor \<Rightarrow> string res" where
  "erased_act x = (case x of None \<Rightarrow> Inl (UB NullPointer) | Some a \<Rightarrow> Inr (actor_act a))"

definition erased_add :: "actor \<Rightarrow> erased_actor list \<Rightarrow> erased_actor list" where
  "erased_add actor data = data @ [erased_make actor]"

fun erased_loop :: "erased_actor list \<Rightarrow> string list res" where
  "erased_loop [] = Inr []"
| "erased_loop (x # xs) = bind_res (erased_name x) (\<lambda>n. bind_res (erased_act x) (\<lambda>a.
     bind_res (erased_loop xs) (\<lambda>out. Inr ((n @ '' performs action'') # a # out))))"

definition erased_main :: "(string list \<times> string list) res" where
  "erased_main =
     (let data = erased_add (Goblin, ''g'') (erased_add (Robot, ''r'') (erased_add (Fireball, ''ff'') (erased_add (Fireball, ''f'') []))) in
      bind_res (erased_loop data) (\<lambda>forward. bind_res (erased_loop (rev data)) (\<lambda>backward. Inr (forward, backward))))"

lemma erased_loop_map: "erased_loop (map Some xs) = Inr (concat (map perform_action xs))"
  by (induction xs) (simp_all add: erased_name_def erased_act_def perform_action_def)

text \<open>Copies are independent values; copying or using a moved-from actor dereferences null.\<close>

lemma erased_copy:
  assumes "i < length actors" and "j < length actors" and "i \<noteq> j" and "actors ! j = Some a"
  shows "\<exists>actors'. erased_assign i j actors = Inr actors' \<and> actors' ! i = Some a \<and> actors' ! j = Some a"
    and "erased_assign i j (erased_move_assign i j actors) = Inl (UB NullPointer)"
    and "erased_name (erased_move_assign i j actors ! j) = Inl (UB NullPointer)"
  using assms by (auto simp: erased_assign_def erased_clone_def erased_move_assign_def erased_name_def)

subsection \<open>Callbacks\<close>

definition perform :: "(int \<Rightarrow> string list) \<Rightarrow> string list" where
  "perform cb = cb 99"

text \<open>\<open>Worker\<close> calls the \<open>onDone\<close> it was given.\<close>

definition DoSomething :: "string list \<Rightarrow> string list" where
  "DoSomething onDone = ''Worker did work'' # onDone"

definition boss_onDone :: "string list" where
  "boss_onDone = [''Boss signs'']"

text \<open>A line of a logger: its name, the code and the message.\<close>

type_synonym log_line = "string \<times> int \<times> string"

definition logger_onEvent :: "string \<Rightarrow> int \<Rightarrow> string \<Rightarrow> log_line" where
  "logger_onEvent name code message = (name, code, message)"

definition RegisterLoggers :: "string \<Rightarrow> string list \<Rightarrow> string list" where
  "RegisterLoggers logger loggers = loggers @ [logger]"

definition Broadcast :: "string list \<Rightarrow> int \<Rightarrow> string \<Rightarrow> log_line list" where
  "Broadcast loggers code message = map (\<lambda>logger. logger_onEvent logger code message) loggers"

text \<open>The emitter starts a detached thread for each listener; the threads print in any order.\<close>

inductive emits :: "string multiset \<Rightarrow> int \<Rightarrow> string \<Rightarrow> log_line list \<Rightarrow> bool" where
  emit_none: "emits {#} code message []"
| emit_one: "emits (add_mset l ls - {#l#}) code message out \<Longrightarrow>
    emits (add_mset l ls) code message (logger_onEvent l code message # out)"

definition emitter_Broadcast :: "string list \<Rightarrow> int \<Rightarrow> string \<Rightarrow> log_line list \<Rightarrow> bool" where
  "emitter_Broadcast listeners code message out \<longleftrightarrow> emits (mset listeners) code message out"

lemma emits_mset: "emits ls code message out \<Longrightarrow> mset out = image_mset (\<lambda>l. logger_onEvent l code message) ls"
  by (induction rule: emits.induct) simp_all

lemma emits_any_order: "emits (mset ls) code message (map (\<lambda>l. logger_onEvent l code message) ls)"
  by (induction ls) (auto intro: emits.intros)

text \<open>Every listener is called once, whatever the order, and the order of the event handler is possible.\<close>

lemma emitter_Broadcast_lines:
  "emitter_Broadcast ls code message out \<Longrightarrow> mset out = mset (Broadcast ls code message)"
  "emitter_Broadcast ls code message (Broadcast ls code message)"
  by (simp_all add: emitter_Broadcast_def Broadcast_def emits_mset emits_any_order)

definition callbacks_main :: "int list \<times> string list \<times> log_line list" where
  "callbacks_main =
     (map (\<lambda>_. 99) [''lambda'', ''func1'', ''func2''], DoSomething boss_onDone,
      Broadcast (RegisterLoggers ''3'' (RegisterLoggers ''2'' (RegisterLoggers ''1'' []))) 1000 ''This is where kingdoms are made'')"

subsection \<open>Users and their friends\<close>

text \<open>A user is owned by the shared pointers of the program; a friend is a weak pointer, the user's address.\<close>

record user =
  u_name :: string
  u_profile :: "(string \<times> int) option"
  u_friends :: "nat list"

definition user_new :: "string \<Rightarrow> user" where
  "user_new name = \<lparr>u_name = name, u_profile = None, u_friends = []\<rparr>"

definition AddFriend :: "nat \<Rightarrow> user \<Rightarrow> user" where
  "AddFriend fr u = u\<lparr>u_friends := u_friends u @ [fr]\<rparr>"

fun friends_string :: "user option list \<Rightarrow> nat list \<Rightarrow> string" where
  "friends_string users [] = ''''"
| "friends_string users (f # fs) =
     (case users ! f of Some x \<Rightarrow> '' '' @ u_name x | None \<Rightarrow> '' [expired user]'') @ friends_string users fs"

definition PrintFriends :: "user option list \<Rightarrow> user \<Rightarrow> string" where
  "PrintFriends users u = friends_string users (u_friends u)"

text \<open>\<open>AddProfile\<close> takes the profile from the caller's pointer.\<close>

definition AddProfile :: "(string \<times> int) option \<Rightarrow> user \<Rightarrow> user \<times> (string \<times> int) option" where
  "AddProfile prof u = (u\<lparr>u_profile := prof\<rparr>, None)"

definition PrintProfile :: "user \<Rightarrow> (string \<times> int) res" where
  "PrintProfile u = (case u_profile u of None \<Rightarrow> Inl (UB NullPointer) | Some p \<Rightarrow> Inr p)"

definition users_main :: "(string \<times> (string \<times> int) \<times> bool) res" where
  "users_main =
     (let (user1, profile1) = AddProfile (Some (''Cool'', 10)) (user_new ''Zaman'');
          user2 = user_new ''Shaffika''; user1 = AddFriend 2 (AddFriend 1 user1);
          users = [Some user1, Some user2, None] in
      bind_res (PrintProfile user1) (\<lambda>p. Inr (PrintFriends users user1, p, profile1 \<noteq> None)))"

lemma users_main_prints: "users_main = Inr ('' Shaffika [expired user]'', (''Cool'', 10), False)"
  by code_simp

lemma no_profile_traps: "PrintProfile (user_new name) = Inl (UB NullPointer)"
  by (simp add: PrintProfile_def user_new_def)

subsection \<open>Typed data\<close>

datatype cpp_type = T_int | T_long | T_long_long | T_double | T_float | T_container

datatype opp_type = INT32 | INT64 | DOUBLE | FLOAT | CONTAINER

text \<open>\<open>None\<close> is the failing \<open>static_assert\<close>: the program does not compile.\<close>

fun OppTypeFrom :: "cpp_type \<Rightarrow> opp_type option" where
  "OppTypeFrom T_int = Some INT32"
| "OppTypeFrom T_long_long = Some INT64"
| "OppTypeFrom T_double = Some DOUBLE"
| "OppTypeFrom T_float = Some FLOAT"
| "OppTypeFrom T_container = Some CONTAINER"
| "OppTypeFrom T_long = None"

record opp_dat =
  od_type :: opp_type
  od_class :: cpp_type
  od_size :: u64

definition opp_dat_new :: "cpp_type \<Rightarrow> u64 \<Rightarrow> opp_dat option" where
  "opp_dat_new t n = (case OppTypeFrom t of None \<Rightarrow> None | Some o1 \<Rightarrow> Some \<lparr>od_type = o1, od_class = t, od_size = n\<rparr>)"

text \<open>The two lines of \<open>printTypes\<close> for one element: by \<open>dynamic_cast\<close>, then by the stored type.\<close>

definition print_type :: "opp_dat \<Rightarrow> string \<times> string" where
  "print_type a =
     (if od_class a = T_int then ''Type: int'' else if od_class a = T_double then ''Type: double'' else ''Some other type'',
      if od_type a = INT32 then ''XType: int'' else if od_type a = DOUBLE then ''XType: double''
      else if od_type a = CONTAINER then ''XType: container'' else ''XSome other type'')"

definition print_types :: "opp_dat list \<Rightarrow> (string \<times> string) list" where
  "print_types dats = map print_type dats"

text \<open>The program, where \<open>int64_t\<close> is the type \<open>int64\<close>.\<close>

definition forward_main :: "cpp_type \<Rightarrow> (string \<times> string) list option" where
  "forward_main int64 = (case (opp_dat_new T_int 5, opp_dat_new T_double 20, opp_dat_new T_container 200, opp_dat_new int64 1000) of
     (Some a, Some b, Some c, Some d) \<Rightarrow> Some (print_types [a, b, c, d]) | _ \<Rightarrow> None)"

text \<open>The two ways to find the type agree; the program compiles only where \<open>int64_t\<close> is \<open>long long\<close>.\<close>

lemma print_type_agrees:
  "opp_dat_new t n = Some a \<Longrightarrow> fst (print_type a) = ''Type: int'' \<longleftrightarrow> snd (print_type a) = ''XType: int''"
  "opp_dat_new t n = Some a \<Longrightarrow> fst (print_type a) = ''Type: double'' \<longleftrightarrow> snd (print_type a) = ''XType: double''"
  by (cases t; auto simp: opp_dat_new_def print_type_def)+

lemma forward_main_needs_long_long: "forward_main T_long = None" "forward_main T_long_long \<noteq> None"
  by (simp_all add: forward_main_def opp_dat_new_def)

subsection \<open>The coroutine generator\<close>

text \<open>
  \<open>count_to\<close> is suspended before its loop, at the \<open>co_yield\<close> of round \<open>i\<close>, or at its end; the
  promise holds the last value yielded.
\<close>

datatype frame = At_start | At_yield int | Done

record generator =
  g_frame :: frame
  g_bound :: int
  g_value :: "int option"

definition count_to :: "int \<Rightarrow> generator" where
  "count_to n = \<lparr>g_frame = At_start, g_bound = n, g_value = None\<rparr>"

text \<open>The loop test and, if it holds, the yield.\<close>

definition g_round :: "int \<Rightarrow> generator \<Rightarrow> generator" where
  "g_round i g = (if i \<le> g_bound g then g\<lparr>g_frame := At_yield i, g_value := Some i\<rparr> else g\<lparr>g_frame := Done\<rparr>)"

definition g_resume :: "generator \<Rightarrow> generator res" where
  "g_resume g = (case g_frame g of
     At_start \<Rightarrow> Inr (g_round 1 g)
   | At_yield i \<Rightarrow> bind_res (c_int (i + 1)) (\<lambda>i. Inr (g_round i g))
   | Done \<Rightarrow> Inl (UB NoObject))"

definition g_next :: "generator \<Rightarrow> (int option \<times> generator) res" where
  "g_next g =
     (if g_frame g \<noteq> Done
      then bind_res (g_resume g) (\<lambda>g. case g_value g of None \<Rightarrow> Inl (UB NoObject) | Some v \<Rightarrow> Inr (Some v, g))
      else Inr (None, g))"

text \<open>The loop of \<open>main\<close>: it stops at the first empty answer.\<close>

fun g_loop :: "nat \<Rightarrow> generator \<Rightarrow> int list res" where
  "g_loop 0 g = Inl Diverges"
| "g_loop (Suc fuel) g = bind_res (g_next g) (\<lambda>(val, g). case val of
     None \<Rightarrow> Inr []
   | Some v \<Rightarrow> bind_res (g_loop fuel g) (\<lambda>vs. Inr (v # vs)))"

text \<open>
  The resumption that runs off the loop leaves the old value in the promise, and \<open>next\<close> returns it:
  the last number comes twice, and an empty range reads a value that was never set.
\<close>

lemma g_loop_from:
  assumes "int n + 1 \<le> int_max"
  shows "k < n \<Longrightarrow> g_loop (k + 3) \<lparr>g_frame = At_yield (int (n - k)), g_bound = int n, g_value = Some (int (n - k))\<rparr> =
    Inr (map int [Suc (n - k)..<Suc n] @ [int n])"
proof (induction k)
  case 0
  have c: "c_int (int n + 1) = Inr (int n + 1)" using assms by (simp add: c_int_def int_min_def)
  show ?case by (simp add: numeral_eq_Suc g_next_def g_resume_def g_round_def c)
next
  case (Suc k)
  define i where "i = n - Suc k"
  have i: "i < n" "n - k = Suc i" using Suc.prems by (simp_all add: i_def)
  have c: "c_int (int i + 1) = Inr (int (Suc i))" using assms i(1) by (simp add: c_int_def int_min_def)
  have "g_loop (k + 3) \<lparr>g_frame = At_yield (int (Suc i)), g_bound = int n, g_value = Some (int (Suc i))\<rparr> =
      Inr (map int [Suc (Suc i)..<Suc n] @ [int n])"
    using Suc.IH Suc.prems unfolding i(2) by simp
  moreover have "[Suc i..<Suc n] = Suc i # [Suc (Suc i)..<Suc n]" using i(1) by (simp add: upt_conv_Cons)
  moreover have "g_next \<lparr>g_frame = At_yield (int i), g_bound = int n, g_value = Some (int i)\<rparr> =
      Inr (Some (int (Suc i)), \<lparr>g_frame = At_yield (int (Suc i)), g_bound = int n, g_value = Some (int (Suc i))\<rparr>)"
    unfolding g_next_def g_resume_def using i(1) by (simp add: c g_round_def)
  moreover have three: "Suc k + 3 = Suc (k + 3)" by simp
  ultimately show ?case unfolding i_def [symmetric] three g_loop.simps(2) by (simp del: upt_Suc)
qed

lemma count_to_repeats_last:
  assumes "0 < n" and "int n + 1 \<le> int_max"
  shows "g_loop (n + 3) (count_to (int n)) = Inr (map int [1..<Suc n] @ [int n])"
proof -
  obtain k where n: "n = Suc k" using assms(1) by (cases n) auto
  have "g_loop (k + 3) \<lparr>g_frame = At_yield 1, g_bound = int n, g_value = Some 1\<rparr> = Inr (map int [2..<Suc n] @ [int n])"
    using g_loop_from [OF assms(2), of k] by (simp add: n numeral_eq_Suc del: upt_Suc)
  moreover have "g_next (count_to (int n)) = Inr (Some 1, \<lparr>g_frame = At_yield 1, g_bound = int n, g_value = Some 1\<rparr>)"
    by (simp add: g_next_def g_resume_def count_to_def g_round_def n)
  ultimately have "g_loop (Suc (k + 3)) (count_to (int n)) = Inr (1 # map int [2..<Suc n] @ [int n])"
    by (simp only: g_loop.simps bind_res_simps prod.case option.case)
  moreover have "n + 3 = Suc (k + 3)" and "map int [1..<Suc n] = 1 # map int [2..<Suc n]"
    by (simp_all add: n upt_conv_Cons numeral_eq_Suc del: upt_Suc)
  ultimately show ?thesis by (simp only: append_Cons)
qed

lemma count_to_empty: "n \<le> 0 \<Longrightarrow> g_next (count_to n) = Inl (UB NoObject)"
  by (simp add: g_next_def g_resume_def count_to_def g_round_def)

subsection \<open>A producer and a consumer\<close>

text \<open>
  The third test of \<open>my_threads\<close>: each step is one critical section; the consumer waits while the
  queue is empty and stops after the value 4.
\<close>

record two_threads =
  next_value :: int
  shared_queue :: "int list"
  consumed :: "int list"
  consumer_done :: bool

definition threads_init :: two_threads where
  "threads_init = \<lparr>next_value = 0, shared_queue = [], consumed = [], consumer_done = False\<rparr>"

definition producer_step :: "two_threads \<Rightarrow> two_threads option" where
  "producer_step s =
     (if next_value s < 5
      then Some (s\<lparr>shared_queue := shared_queue s @ [next_value s], next_value := next_value s + 1\<rparr>) else None)"

definition consumer_step :: "two_threads \<Rightarrow> two_threads option" where
  "consumer_step s =
     (if consumer_done s then None
      else case shared_queue s of
        [] \<Rightarrow> None
      | val # rest \<Rightarrow> Some (s\<lparr>shared_queue := rest, consumed := consumed s @ [val], consumer_done := (val = 4)\<rparr>))"

inductive threads_step :: "two_threads \<Rightarrow> two_threads \<Rightarrow> bool" where
  produce: "producer_step s = Some s' \<Longrightarrow> threads_step s s'"
| consume: "consumer_step s = Some s' \<Longrightarrow> threads_step s s'"

inductive_cases threads_stepE: "threads_step s s'"

definition threads_ok :: "two_threads \<Rightarrow> bool" where
  "threads_ok s \<longleftrightarrow> 0 \<le> next_value s \<and> next_value s \<le> 5 \<and> consumed s @ shared_queue s = [0..next_value s - 1] \<and>
     (consumer_done s \<longleftrightarrow> 4 \<in> set (consumed s))"

lemma threads_ok_step: "threads_ok s \<Longrightarrow> threads_step s s' \<Longrightarrow> threads_ok s'"
proof (erule threads_stepE)
  assume ok: "threads_ok s" and "producer_step s = Some s'"
  then have s': "next_value s < 5" "s' = s\<lparr>shared_queue := shared_queue s @ [next_value s], next_value := next_value s + 1\<rparr>"
    by (auto simp: producer_step_def split: if_splits)
  have "[0..next_value s] = [0..next_value s - 1] @ [next_value s]"
    using ok upto_rec2 [of 0 "next_value s"] by (simp add: threads_ok_def)
  then show "threads_ok s'" using ok s' by (simp add: threads_ok_def flip: append_assoc)
next
  assume ok: "threads_ok s" and "consumer_step s = Some s'"
  then show "threads_ok s'" by (auto simp: consumer_step_def threads_ok_def split: if_splits list.splits)
qed

lemma threads_reach: "threads_step\<^sup>*\<^sup>* threads_init s \<Longrightarrow> threads_ok s"
proof (induction rule: rtranclp_induct)
  case base
  then show ?case by (simp add: threads_init_def threads_ok_def)
qed (rule threads_ok_step)

text \<open>
  The consumer always gets an initial part of \<open>0, 1, 2, 3, 4\<close>; when no thread can go on, it got
  all of it and has stopped.
\<close>

lemma threads_complete:
  assumes "threads_step\<^sup>*\<^sup>* threads_init s" and "producer_step s = None" and "consumer_step s = None"
  shows "consumed s = [0, 1, 2, 3, 4] \<and> consumer_done s"
proof -
  have ok: "threads_ok s" using assms(1) by (rule threads_reach)
  then have "next_value s = 5" using assms(2) by (auto simp: producer_step_def threads_ok_def split: if_splits)
  then have all: "consumed s @ shared_queue s = [0, 1, 2, 3, 4]" using ok by (simp add: threads_ok_def upto_rec1)
  show ?thesis
  proof (cases "consumer_done s")
    case True
    then have "4 \<in> set (consumed s)" using ok by (simp add: threads_ok_def)
    then obtain xs ys where c: "consumed s = xs @ 4 # ys" by (meson split_list)
    have "shared_queue s = []"
      using all unfolding c by (auto simp: append_eq_Cons_conv)
    then show ?thesis using all True by simp
  next
    case False
    then have "shared_queue s = []" using assms(3) by (auto simp: consumer_step_def split: list.splits)
    then show ?thesis using all ok False by (auto simp: threads_ok_def)
  qed
qed

end
