(* ===== verification/ThreadTests.thy ===== *)
theory ThreadTests
  imports Prelude
begin

text \<open>
  The threads of \<^verbatim>\<open>Study/my_threads.cpp\<close> that run until their stop token says so, its polling
  worker, and the futures of \<^verbatim>\<open>Study/async_future.cpp\<close>.  What a thread prints is a list of lines;
  sleeping only lets the other threads run, so it is not a step of its own.
\<close>

subsection \<open>Counting until the token is stopped\<close>

datatype line = Count int | Counter_stopped | Working int | Stopping int

text \<open>
  The answers of \<open>stop_requested\<close>, one for each round, are an argument.  When they are used up
  the thread is still running: no final line.
\<close>

fun count_rounds :: "bool list \<Rightarrow> int \<Rightarrow> line list res" where
  "count_rounds [] i = Inr []"
| "count_rounds (stop_requested # later) i =
     (if stop_requested then Inr [Counter_stopped]
      else bind_res (c_int (i + 1)) (\<lambda>next. bind_res (count_rounds later next) (\<lambda>out. Inr (Count i # out))))"

definition count_thread :: "bool list \<Rightarrow> line list res" where
  "count_thread stoken = count_rounds stoken 0"

fun worker :: "bool list \<Rightarrow> int \<Rightarrow> line list" where
  "worker [] k = []"
| "worker (stop_requested # later) k =
     (if stop_requested then [Stopping k] else Working k # worker later k)"

lemma count_rounds_stops:
  "0 \<le> i \<Longrightarrow> i + int n \<le> int_max \<Longrightarrow>
   count_rounds (replicate n False @ True # later) i = Inr (map Count [i..i + int n - 1] @ [Counter_stopped])"
proof (induction n arbitrary: i)
  case (Suc n)
  have c: "c_int (i + 1) = Inr (i + 1)" using Suc.prems by (simp add: int_min_def)
  have upto: "[i..i + int (Suc n) - 1] = i # [i + 1..i + 1 + int n - 1]"
    by (simp add: upto_rec1 [of i])
  show ?case unfolding replicate_Suc append_Cons count_rounds.simps upto c
    using Suc.IH [of "i + 1"] Suc.prems by simp
qed simp

text \<open>The counter that is stopped after \<open>n\<close> rounds has printed exactly \<open>0 .. n - 1\<close>.\<close>

lemma count_thread_stops:
  "int n \<le> int_max \<Longrightarrow>
   count_thread (replicate n False @ True # later) = Inr (map Count [0..int n - 1] @ [Counter_stopped])"
  using count_rounds_stops [of 0 n later] by (simp add: count_thread_def)

lemma worker_stops: "worker (replicate n False @ True # later) k = replicate n (Working k) @ [Stopping k]"
  by (induction n) simp_all

subsection \<open>The polling worker\<close>

text \<open>
  A round of \<open>worker_polling\<close> first asks the token, then waits at most half a second on \<open>cv2\<close>
  for \<open>data_ready\<close>.  The wait ends when the flag is set, at a wake-up (\<open>on_cv2\<close>: a notification of
  \<open>cv2\<close>, or one without a cause) or at the timeout.
\<close>

datatype poll_pc = At_test | Waiting | Polled_out

datatype poll_line = Data_processed | Not_ready | Exiting

record polling =
  poll_pc :: poll_pc
  data_ready :: bool
  poll_stop :: bool
  poll_out :: "poll_line list"

text \<open>The lines after the wait, under the lock.\<close>

definition poll_awake :: "polling \<Rightarrow> polling" where
  "poll_awake s =
     (if data_ready s
      then s\<lparr>poll_pc := At_test, data_ready := False, poll_out := poll_out s @ [Data_processed]\<rparr>
      else s\<lparr>poll_pc := At_test, poll_out := poll_out s @ [Not_ready]\<rparr>)"

text \<open>The loop test, and the entry of \<open>wait_for\<close>, which looks at the flag before it sleeps.\<close>

definition poll_test :: "polling \<Rightarrow> polling" where
  "poll_test s =
     (if poll_stop s then s\<lparr>poll_pc := Polled_out, poll_out := poll_out s @ [Exiting]\<rparr>
      else if data_ready s then poll_awake s
      else s\<lparr>poll_pc := Waiting\<rparr>)"

text \<open>A wake-up looks at the flag again and goes back to sleep without it.\<close>

definition poll_wakeup :: "polling \<Rightarrow> polling" where
  "poll_wakeup s = (if data_ready s then poll_awake s else s)"

datatype poll_event =
    Worker_runs
  | Worker_woken
  | Worker_timeout
  | Main_sets
  | Main_notifies_cv1
  | Main_stops

definition poll_do :: "poll_event \<Rightarrow> polling \<Rightarrow> polling option" where
  "poll_do e s = (case e of
     Worker_runs \<Rightarrow> if poll_pc s = At_test then Some (poll_test s) else None
   | Worker_woken \<Rightarrow> if poll_pc s = Waiting then Some (poll_wakeup s) else None
   | Worker_timeout \<Rightarrow> if poll_pc s = Waiting then Some (poll_awake s) else None
   | Main_sets \<Rightarrow> Some (s\<lparr>data_ready := True\<rparr>)
   | Main_notifies_cv1 \<Rightarrow> Some s
   | Main_stops \<Rightarrow> Some (s\<lparr>poll_stop := True\<rparr>))"

fun poll_run :: "poll_event list \<Rightarrow> polling \<Rightarrow> polling option" where
  "poll_run [] s = Some s"
| "poll_run (e # es) s = Option.bind (poll_do e s) (poll_run es)"

definition poll_init :: polling where
  "poll_init = \<lparr>poll_pc = At_test, data_ready = False, poll_stop = False, poll_out = []\<rparr>"

text \<open>The part of \<open>main\<close> that the worker sees, in its order.\<close>

definition test4_main :: "poll_event list" where
  "test4_main = [Main_sets, Main_notifies_cv1, Main_sets, Main_notifies_cv1, Main_stops]"

definition by_main :: "poll_event \<Rightarrow> bool" where
  "by_main e \<longleftrightarrow> e \<in> {Main_sets, Main_notifies_cv1, Main_stops}"

lemmas poll_defs = poll_do_def poll_test_def poll_wakeup_def poll_awake_def

lemma poll_run_append: "poll_run (xs @ ys) s = Option.bind (poll_run xs s) (poll_run ys)"
  by (induction xs arbitrary: s) (simp_all split: bind_split)

text \<open>
  Every processing uses up one setting of the flag, so two settings are processed at most twice,
  and the worker that has left was told to.
\<close>

definition poll_weight :: "polling \<Rightarrow> nat" where
  "poll_weight s = length (filter (\<lambda>l. l = Data_processed) (poll_out s)) + (if data_ready s then 1 else 0)"

lemma poll_do_weight:
  assumes "poll_do e s = Some s'"
  shows "poll_weight s' \<le> poll_weight s + (if e = Main_sets then 1 else 0)"
  using assms by (cases e) (auto simp: poll_defs poll_weight_def split: if_splits)

lemma poll_run_weight:
  "poll_run es s = Some s' \<Longrightarrow> poll_weight s' \<le> poll_weight s + length (filter (\<lambda>e. e = Main_sets) es)"
proof (induction es arbitrary: s)
  case (Cons e es)
  then obtain u where u: "poll_do e s = Some u" "poll_run es u = Some s'"
    by (auto simp: bind_eq_Some_conv)
  show ?case using poll_do_weight [OF u(1)] Cons.IH [OF u(2)] by (cases "e = Main_sets") simp_all
qed simp

lemma polling_processes_at_most_twice:
  assumes "poll_run es poll_init = Some s" and "filter by_main es = test4_main"
  shows "length (filter (\<lambda>l. l = Data_processed) (poll_out s)) \<le> 2"
proof -
  have "filter (\<lambda>e. e = Main_sets) es = filter (\<lambda>e. e = Main_sets) (filter by_main es)"
    by (induction es) (simp_all add: by_main_def)
  then have "length (filter (\<lambda>e. e = Main_sets) es) = 2" unfolding assms(2) by (simp add: test4_main_def)
  then show ?thesis using poll_run_weight [OF assms(1)] by (simp add: poll_weight_def poll_init_def)
qed

text \<open>
  Once the token is stopped the worker has at most one round to finish: after the timeout and the
  test it is out, whatever the flag.
\<close>

lemma polling_leaves:
  assumes "poll_stop s" and "poll_pc s = Waiting"
  shows "\<exists>s'. poll_run [Worker_timeout, Worker_runs] s = Some s' \<and> poll_pc s' = Polled_out"
  using assms by (simp add: poll_defs)

text \<open>
  The notifications of \<open>main\<close> go to \<open>cv1\<close>, so they wake nobody: a worker that waits when the flag
  is set goes on waiting until its timeout, and the two settings can be taken for one.
\<close>

lemma notify_cv1_lost: "poll_do Main_notifies_cv1 s = Some s"
  by (simp add: poll_do_def)

lemma polling_two_settings_one_processing:
  "map_option poll_out (poll_run ([Worker_runs] @ test4_main @ [Worker_timeout, Worker_runs]) poll_init) =
   Some [Data_processed, Exiting]"
  by code_simp

lemma polling_both_processed:
  "map_option poll_out (poll_run [Worker_runs, Worker_timeout, Worker_runs, Main_sets, Main_notifies_cv1, Worker_timeout,
      Worker_runs, Main_sets, Main_notifies_cv1, Worker_timeout, Worker_runs, Worker_timeout, Worker_runs, Main_stops,
      Worker_timeout, Worker_runs] poll_init) =
   Some [Not_ready, Data_processed, Data_processed, Not_ready, Not_ready, Exiting]"
  by code_simp

subsection \<open>Futures\<close>

text \<open>
  The shared state of a promise and its future.  \<open>get\<close> blocks on a pending one (\<open>None\<close>), takes the
  value of a ready one, and must not be called again: the future has no state left.
\<close>

datatype 'a future = Pending | Fulfilled 'a | Taken

definition future_get :: "'a future \<Rightarrow> ('a \<times> 'a future) res option" where
  "future_get fut = (case fut of
     Pending \<Rightarrow> None
   | Fulfilled x \<Rightarrow> Some (Inr (x, Taken))
   | Taken \<Rightarrow> Some (Inl (UB NoObject)))"

definition computeMultiple :: "int \<Rightarrow> int \<Rightarrow> int res" where
  "computeMultiple x y = c_int (x * y)"

text \<open>The three tasks of the vector; the product of the doubles is an argument.\<close>

datatype 'd task_value = Int_value int | Double_value 'd

definition async_tasks :: "'d \<Rightarrow> 'd task_value list res" where
  "async_tasks d = bind_res (computeMultiple 15 10) (\<lambda>x. bind_res (computeMultiple 15 30) (\<lambda>y.
     Inr [Int_value x, Double_value d, Int_value y]))"

lemma async_tasks_values: "async_tasks d = Inr [Int_value 150, Double_value d, Int_value 450]"
  by (simp add: async_tasks_def computeMultiple_def c_int_eval)

text \<open>
  The results of \<open>main\<close>: each task, given by the value it computes, fulfils its future at some time;
  \<open>main\<close> fetches the results in the order of the vector and emits them.
\<close>

record 'a fetching =
  results :: "'a future list"
  fetched :: nat
  emitted :: "'a list"

datatype fetch_event = Task_ends nat | Main_fetches

definition fetch_do :: "'a list \<Rightarrow> fetch_event \<Rightarrow> 'a fetching \<Rightarrow> 'a fetching res option" where
  "fetch_do values e s = (case e of
     Task_ends i \<Rightarrow>
       if i < length (results s) \<and> results s ! i = Pending
       then Some (Inr (s\<lparr>results := (results s)[i := Fulfilled (values ! i)]\<rparr>)) else None
   | Main_fetches \<Rightarrow>
       if fetched s < length (results s)
       then map_option (\<lambda>r. bind_res r (\<lambda>(x, fut). Inr (s\<lparr>results := (results s)[fetched s := fut],
         fetched := Suc (fetched s), emitted := emitted s @ [x]\<rparr>))) (future_get (results s ! fetched s))
       else None)"

definition fetch_init :: "'a list \<Rightarrow> 'a fetching" where
  "fetch_init values = \<lparr>results = replicate (length values) Pending, fetched = 0, emitted = []\<rparr>"

inductive fetch_reach :: "'a list \<Rightarrow> 'a fetching \<Rightarrow> bool" for "values" where
  start: "fetch_reach values (fetch_init values)"
| step: "fetch_reach values s \<Longrightarrow> fetch_do values e s = Some (Inr s') \<Longrightarrow> fetch_reach values s'"

definition fetch_ok :: "'a list \<Rightarrow> 'a fetching \<Rightarrow> bool" where
  "fetch_ok values s \<longleftrightarrow> length (results s) = length values \<and> fetched s \<le> length values \<and>
     emitted s = take (fetched s) values \<and> (\<forall>i < length values.
       (i < fetched s \<longrightarrow> results s ! i = Taken) \<and>
       (fetched s \<le> i \<longrightarrow> results s ! i = Pending \<or> results s ! i = Fulfilled (values ! i)))"

lemma fetch_ok_step:
  assumes ok: "fetch_ok values s" and "fetch_do values e s = Some r"
  shows "\<exists>s'. r = Inr s' \<and> fetch_ok values s'"
proof (cases e)
  case (Task_ends i)
  then show ?thesis using assms by (auto simp: fetch_do_def fetch_ok_def nth_list_update split: if_splits)
next
  case Main_fetches
  then have lt: "fetched s < length values"
    using assms by (auto simp: fetch_do_def fetch_ok_def split: if_splits)
  then have "results s ! fetched s = Fulfilled (values ! fetched s)"
    using assms Main_fetches by (auto simp: fetch_do_def fetch_ok_def future_get_def split: if_splits)
  then show ?thesis
    using assms Main_fetches lt
    by (auto simp: fetch_do_def fetch_ok_def future_get_def nth_list_update take_Suc_conv_app_nth less_Suc_eq_le
        le_less)
qed

lemma fetch_reach_ok: "fetch_reach values s \<Longrightarrow> fetch_ok values s"
proof (induction rule: fetch_reach.induct)
  case start
  then show ?case by (simp add: fetch_ok_def fetch_init_def)
next
  case (step s e s')
  then show ?case using fetch_ok_step [of "values" s e "Inr s'"] by auto
qed

text \<open>
  Whatever the order in which the tasks end: no \<open>get\<close> finds its future taken, \<open>main\<close> emits the values
  in the order of the vector, and until it has emitted all of them some step is possible.
\<close>

lemma fetch_deterministic:
  assumes "fetch_reach values s"
  shows "emitted s = take (fetched s) values"
    and "fetch_do values e s \<noteq> Some (Inl err)"
    and "fetched s < length values \<Longrightarrow> \<exists>e s'. fetch_do values e s = Some (Inr s')"
proof -
  have ok: "fetch_ok values s" using assms by (rule fetch_reach_ok)
  then show "emitted s = take (fetched s) values" by (simp add: fetch_ok_def)
  show "fetch_do values e s \<noteq> Some (Inl err)" using fetch_ok_step [OF ok, of e "Inl err"] by auto
  assume lt: "fetched s < length values"
  then consider "results s ! fetched s = Pending" | "results s ! fetched s = Fulfilled (values ! fetched s)"
    using ok by (auto simp: fetch_ok_def)
  then show "\<exists>e s'. fetch_do values e s = Some (Inr s')"
  proof cases
    case 1
    then have "\<exists>s'. fetch_do values (Task_ends (fetched s)) s = Some (Inr s')"
      using lt ok by (simp add: fetch_do_def fetch_ok_def)
    then show ?thesis by blast
  next
    case 2
    then have "\<exists>s'. fetch_do values Main_fetches s = Some (Inr s')"
      using lt ok by (simp add: fetch_do_def fetch_ok_def future_get_def)
    then show ?thesis by blast
  qed
qed

lemma async_main_emits:
  assumes "async_tasks d = Inr values" and "fetch_reach values s" and "fetched s = length values"
  shows "emitted s = [Int_value 150, Double_value d, Int_value 450]"
proof -
  have "values = [Int_value 150, Double_value d, Int_value 450]"
    using assms(1) unfolding async_tasks_values by simp
  then show ?thesis using fetch_deterministic(1) [OF assms(2)] assms(3) by simp
qed

text \<open>The promise of the last part of \<open>main\<close> is one future more, fulfilled by a thread.\<close>

definition produce_value :: int where
  "produce_value = 42"

lemma promise_received: "fetch_reach [produce_value] s \<Longrightarrow> fetched s = 1 \<Longrightarrow> emitted s = [42]"
  using fetch_deterministic(1) [of "[produce_value]" s] by (simp add: produce_value_def)

end
