(* ===== verification/Puzzles.thy ===== *)
theory Puzzles
  imports Prelude "HOL-Library.Multiset" "HOL-Library.Char_ord" "HOL-Library.List_Lexorder"
begin

text \<open>
  The puzzles of \<^verbatim>\<open>Leet\<close> written in C++ (balancing a search tree, adding numbers given as lists of
  digits, grouping anagrams) and the small functions of \<^verbatim>\<open>c++20/challenge1.cpp\<close>, \<^verbatim>\<open>challenge3.cpp\<close> and
  \<^verbatim>\<open>challenge4.cpp\<close>.  Division and remainder of \<open>int\<close> truncate.
\<close>

definition c_div :: "int \<Rightarrow> int \<Rightarrow> int" where
  "c_div a b = sgn a * sgn b * (\<bar>a\<bar> div \<bar>b\<bar>)"

definition c_rem :: "int \<Rightarrow> int \<Rightarrow> int" where
  "c_rem a b = a - b * c_div a b"

lemma c_div_nonneg: "0 \<le> a \<Longrightarrow> 0 < b \<Longrightarrow> c_div a b = a div b"
  by (cases "a = 0") (simp_all add: c_div_def)

lemma c_rem_nonneg: "0 \<le> a \<Longrightarrow> 0 < b \<Longrightarrow> c_rem a b = a mod b"
  by (simp add: c_rem_def c_div_nonneg minus_mult_div_eq_mod)

lemma c_div_neg: "a \<le> 0 \<Longrightarrow> 0 < b \<Longrightarrow> c_div a b = - ((- a) div b)"
  by (cases "a = 0") (simp_all add: c_div_def)

subsection \<open>The search tree of leet1382\<close>

text \<open>A \<open>shared_ptr<Node>\<close>; the null pointer is \<open>Nil_ptr\<close>.\<close>

datatype 'a bst = Nil_ptr | Bst_node "'a bst" 'a "'a bst"

fun bst_insert :: "'a::linorder \<Rightarrow> 'a bst \<Rightarrow> 'a bst" where
  "bst_insert val Nil_ptr = Bst_node Nil_ptr val Nil_ptr"
| "bst_insert val (Bst_node l x r) =
     (if x > val then Bst_node (bst_insert val l) x r else Bst_node l x (bst_insert val r))"

text \<open>The traversals dereference their argument, also a null root.\<close>

fun inorder_traversal :: "'a bst \<Rightarrow> 'a list \<Rightarrow> 'a list res" where
  "inorder_traversal Nil_ptr vec = Inl (UB NullPointer)"
| "inorder_traversal (Bst_node l x r) vec =
     bind_res (if l = Nil_ptr then Inr vec else inorder_traversal l vec) (\<lambda>vec.
       if r = Nil_ptr then Inr (vec @ [x]) else inorder_traversal r (vec @ [x]))"

fun preorder_traversal :: "'a bst \<Rightarrow> 'a list \<Rightarrow> 'a list res" where
  "preorder_traversal Nil_ptr vec = Inl (UB NullPointer)"
| "preorder_traversal (Bst_node l x r) vec =
     bind_res (if l = Nil_ptr then Inr (vec @ [x]) else preorder_traversal l (vec @ [x])) (\<lambda>vec.
       if r = Nil_ptr then Inr vec else preorder_traversal r vec)"

fun postorder_traversal :: "'a bst \<Rightarrow> 'a list \<Rightarrow> 'a list res" where
  "postorder_traversal Nil_ptr vec = Inl (UB NullPointer)"
| "postorder_traversal (Bst_node l x r) vec =
     bind_res (if l = Nil_ptr then Inr vec else postorder_traversal l vec) (\<lambda>vec.
     bind_res (if r = Nil_ptr then Inr vec else postorder_traversal r vec) (\<lambda>vec. Inr (vec @ [x])))"

fun depth :: "'a bst \<Rightarrow> int res" where
  "depth Nil_ptr = Inl (UB NullPointer)"
| "depth (Bst_node l x r) =
     bind_res (if l = Nil_ptr then Inr 0 else depth l) (\<lambda>d1.
     bind_res (if r = Nil_ptr then Inr 0 else depth r) (\<lambda>d2.
       c_int (1 + (if d1 > d2 then d1 else d2))))"

lemma c_mid_nonneg: "left \<le> right \<Longrightarrow> c_div (right - left) 2 + left = (left + right) div 2"
  by (simp add: c_div_nonneg)

lemma c_mid_neg: "right < left \<Longrightarrow> c_div (right - left) 2 + left \<le> left \<and> right \<le> c_div (right - left) 2 + left"
  by (simp add: c_div_neg)

function balance :: "'a list \<Rightarrow> int \<Rightarrow> int \<Rightarrow> 'a bst res" where
  "balance order left right =
     (let mid = c_div (right - left) 2 + left in
      bind_res (array_get order mid) (\<lambda>x.
      bind_res (if (mid - 1) - left \<ge> 0 then balance order left (mid - 1) else Inr Nil_ptr) (\<lambda>l.
      bind_res (if right - (mid + 1) \<ge> 0 then balance order (mid + 1) right else Inr Nil_ptr) (\<lambda>r.
      Inr (Bst_node l x r)))))"
  by pat_completeness auto
termination
proof (relation "measure (\<lambda>(order, left, right). nat (right - left + 1))", goal_cases)
  case (2 order left right mid)
  then have "left \<le> right" using c_mid_neg [of right left] by linarith
  then show ?case using 2 c_mid_nonneg [of left right] by auto
next
  case (3 order left right mid)
  then have "left \<le> right" using c_mid_neg [of right left] by linarith
  then show ?case using 3 c_mid_nonneg [of left right] by auto
qed simp

declare balance.simps [simp del]

text \<open>\<open>(int)inorder.size()\<close> keeps the low 32 bits.\<close>

definition size_as_int :: "nat \<Rightarrow> int" where
  "size_as_int n = signed_take_bit 31 (int n)"

lemma size_as_int_small: "n < 2 ^ 31 \<Longrightarrow> size_as_int n = int n"
  by (simp add: size_as_int_def signed_take_bit_int_eq_self)

definition balance_tree :: "'a bst \<Rightarrow> 'a bst res" where
  "balance_tree root = bind_res (inorder_traversal root []) (\<lambda>inorder.
     bind_res (c_int (size_as_int (length inorder) - 1)) (balance inorder 0))"

definition bst_main :: "int list \<Rightarrow> (int list \<times> int \<times> int list \<times> int) res" where
  "bst_main values =
     (let bst = foldl (\<lambda>t i. bst_insert i t) Nil_ptr values in
      bind_res (preorder_traversal bst []) (\<lambda>before.
      bind_res (depth bst) (\<lambda>d1.
      bind_res (balance_tree bst) (\<lambda>bst.
      bind_res (preorder_traversal bst []) (\<lambda>after.
      bind_res (depth bst) (\<lambda>d2. Inr (before, d1, after, d2)))))))"

text \<open>The reference: in-order list, number of nodes and height.\<close>

fun bst_list :: "'a bst \<Rightarrow> 'a list" where
  "bst_list Nil_ptr = []"
| "bst_list (Bst_node l x r) = bst_list l @ x # bst_list r"

fun bst_height :: "'a bst \<Rightarrow> nat" where
  "bst_height Nil_ptr = 0"
| "bst_height (Bst_node l x r) = Suc (max (bst_height l) (bst_height r))"

lemma bst_insert_list: "mset (bst_list (bst_insert v t)) = add_mset v (mset (bst_list t))"
  by (induction v t rule: bst_insert.induct) simp_all

lemma bst_insert_sorted: "sorted (bst_list t) \<Longrightarrow> sorted (bst_list (bst_insert v t))"
proof (induction v t rule: bst_insert.induct)
  case (2 v l x r)
  have l: "set (bst_list (bst_insert v l)) = insert v (set (bst_list l))"
    and r: "set (bst_list (bst_insert v r)) = insert v (set (bst_list r))"
    using bst_insert_list [of v l] bst_insert_list [of v r] by (metis set_mset_mset set_mset_add_mset_insert)+
  then show ?case using 2 by (auto simp: sorted_append l r)
qed simp

lemma bst_insert_root: "bst_insert v t \<noteq> Nil_ptr"
  by (cases t) simp_all

lemma inorder_traversal_list: "t \<noteq> Nil_ptr \<Longrightarrow> inorder_traversal t vec = Inr (vec @ bst_list t)"
  by (induction t arbitrary: vec) auto

lemma depth_height: "t \<noteq> Nil_ptr \<Longrightarrow> int (bst_height t) \<le> int_max \<Longrightarrow> depth t = Inr (int (bst_height t))"
proof (induction t)
  case (Bst_node l x r)
  have "(if l = Nil_ptr then Inr 0 else depth l) = Inr (int (bst_height l))"
    "(if r = Nil_ptr then Inr 0 else depth r) = Inr (int (bst_height r))"
    using Bst_node by auto
  then show ?case using Bst_node.prems(2)
    by (cases "bst_height l \<le> bst_height r") (auto simp: int_min_def c_int_def max_def)
qed simp

lemma bst_height_pos: "t \<noteq> Nil_ptr \<Longrightarrow> 0 < bst_height t"
  by (cases t) simp_all

text \<open>
  Balancing a segment gives a tree with the segment as in-order list and the least possible height:
  with \<open>n\<close> nodes and height \<open>h\<close>, \<open>2 ^ (h - 1) \<le> n < 2 ^ h\<close>, or nothing at all.
\<close>

definition balanced_for :: "'a list \<Rightarrow> 'a bst \<Rightarrow> bool" where
  "balanced_for xs t \<longleftrightarrow> bst_list t = xs \<and> length xs < 2 ^ bst_height t \<and>
     (bst_height t = 0 \<or> 2 ^ (bst_height t - 1) \<le> length xs)"

lemma balanced_for_Nil: "balanced_for [] Nil_ptr"
  by (simp add: balanced_for_def)

lemma balanced_for_node:
  assumes l: "balanced_for xs l" and r: "balanced_for ys r"
    and len: "length xs \<le> length ys" "length ys \<le> Suc (length xs)"
  shows "balanced_for (xs @ x # ys) (Bst_node l x r)"
proof -
  have "bst_height l \<le> bst_height r"
  proof (rule ccontr)
    assume "\<not> bst_height l \<le> bst_height r"
    then have "(2 :: nat) ^ bst_height r \<le> 2 ^ (bst_height l - 1)" "bst_height l \<noteq> 0" by (auto intro: power_increasing)
    then show False using l r len(1) unfolding balanced_for_def by linarith
  qed
  moreover have "2 ^ bst_height r \<le> Suc (length xs + length ys)"
  proof (cases "bst_height r = 0")
    case False
    then have "(2 :: nat) ^ bst_height r = 2 * 2 ^ (bst_height r - 1)" by (cases "bst_height r") simp_all
    then show ?thesis using False r len(2) unfolding balanced_for_def by linarith
  qed simp
  moreover have "Suc (length xs + length ys) < 2 * 2 ^ bst_height r"
    using r len(1) unfolding balanced_for_def by linarith
  ultimately show ?thesis using l r by (simp add: balanced_for_def)
qed

lemma segment_split:
  assumes "left \<le> mid" and "mid \<le> right" and "right < length order"
  shows "take (Suc right - left) (drop left order) =
    take (mid - left) (drop left order) @ order ! mid # take (right - mid) (drop (Suc mid) order)"
proof -
  have "drop left order = take (mid - left) (drop left order) @ order ! mid # drop (Suc mid) order"
    using id_take_nth_drop [of "mid - left" "drop left order"] assms by simp
  then have "take (Suc right - left) (drop left order) =
      take (Suc right - left) (take (mid - left) (drop left order) @ order ! mid # drop (Suc mid) order)" by simp
  also have "Suc right - left - (mid - left) = Suc (right - mid)" using assms by linarith
  then have "take (Suc right - left) (take (mid - left) (drop left order) @ order ! mid # drop (Suc mid) order) =
      take (mid - left) (drop left order) @ order ! mid # take (right - mid) (drop (Suc mid) order)"
    using assms by simp
  finally show ?thesis .
qed

lemma balance_segment:
  assumes "left \<le> right" and "right < length order"
  shows "\<exists>t. balance order (int left) (int right) = Inr t \<and> balanced_for (take (Suc right - left) (drop left order)) t"
  using assms
proof (induction "Suc right - left" arbitrary: left right rule: less_induct)
  case less
  define mid where "mid = (left + right) div 2"
  have mid: "left \<le> mid" "mid \<le> right" using less.prems by (auto simp: mid_def)
  have m: "c_div (int right - int left) 2 + int left = int mid"
    using c_mid_nonneg [of "int left" "int right"] less.prems by (simp add: mid_def zdiv_int)
  let ?L = "take (mid - left) (drop left order)" and ?R = "take (right - mid) (drop (Suc mid) order)"
  have "\<exists>l. (if (int mid - 1) - int left \<ge> 0 then balance order (int left) (int mid - 1) else Inr Nil_ptr) = Inr l \<and>
      balanced_for ?L l"
  proof (cases "left < mid")
    case True
    with less.hyps [of "mid - 1" left] less.prems mid show ?thesis by (auto simp: of_nat_diff)
  qed (use balanced_for_Nil in auto)
  then obtain l where l: "(if (int mid - 1) - int left \<ge> 0 then balance order (int left) (int mid - 1) else Inr Nil_ptr) = Inr l"
      "balanced_for ?L l" by blast
  have "\<exists>r. (if int right - (int mid + 1) \<ge> 0 then balance order (int mid + 1) (int right) else Inr Nil_ptr) = Inr r \<and>
      balanced_for ?R r"
  proof (cases "mid < right")
    case True
    with less.hyps [of right "Suc mid"] less.prems mid show ?thesis by (auto simp: add.commute)
  qed (use balanced_for_Nil in auto)
  then obtain r where r: "(if int right - (int mid + 1) \<ge> 0 then balance order (int mid + 1) (int right) else Inr Nil_ptr) = Inr r"
      "balanced_for ?R r" by blast
  have "balance order (int left) (int right) = Inr (Bst_node l (order ! mid) r)"
    unfolding balance.simps [of order "int left" "int right"] Let_def m using less.prems mid l(1) r(1) by simp
  moreover have "length ?L \<le> length ?R" "length ?R \<le> Suc (length ?L)"
    using less.prems by (auto simp: mid_def)
  ultimately show ?case
    using balanced_for_node [OF l(2) r(2)] unfolding segment_split [OF mid less.prems(2)] by blast
qed

lemma balance_ok:
  assumes "left \<le> right" and "right < length order"
  shows "\<exists>t. balance order (int left) (int right) = Inr t \<and> t \<noteq> Nil_ptr \<and>
    bst_list t = take (Suc right - left) (drop left order) \<and>
    2 ^ (bst_height t - 1) \<le> Suc right - left \<and> Suc right - left < 2 ^ bst_height t"
proof -
  obtain t where t: "balance order (int left) (int right) = Inr t"
      "balanced_for (take (Suc right - left) (drop left order)) t"
    using balance_segment [OF assms] by blast
  moreover have "length (take (Suc right - left) (drop left order)) = Suc right - left" using assms by simp
  ultimately show ?thesis using assms by (cases t) (auto simp: balanced_for_def)
qed

lemma balance_tree_ok:
  assumes "t \<noteq> Nil_ptr" and small: "length (bst_list t) < 2 ^ 31"
  shows "\<exists>t'. balance_tree t = Inr t' \<and> bst_list t' = bst_list t \<and>
    2 ^ (bst_height t' - 1) \<le> length (bst_list t) \<and> length (bst_list t) < 2 ^ bst_height t'"
proof -
  let ?xs = "bst_list t"
  have n: "0 < length ?xs" using assms(1) by (cases t) simp_all
  have index: "c_int (size_as_int (length ?xs) - 1) = Inr (int (length ?xs) - 1)"
    using small by (simp add: size_as_int_small int_max_def int_min_def)
  from n have "int (length ?xs) - 1 = int (length ?xs - 1)" by (simp only: of_nat_diff Suc_leI of_nat_1 One_nat_def)
  moreover have "0 \<le> length ?xs - 1" "length ?xs - 1 < length ?xs" using n by simp_all
  ultimately show ?thesis
    using balance_ok [of 0 "length ?xs - 1" ?xs] inorder_traversal_list [OF assms(1), of "[]"] n index
    by (auto simp: balance_tree_def simp del: c_int_Inr_iff)
qed

lemma insert_all_sorted:
  "sorted (bst_list (foldl (\<lambda>t i. bst_insert i t) Nil_ptr vs)) \<and> mset (bst_list (foldl (\<lambda>t i. bst_insert i t) Nil_ptr vs)) = mset vs"
  by (induction vs rule: rev_induct) (simp_all add: bst_insert_sorted bst_insert_list)

text \<open>
  Claim C39.  Inserting any values into an empty tree and balancing it gives a search tree of all the
  values with the least height possible: with \<open>h\<close> levels it has at least \<open>2 ^ (h - 1)\<close> nodes.  Its
  in-order traversal is the sorted list of the values, and \<open>depth\<close> returns \<open>h\<close>.
\<close>

theorem balance_tree_minimal:
  assumes "vs \<noteq> []" and "length vs < 2 ^ 31"
  shows "\<exists>t h. balance_tree (foldl (\<lambda>t i. bst_insert i t) Nil_ptr vs) = Inr t \<and>
    inorder_traversal t [] = Inr (sort vs) \<and> depth t = Inr (int h) \<and> 2 ^ (h - 1) \<le> length vs \<and> length vs < 2 ^ h"
proof -
  let ?t0 = "foldl (\<lambda>t i. bst_insert i t) Nil_ptr vs"
  have list: "bst_list ?t0 = sort vs"
    using insert_all_sorted [of vs] by (metis properties_for_sort)
  have "?t0 \<noteq> Nil_ptr" using list assms(1) by (metis bst_list.simps(1) length_0_conv length_sort)
  then obtain t where t: "balance_tree ?t0 = Inr t" "bst_list t = sort vs"
      "2 ^ (bst_height t - 1) \<le> length vs" "length vs < 2 ^ bst_height t"
    using balance_tree_ok [of ?t0] assms(2) unfolding list by auto
  have "t \<noteq> Nil_ptr" using t(2) assms(1) by (metis bst_list.simps(1) length_0_conv length_sort)
  moreover have "bst_height t \<le> 31"
  proof (rule ccontr)
    assume "\<not> bst_height t \<le> 31"
    then have "(2 :: nat) ^ 31 \<le> 2 ^ (bst_height t - 1)" by (intro power_increasing) simp_all
    then show False using t(3) assms(2) by linarith
  qed
  then have "int (bst_height t) \<le> int_max" by (simp add: int_max_def)
  ultimately show ?thesis
    using t depth_height [of t] inorder_traversal_list [of t "[]"] by auto
qed

lemma balance_tree_minimal_witness:
  "\<exists>t h. balance_tree (foldl (\<lambda>t i. bst_insert i t) Nil_ptr [3, 1, 2 :: int]) = Inr t \<and>
    inorder_traversal t [] = Inr [1, 2, 3] \<and> depth t = Inr (int h) \<and> h = 2"
proof -
  have "\<exists>t h. balance_tree (foldl (\<lambda>t i. bst_insert i t) Nil_ptr [3, 1, 2 :: int]) = Inr t \<and>
      inorder_traversal t [] = Inr (sort [3, 1, 2]) \<and> depth t = Inr (int h) \<and> 2 ^ (h - 1) \<le> (3 :: nat) \<and> 3 < (2 :: nat) ^ h"
    using balance_tree_minimal [of "[3, 1, 2 :: int]"] by (simp add: numeral_3_eq_3)
  then obtain t h where t: "balance_tree (foldl (\<lambda>t i. bst_insert i t) Nil_ptr [3, 1, 2 :: int]) = Inr t"
      "inorder_traversal t [] = Inr (sort [3, 1, 2])" "depth t = Inr (int h)" "2 ^ (h - 1) \<le> (3 :: nat)" "3 < (2 :: nat) ^ h"
    by blast
  have "h < 3"
  proof (rule ccontr)
    assume "\<not> h < 3"
    then have "(2 :: nat) ^ 2 \<le> 2 ^ (h - 1)" by (intro power_increasing) simp_all
    then show False using t(4) by simp
  qed
  moreover have "h \<noteq> 0" "h \<noteq> 1" using t(5) by (auto intro: ccontr)
  ultimately have "h = 2" by linarith
  moreover have "sort [3, 1, 2 :: int] = [1, 2, 3]" by simp
  ultimately show ?thesis using t by auto
qed

text \<open>An empty tree has a null root, which every traversal, and so the balancing, dereferences.\<close>

lemma empty_tree_traps: "balance_tree Nil_ptr = Inl (UB NullPointer)" "depth Nil_ptr = Inl (UB NullPointer)"
  by (simp_all add: balance_tree_def)

subsection \<open>Adding numbers digit by digit\<close>

text \<open>
  A \<open>ListNode\<close> chain is the list of its values, the least significant digit first.  The recursive
  and the iterative solution; both go on while there is a digit or a carry left.
\<close>

lemma bind_res_fundef_cong [fundef_cong]:
  "m = m' \<Longrightarrow> (\<And>x. m' = Inr x \<Longrightarrow> f x = g x) \<Longrightarrow> bind_res m f = bind_res m' g"
  by (cases m') simp_all

fun plus_val :: "int \<Rightarrow> int list \<Rightarrow> int res" where
  "plus_val s [] = Inr s"
| "plus_val s (v # next) = c_int (s + v)"

lemma c_div_shrinks: "a \<noteq> 0 \<Longrightarrow> \<bar>c_div a 10\<bar> < \<bar>a\<bar>"
  by (cases "0 \<le> a") (auto simp: c_div_nonneg c_div_neg)

function add_rec :: "int list \<Rightarrow> int list \<Rightarrow> int \<Rightarrow> int list res" where
  "add_rec l1 l2 forward =
     (if l1 = [] \<and> l2 = [] \<and> forward = 0 then Inr []
      else bind_res (plus_val forward l1) (\<lambda>vl3. bind_res (plus_val vl3 l2) (\<lambda>vl3.
        bind_res (add_rec (tl l1) (tl l2) (c_div vl3 10)) (\<lambda>rest. Inr (c_rem vl3 10 # rest)))))"
  by pat_completeness auto
termination
proof (relation "measures [\<lambda>(l1, l2, forward). length l1 + length l2, \<lambda>(l1, l2, forward). nat \<bar>forward\<bar>]", goal_cases)
  case (2 l1 l2 forward vl3 vl3')
  then show ?case using c_div_shrinks [of forward] by (cases l1; cases l2) auto
qed simp

function add_loop :: "int list \<Rightarrow> int list \<Rightarrow> int \<Rightarrow> int list \<Rightarrow> int list res" where
  "add_loop l1 l2 carry dummy =
     (if l1 = [] \<and> l2 = [] \<and> carry = 0 then Inr dummy
      else bind_res (plus_val carry l1) (\<lambda>sum. bind_res (plus_val sum l2) (\<lambda>sum.
        add_loop (tl l1) (tl l2) (c_div sum 10) (dummy @ [c_rem sum 10]))))"
  by pat_completeness auto
termination
proof (relation "measures [\<lambda>(l1, l2, carry, d). length l1 + length l2, \<lambda>(l1, l2, carry, d). nat \<bar>carry\<bar>]", goal_cases)
  case (2 l1 l2 carry dummy s s')
  then show ?case using c_div_shrinks [of carry] by (cases l1; cases l2) auto
qed simp

declare add_rec.simps [simp del] add_loop.simps [simp del]

definition addTwoNumbers :: "int list \<Rightarrow> int list \<Rightarrow> int list res" where
  "addTwoNumbers l1 l2 = add_rec l1 l2 0"

definition addTwoNumbers2 :: "int list \<Rightarrow> int list \<Rightarrow> int list res" where
  "addTwoNumbers2 l1 l2 = add_loop l1 l2 0 []"

lemma add_loop_rec: "add_loop l1 l2 carry dummy = bind_res (add_rec l1 l2 carry) (\<lambda>xs. Inr (dummy @ xs))"
proof (induction l1 l2 carry dummy rule: add_loop.induct)
  case (1 l1 l2 carry dummy)
  show ?case
  proof (cases "l1 = [] \<and> l2 = [] \<and> carry = 0")
    case False
    show ?thesis
    proof (cases "plus_val carry l1")
      case (Inr a)
      note a = Inr
      show ?thesis
      proof (cases "plus_val a l2")
        case (Inr b)
        then show ?thesis
          using "1.IH" [OF False a Inr] False a
          by (cases "add_rec (tl l1) (tl l2) (c_div b 10)")
            (simp_all add: add_loop.simps [of l1] add_rec.simps [of l1])
      qed (use False a in \<open>simp add: add_loop.simps [of l1] add_rec.simps [of l1]\<close>)
    qed (use False in \<open>simp add: add_loop.simps [of l1] add_rec.simps [of l1]\<close>)
  qed (simp add: add_loop.simps add_rec.simps)
qed

lemma addTwoNumbers_agree: "addTwoNumbers2 l1 l2 = addTwoNumbers l1 l2"
  by (cases "add_rec l1 l2 0") (simp_all add: addTwoNumbers_def addTwoNumbers2_def add_loop_rec)

definition digits_ok :: "int list \<Rightarrow> bool" where
  "digits_ok ds \<longleftrightarrow> (\<forall>d \<in> set ds. 0 \<le> d \<and> d < 10)"

fun number :: "int list \<Rightarrow> int" where
  "number [] = 0"
| "number (d # ds) = d + 10 * number ds"

lemma plus_val_digit: "digits_ok ds \<Longrightarrow> 0 \<le> s \<Longrightarrow> s < 100 \<Longrightarrow> plus_val s ds = Inr (s + (case ds of [] \<Rightarrow> 0 | d # _ \<Rightarrow> d))"
  by (cases ds) (auto simp: digits_ok_def c_int_eval)

lemma add_rec_value:
  "digits_ok l1 \<Longrightarrow> digits_ok l2 \<Longrightarrow> 0 \<le> carry \<Longrightarrow> carry \<le> 1 \<Longrightarrow>
   \<exists>ds. add_rec l1 l2 carry = Inr ds \<and> digits_ok ds \<and> number ds = number l1 + number l2 + carry"
proof (induction l1 l2 carry rule: add_rec.induct)
  case (1 l1 l2 carry)
  let ?h = "\<lambda>ds :: int list. case ds of [] \<Rightarrow> 0 | d # _ \<Rightarrow> d"
  have h: "0 \<le> ?h ds" "?h ds < 10" "digits_ok (tl ds)" "number ds = ?h ds + 10 * number (tl ds)" if "digits_ok ds" for ds
    using that by (cases ds; simp add: digits_ok_def)+
  show ?case
  proof (cases "l1 = [] \<and> l2 = [] \<and> carry = 0")
    case True
    then show ?thesis by (simp add: add_rec.simps digits_ok_def)
  next
    case False
    let ?a = "carry + ?h l1" and ?b = "carry + ?h l1 + ?h l2"
    have a: "plus_val carry l1 = Inr ?a" using plus_val_digit [of l1 carry] "1.prems" by simp
    have b: "plus_val ?a l2 = Inr ?b" using plus_val_digit [of l2 ?a] "1.prems" h [of l1] by simp
    have pos: "0 \<le> ?b" "?b < 20" using "1.prems" h(1,2) [of l1] h(1,2) [of l2] by linarith+
    have q: "c_div ?b 10 = ?b div 10" "c_rem ?b 10 = ?b mod 10" using pos by (simp_all add: c_div_nonneg c_rem_nonneg)
    have "0 \<le> ?b div 10" "?b div 10 \<le> 1" using pos by linarith+
    then obtain ds where ds: "add_rec (tl l1) (tl l2) (?b div 10) = Inr ds" "digits_ok ds"
        "number ds = number (tl l1) + number (tl l2) + ?b div 10"
      using "1.IH" [OF False a b] "1.prems" h(3) unfolding q by blast
    have "add_rec l1 l2 carry = Inr (?b mod 10 # ds)"
      using False by (simp add: add_rec.simps [of l1] a b ds(1) q)
    moreover have "number (?b mod 10 # ds) = number l1 + number l2 + carry"
      using ds(3) h(4) [OF "1.prems"(1)] h(4) [OF "1.prems"(2)] mult_div_mod_eq [of 10 ?b] by simp
    ultimately show ?thesis using ds(2) by (auto simp: digits_ok_def)
  qed
qed

text \<open>The digits of the sum.\<close>

lemma addTwoNumbers_sum:
  "digits_ok l1 \<Longrightarrow> digits_ok l2 \<Longrightarrow>
   \<exists>ds. addTwoNumbers l1 l2 = Inr ds \<and> digits_ok ds \<and> number ds = number l1 + number l2"
  using add_rec_value [of l1 l2 0] by (simp add: addTwoNumbers_def)

text \<open>
  Claim C40.  On lists of decimal digits both solutions succeed, return the same list, and it is the
  list of the digits of the sum of the two numbers.
\<close>

theorem addTwoNumbers_correct:
  assumes "digits_ok l1" and "digits_ok l2"
  shows "\<exists>ds. addTwoNumbers l1 l2 = Inr ds \<and> addTwoNumbers2 l1 l2 = Inr ds \<and> digits_ok ds \<and>
    number ds = number l1 + number l2"
  using addTwoNumbers_sum [OF assms] by (simp add: addTwoNumbers_agree)

lemma addTwoNumbers_correct_witness:
  "\<exists>ds. addTwoNumbers [2, 4, 3] [5, 6, 4] = Inr ds \<and> addTwoNumbers2 [2, 4, 3] [5, 6, 4] = Inr ds \<and> number ds = 807"
  using addTwoNumbers_correct [of "[2, 4, 3]" "[5, 6, 4]"] by (auto simp: digits_ok_def)

subsection \<open>Grouping anagrams\<close>

text \<open>The groups come out in the order \<open>traverse\<close> in which the hash map visits its keys.\<close>

definition add_anagram :: "(string \<Rightarrow> string list option) \<Rightarrow> string \<Rightarrow> string \<Rightarrow> string list option" where
  "add_anagram anagrams word =
     (let key = sort word in anagrams(key \<mapsto> (case anagrams key of None \<Rightarrow> [] | Some ws \<Rightarrow> ws) @ [word]))"

definition groupAnagrams :: "(string set \<Rightarrow> string list) \<Rightarrow> string list \<Rightarrow> string list list" where
  "groupAnagrams traverse strs =
     (let anagrams = foldl add_anagram (\<lambda>_. None) strs in map (\<lambda>key. the (anagrams key)) (traverse (dom anagrams)))"

lemma anagrams_map:
  "foldl add_anagram (\<lambda>_. None) strs key =
     (if key \<in> sort ` set strs then Some (filter (\<lambda>w. sort w = key) strs) else None)"
proof (induction strs rule: rev_induct)
  case (snoc w strs)
  have "filter (\<lambda>v. sort v = sort w) strs = []" if "sort w \<notin> sort ` set strs"
    using that by (auto simp: filter_empty_conv) (metis imageI)
  then show ?case using snoc by (auto simp: add_anagram_def Let_def)
qed simp

text \<open>Each group is all the words with the same letters, in their order, and every word is in one group.\<close>

lemma groupAnagrams_groups:
  assumes "\<And>S. finite S \<Longrightarrow> distinct (traverse S) \<and> set (traverse S) = S"
  shows "set (groupAnagrams traverse strs) = (\<lambda>v. filter (\<lambda>w. mset w = mset v) strs) ` set strs"
    and "distinct (groupAnagrams traverse strs)"
proof -
  let ?m = "foldl add_anagram (\<lambda>_. None) strs"
  have dom: "dom ?m = sort ` set strs" by (auto simp: anagrams_map dom_def)
  then have tr: "set (traverse (dom ?m)) = sort ` set strs" "distinct (traverse (dom ?m))"
    using assms [of "dom ?m"] by simp_all
  have key: "sort w = sort v \<longleftrightarrow> mset w = mset v" for w v :: string
    by (metis mset_sort properties_for_sort sorted_sort)
  have "the (?m (sort v)) = filter (\<lambda>w. mset w = mset v) strs" if "v \<in> set strs" for v
    using that by (simp add: anagrams_map key)
  then show "set (groupAnagrams traverse strs) = (\<lambda>v. filter (\<lambda>w. mset w = mset v) strs) ` set strs"
    by (auto simp: groupAnagrams_def Let_def tr(1) image_image)
  have "inj_on (\<lambda>key. the (?m key)) (sort ` set strs)"
  proof (rule inj_onI)
    fix k k' assume k: "k \<in> sort ` set strs" "k' \<in> sort ` set strs" "the (?m k) = the (?m k')"
    then have eq: "filter (\<lambda>w. sort w = k) strs = filter (\<lambda>w. sort w = k') strs" by (simp add: anagrams_map)
    obtain v where "v \<in> set strs" "sort v = k" using k(1) by auto
    then have "v \<in> set (filter (\<lambda>w. sort w = k) strs)" by simp
    then have "v \<in> set (filter (\<lambda>w. sort w = k') strs)" unfolding eq .
    then show "k = k'" using \<open>sort v = k\<close> by simp
  qed
  then show "distinct (groupAnagrams traverse strs)"
    using tr by (simp add: groupAnagrams_def Let_def distinct_map)
qed

subsection \<open>Factorials, Fibonacci numbers and compositions\<close>

text \<open>\<open>challenge1\<close>: the loop and the sum over a vector.\<close>

function fact_loop :: "int \<Rightarrow> int \<Rightarrow> int \<Rightarrow> int res" where
  "fact_loop i n acc =
     (if i \<le> n then bind_res (c_int (acc * i)) (\<lambda>acc. bind_res (c_int (i + 1)) (\<lambda>i'. fact_loop i' n acc)) else Inr acc)"
  by pat_completeness auto
termination
  by (relation "measure (\<lambda>(i, n, acc). nat (n + 1 - i))") auto

declare fact_loop.simps [simp del]

definition factorial :: "int \<Rightarrow> int res" where
  "factorial n = fact_loop 2 n 1"

fun sum_factorials :: "int list \<Rightarrow> int \<Rightarrow> int res" where
  "sum_factorials [] acc = Inr acc"
| "sum_factorials (n # nums) acc = bind_res (factorial n) (\<lambda>f. bind_res (c_int (acc + f)) (sum_factorials nums))"

fun map_res :: "('a \<Rightarrow> 'b res) \<Rightarrow> 'a list \<Rightarrow> 'b list res" where
  "map_res f [] = Inr []"
| "map_res f (x # xs) = bind_res (f x) (\<lambda>y. bind_res (map_res f xs) (\<lambda>ys. Inr (y # ys)))"

definition challenge1_main :: "int list \<Rightarrow> (int \<times> int list \<times> int list) res" where
  "challenge1_main nums = bind_res (sum_factorials nums 0) (\<lambda>sum. bind_res (map_res factorial nums) (\<lambda>facts. Inr (sum, nums, facts)))"

lemma fact_loop_ok:
  "2 \<le> i \<Longrightarrow> i \<le> Suc n \<Longrightarrow> n \<le> 12 \<Longrightarrow> fact_loop (int i) (int n) (int (fact (i - 1))) = Inr (int (fact n))"
proof (induction "Suc n - i" arbitrary: i)
  case 0
  then have "i = Suc n" by simp
  then show ?case by (simp add: fact_loop.simps)
next
  case (Suc k)
  then have i: "i \<le> n" by simp
  have "(fact i :: nat) \<le> fact 12" using i Suc.prems(3) by (intro fact_mono) simp
  then have "int (fact i) \<le> int (fact 12)" by (simp only: of_nat_le_iff)
  moreover have "int (fact 12) \<le> int_max" by (simp add: int_max_def fact_numeral)
  ultimately have small: "int (fact i) \<le> int_max" by linarith
  have mult: "int (fact (i - 1)) * int i = int (fact i)" using Suc.prems(1) by (cases i) (simp_all add: algebra_simps)
  have "int_min \<le> 0" by (simp add: int_min_def)
  then have c: "c_int (int (fact i)) = Inr (int (fact i))"
    using small by (intro c_int_ok) (simp_all del: of_nat_fact add: order_trans [of _ 0])
  have c': "c_int (int i + 1) = Inr (int (Suc i))"
    using i Suc.prems(3) by (simp add: c_int_eval)
  have "fact_loop (int (Suc i)) (int n) (int (fact (Suc i - 1))) = Inr (int (fact n))"
    using Suc.hyps(2) i Suc.prems by (intro Suc.hyps(1)) auto
  then show ?case
    unfolding fact_loop.simps [of "int i"] mult c c' bind_res_simps using i by simp
qed

lemma factorial_ok: "1 \<le> n \<Longrightarrow> n \<le> 12 \<Longrightarrow> factorial (int n) = Inr (int (fact n))"
  using fact_loop_ok [of 2 n] by (simp add: factorial_def)

lemma factorial_overflows: "factorial 13 = Inl (UB SignedOverflow)"
  by code_simp

lemma challenge1_prints: "challenge1_main [1, 2, 3, 4, 5] = Inr (153, [1, 2, 3, 4, 5], [1, 2, 6, 24, 120])"
  by code_simp

text \<open>\<open>challenge3\<close>: a generator and three pipelines of views.\<close>

record fib_gen =
  fg_current :: int
  fg_previous :: int

definition fib_gen_new :: fib_gen where
  "fib_gen_new = \<lparr>fg_current = 0, fg_previous = 0\<rparr>"

definition fib_next :: "fib_gen \<Rightarrow> (int \<times> fib_gen) res" where
  "fib_next g =
     (if fg_current g = 0 then Inr (0, g\<lparr>fg_current := 1\<rparr>)
      else bind_res (c_int (fg_current g + fg_previous g)) (\<lambda>n. Inr (n, \<lparr>fg_current = n, fg_previous = fg_current g\<rparr>)))"

fun fib_take :: "nat \<Rightarrow> fib_gen \<Rightarrow> int list res" where
  "fib_take 0 g = Inr []"
| "fib_take (Suc k) g = bind_res (fib_next g) (\<lambda>(x, g). bind_res (fib_take k g) (\<lambda>xs. Inr (x # xs)))"

definition challenge3_main :: "(int list \<times> int list \<times> int list \<times> int list) res" where
  "challenge3_main =
     bind_res (map_res (\<lambda>n. c_int (n * n)) (filter (\<lambda>n. c_rem n 2 = 0) [1, 2, 3, 4, 5, 6, 7, 8])) (\<lambda>squared.
     bind_res (fib_take 10 fib_gen_new) (\<lambda>fibs.
     bind_res (map_res (\<lambda>n. c_int (n * n)) [1..100]) (\<lambda>squares.
     Inr (squared, take 5 (filter (\<lambda>n. c_rem n 3 = 0) [1..19]), fibs, take 10 (filter (\<lambda>n. c_rem n 5 = 0) squares)))))"

text \<open>The generator skips the second 1 of the Fibonacci sequence.\<close>

lemma fib_gen_skips_one: "fib_take 10 fib_gen_new = Inr [0, 1, 2, 3, 5, 8, 13, 21, 34, 55]"
  by code_simp

text \<open>\<open>challenge4\<close>: the template, the \<open>constexpr\<close> functions and the compositions.\<close>

fun Factorial :: "nat \<Rightarrow> int res" where
  "Factorial 0 = Inr 1"
| "Factorial (Suc n) = bind_res (Factorial n) (\<lambda>f. c_int (int (Suc n) * f))"

function factorial_constexpr :: "int \<Rightarrow> int res" where
  "factorial_constexpr n =
     (if n < 0 then Inl (Throw ''Negative input not allowed'')
      else if n = 0 then Inr 1
      else bind_res (factorial_constexpr (n - 1)) (\<lambda>f. c_int (n * f)))"
  by pat_completeness auto
termination
  by (relation "measure nat") auto

function fibonacci :: "int \<Rightarrow> int res" where
  "fibonacci n =
     (if n < 0 then Inl (Throw ''Negative input not allowed'')
      else if n \<le> 1 then Inr n
      else bind_res (fibonacci (n - 1)) (\<lambda>a. bind_res (fibonacci (n - 2)) (\<lambda>b. c_int (a + b))))"
  by pat_completeness auto
termination
  by (relation "measure nat") auto

declare factorial_constexpr.simps [simp del] fibonacci.simps [simp del]

definition compose1 :: "('b \<Rightarrow> 'c res) \<Rightarrow> ('a \<Rightarrow> 'b res) \<Rightarrow> 'a \<Rightarrow> 'c res" where
  "compose1 f g x = bind_res (g x) f"

definition compose2 :: "('b \<Rightarrow> 'c res) \<Rightarrow> ('a \<Rightarrow> 'b res) \<Rightarrow> 'a \<Rightarrow> 'c res" where
  "compose2 f g x = bind_res (g x) f"

definition compose3 :: "('a \<Rightarrow> 'b res) \<Rightarrow> ('b \<Rightarrow> 'c res) \<Rightarrow> ('c \<Rightarrow> 'd res) \<Rightarrow> 'a \<Rightarrow> 'd res" where
  "compose3 f g h x = bind_res (bind_res (f x) g) h"

definition challenge4_main :: "int list res" where
  "challenge4_main =
     (let increment = (\<lambda>x. c_int (x + 1)); square = (\<lambda>x. c_int (x * x)); decrement = (\<lambda>x. c_int (x - 1));
          doubleValue = (\<lambda>x. c_int (2 * x)); add3 = (\<lambda>x. c_int (x + 3)) in
      map_res (\<lambda>r. r) [Factorial 5, Factorial 6, factorial_constexpr 4, factorial_constexpr 5, fibonacci 5, fibonacci 6,
        compose1 increment square 3, compose1 square increment 3, compose2 increment square 3, compose3 decrement doubleValue add3 3])"

lemma challenge4_prints: "challenge4_main = Inr [120, 720, 24, 120, 5, 8, 10, 16, 10, 7]"
  by code_simp

lemma Factorial_constexpr: "Factorial n = factorial_constexpr (int n)"
  by (induction n) (simp_all add: factorial_constexpr.simps)

fun fib_reference :: "nat \<Rightarrow> nat" where
  "fib_reference 0 = 0"
| "fib_reference (Suc 0) = 1"
| "fib_reference (Suc (Suc n)) = fib_reference (Suc n) + fib_reference n"

lemma fib_reference_mono: "fib_reference n \<le> fib_reference (Suc n)"
  by (cases n) simp_all

lemma fibonacci_ok: "int (fib_reference n) \<le> int_max \<Longrightarrow> fibonacci (int n) = Inr (int (fib_reference n))"
proof (induction n rule: fib_reference.induct)
  case (3 n)
  have "int (fib_reference (Suc n)) \<le> int_max" "int (fib_reference n) \<le> int_max" using "3.prems" by simp_all
  then have "fibonacci (int (Suc n)) = Inr (int (fib_reference (Suc n)))" "fibonacci (int n) = Inr (int (fib_reference n))"
    using "3.IH" by blast+
  moreover have "int (Suc (Suc n)) - 1 = int (Suc n)" "int (Suc (Suc n)) - 2 = int n" by simp_all
  ultimately show ?case
    using "3.prems" unfolding fibonacci.simps [of "int (Suc (Suc n))"] by (simp add: int_min_def c_int_def)
qed (simp_all add: fibonacci.simps)

end
