(* ===== verification/KeyedStore.thy ===== *)
theory KeyedStore
  imports Prelude
begin

text \<open>
  The contract behind the concept \<open>MyHM\<close> of \<^verbatim>\<open>HFT/HashMap.hpp\<close>: what the order book relies
  on when it keeps its orders in a hash map.  The C++ concept fixes the types only; this locale
  fixes the behaviour.  \<open>subscript\<close> is \<open>operator[]\<close> used for reading, \<open>assign\<close> is
  \<open>operator[]\<close> with a value written through the returned reference.  Both may throw when a
  fixed pool is exhausted, so their laws speak of their results.  \<open>insert\<close> is specified for a
  key that is not there: on a key that is there, the implementations differ.
\<close>

datatype ('k, 'v) store_op =
  Insert 'k 'v | Erase 'k | Find 'k | Contains 'k | Subscript 'k | Assign 'k 'v

datatype 'v store_ret = Done | Truth bool | Pointer "'v option" | Value 'v

record ('k, 'v, 'm) store_ops =
  so_find :: "'k \<Rightarrow> 'm \<Rightarrow> 'v option res"
  so_contains :: "'k \<Rightarrow> 'm \<Rightarrow> bool res"
  so_erase :: "'k \<Rightarrow> 'm \<Rightarrow> (bool \<times> 'm) res"
  so_subscript :: "'k \<Rightarrow> 'm \<Rightarrow> ('v \<times> 'm) res"
  so_assign :: "'k \<Rightarrow> 'v \<Rightarrow> 'm \<Rightarrow> 'm res"
  so_insert :: "'k \<Rightarrow> 'v \<Rightarrow> 'm \<Rightarrow> 'm res"

text \<open>One call through the wrapper class \<open>HashMap\<close>, and a sequence of calls.\<close>

fun store_step :: "('k, 'v, 'm) store_ops \<Rightarrow> ('k, 'v) store_op \<Rightarrow> 'm \<Rightarrow> ('v store_ret \<times> 'm) res" where
  "store_step ops (Insert k v) m = bind_res (so_insert ops k v m) (\<lambda>m'. Inr (Done, m'))"
| "store_step ops (Erase k) m = bind_res (so_erase ops k m) (\<lambda>(r, m'). Inr (Truth r, m'))"
| "store_step ops (Find k) m = bind_res (so_find ops k m) (\<lambda>p. Inr (Pointer p, m))"
| "store_step ops (Contains k) m = bind_res (so_contains ops k m) (\<lambda>b. Inr (Truth b, m))"
| "store_step ops (Subscript k) m = bind_res (so_subscript ops k m) (\<lambda>(v, m'). Inr (Value v, m'))"
| "store_step ops (Assign k v) m = bind_res (so_assign ops k v m) (\<lambda>m'. Inr (Done, m'))"

fun store_run :: "('k, 'v, 'm) store_ops \<Rightarrow> ('k, 'v) store_op list \<Rightarrow> 'm \<Rightarrow> ('v store_ret list \<times> 'm) res" where
  "store_run ops [] m = Inr ([], m)"
| "store_run ops (c # cs) m =
     bind_res (store_step ops c m) (\<lambda>(r, m'). bind_res (store_run ops cs m') (\<lambda>(rs, m''). Inr (r # rs, m'')))"

text \<open>The abstract specification: the same calls on a partial function.\<close>

fun map_step :: "'v \<Rightarrow> ('k, 'v) store_op \<Rightarrow> ('k \<rightharpoonup> 'v) \<Rightarrow> 'v store_ret \<times> ('k \<rightharpoonup> 'v)" where
  "map_step d (Insert k v) f = (Done, f(k \<mapsto> v))"
| "map_step d (Erase k) f = (Truth (f k \<noteq> None), f(k := None))"
| "map_step d (Find k) f = (Pointer (f k), f)"
| "map_step d (Contains k) f = (Truth (f k \<noteq> None), f)"
| "map_step d (Subscript k) f =
     (case f k of Some v \<Rightarrow> (Value v, f) | None \<Rightarrow> (Value d, f(k \<mapsto> d)))"
| "map_step d (Assign k v) f = (Done, f(k \<mapsto> v))"

fun map_run :: "'v \<Rightarrow> ('k, 'v) store_op list \<Rightarrow> ('k \<rightharpoonup> 'v) \<Rightarrow> 'v store_ret list \<times> ('k \<rightharpoonup> 'v)" where
  "map_run d [] f = ([], f)"
| "map_run d (c # cs) f =
     (let (r, f') = map_step d c f; (rs, f'') = map_run d cs f' in (r # rs, f''))"

text \<open>
  A call sequence that inserts fresh keys only, and the most keys it ever holds.
\<close>

fun inserts_fresh :: "'v \<Rightarrow> ('k, 'v) store_op list \<Rightarrow> ('k \<rightharpoonup> 'v) \<Rightarrow> bool" where
  "inserts_fresh d [] f = True"
| "inserts_fresh d (c # cs) f =
     ((case c of Insert k v \<Rightarrow> f k = None | _ \<Rightarrow> True) \<and> inserts_fresh d cs (snd (map_step d c f)))"

fun map_peak :: "'v \<Rightarrow> ('k, 'v) store_op list \<Rightarrow> ('k \<rightharpoonup> 'v) \<Rightarrow> nat" where
  "map_peak d [] f = card (dom f)"
| "map_peak d (c # cs) f = max (card (dom f)) (map_peak d cs (snd (map_step d c f)))"

locale keyed_store =
  fixes find :: "'k \<Rightarrow> 'm \<Rightarrow> 'v option res"
    and contains :: "'k \<Rightarrow> 'm \<Rightarrow> bool res"
    and erase :: "'k \<Rightarrow> 'm \<Rightarrow> (bool \<times> 'm) res"
    and subscript :: "'k \<Rightarrow> 'm \<Rightarrow> ('v \<times> 'm) res"
    and assign :: "'k \<Rightarrow> 'v \<Rightarrow> 'm \<Rightarrow> 'm res"
    and insert :: "'k \<Rightarrow> 'v \<Rightarrow> 'm \<Rightarrow> 'm res"
    and default :: 'v
    and lookup :: "'m \<Rightarrow> 'k \<rightharpoonup> 'v"
    and inv :: "'m \<Rightarrow> bool"
  assumes find_lookup: "inv m \<Longrightarrow> find k m = Inr (lookup m k)"
    and contains_lookup: "inv m \<Longrightarrow> contains k m = Inr (lookup m k \<noteq> None)"
    and erase_lookup: "inv m \<Longrightarrow> \<exists>m'. erase k m = Inr (lookup m k \<noteq> None, m') \<and> inv m' \<and>
      lookup m' = (lookup m)(k := None)"
    and subscript_hit: "inv m \<Longrightarrow> lookup m k = Some v \<Longrightarrow> subscript k m = Inr (v, m)"
    and subscript_miss: "inv m \<Longrightarrow> lookup m k = None \<Longrightarrow> subscript k m = Inr (v, m') \<Longrightarrow>
      v = default \<and> inv m' \<and> lookup m' = (lookup m)(k \<mapsto> default)"
    and assign_lookup: "inv m \<Longrightarrow> assign k v m = Inr m' \<Longrightarrow> inv m' \<and> lookup m' = (lookup m)(k \<mapsto> v)"
    and insert_fresh: "inv m \<Longrightarrow> lookup m k = None \<Longrightarrow> insert k v m = Inr m' \<Longrightarrow>
      inv m' \<and> lookup m' = (lookup m)(k \<mapsto> v)"
begin

text \<open>Every successful call whose \<open>insert\<close> is of a fresh key answers what the partial function answers.\<close>

lemma fresh_step_simulates:
  assumes "inv m" and "inserts_fresh default [c] (lookup m)"
    and "store_step \<lparr>so_find = find, so_contains = contains, so_erase = erase,
      so_subscript = subscript, so_assign = assign, so_insert = insert\<rparr> c m = Inr (r, m')"
  shows "inv m' \<and> map_step default c (lookup m) = (r, lookup m')"
proof (cases c)
  case (Subscript k)
  then obtain v where v: "subscript k m = Inr (v, m')" "r = Value v"
    using assms(3) by auto
  show ?thesis
  proof (cases "lookup m k")
    case None
    then show ?thesis using subscript_miss [OF assms(1) None v(1)] v Subscript by simp
  next
    case (Some w)
    then show ?thesis using subscript_hit [OF assms(1) Some] v Subscript assms(1) by simp
  qed
next
  case (Insert k v)
  then show ?thesis using assms insert_fresh [OF assms(1), of k v] by auto
next
  case (Assign k v)
  then show ?thesis using assms assign_lookup [OF assms(1), of k v] by auto
next
  case (Erase k)
  then show ?thesis using assms(3) erase_lookup [OF assms(1), of k] by auto
next
  case (Find k)
  then show ?thesis using assms find_lookup by auto
next
  case (Contains k)
  then show ?thesis using assms contains_lookup by auto
qed

lemma fresh_run_simulates:
  assumes "inv m" and "inserts_fresh default cs (lookup m)"
    and "store_run \<lparr>so_find = find, so_contains = contains, so_erase = erase,
      so_subscript = subscript, so_assign = assign, so_insert = insert\<rparr> cs m = Inr (rs, m')"
  shows "inv m' \<and> map_run default cs (lookup m) = (rs, lookup m')"
  using assms
proof (induction cs arbitrary: m rs)
  case (Cons c cs)
  let ?ops = "\<lparr>so_find = find, so_contains = contains, so_erase = erase,
      so_subscript = subscript, so_assign = assign, so_insert = insert\<rparr>"
  obtain r m1 rs' where step: "store_step ?ops c m = Inr (r, m1)"
    and run: "store_run ?ops cs m1 = Inr (rs', m')" and rs: "rs = r # rs'"
    using Cons.prems(3) by (auto simp del: store_step.simps)
  have "inserts_fresh default [c] (lookup m)" using Cons.prems(2) by simp
  then have "inv m1" and map: "map_step default c (lookup m) = (r, lookup m1)"
    using fresh_step_simulates [OF Cons.prems(1) _ step] by blast+
  then show ?case using Cons.IH [OF _ _ run] Cons.prems(2) rs by simp
qed simp

lemma erase_ok: "inv m \<Longrightarrow> erase k m = Inr (r, m') \<Longrightarrow>
    r = (lookup m k \<noteq> None) \<and> inv m' \<and> lookup m' = (lookup m)(k := None)"
  using erase_lookup [of m k] by auto

lemma erase_contains: "inv m \<Longrightarrow> erase k m = Inr (r, m') \<Longrightarrow> contains k m' = Inr False"
  using erase_ok contains_lookup by fastforce

lemma erase_other: "inv m \<Longrightarrow> k' \<noteq> k \<Longrightarrow> erase k m = Inr (r, m') \<Longrightarrow> find k' m' = find k' m"
  using erase_ok [of m k r m'] find_lookup by simp

lemma assign_find: "inv m \<Longrightarrow> assign k v m = Inr m' \<Longrightarrow> find k m' = Inr (Some v)"
  using assign_lookup [of m k v m'] find_lookup by simp

lemma assign_erase:
  assumes "inv m" and "lookup m k = None" and "assign k v m = Inr m1" and "erase k m1 = Inr (r, m2)"
  shows "lookup m2 = lookup m"
  using assign_lookup [OF assms(1,3)] erase_ok [OF _ assms(4)] assms(2) by auto

lemma subscript_contains:
  "inv m \<Longrightarrow> contains k m = Inr True \<Longrightarrow> \<exists>v. subscript k m = Inr (v, m) \<and> lookup m k = Some v"
  using subscript_hit contains_lookup by auto

end

text \<open>
  A map whose \<open>insert\<close> also replaces the value of a key that is there.
\<close>

locale overwriting_store = keyed_store +
  assumes insert_lookup: "inv m \<Longrightarrow> insert k v m = Inr m' \<Longrightarrow>
      inv m' \<and> lookup m' = (lookup m)(k \<mapsto> v)"
begin

lemma insert_insert:
  assumes "inv m" and "insert k v m = Inr m1" and "insert k w m1 = Inr m2"
  shows "lookup m2 = (lookup m)(k \<mapsto> w)"
  using insert_lookup [OF assms(1,2)] insert_lookup [OF _ assms(3)] by simp

text \<open>Every successful run answers what the partial function answers.\<close>

lemma step_simulates:
  assumes "inv m"
    and "store_step \<lparr>so_find = find, so_contains = contains, so_erase = erase,
      so_subscript = subscript, so_assign = assign, so_insert = insert\<rparr> c m = Inr (r, m')"
  shows "inv m' \<and> map_step default c (lookup m) = (r, lookup m')"
proof (cases "\<exists>k v. c = Insert k v")
  case True
  then show ?thesis using assms insert_lookup [OF assms(1)] by fastforce
next
  case False
  then have "inserts_fresh default [c] (lookup m)" by (cases c) simp_all
  then show ?thesis using fresh_step_simulates [OF assms(1) _ assms(2)] by blast
qed

lemma run_simulates:
  assumes "inv m"
    and "store_run \<lparr>so_find = find, so_contains = contains, so_erase = erase,
      so_subscript = subscript, so_assign = assign, so_insert = insert\<rparr> cs m = Inr (rs, m')"
  shows "inv m' \<and> map_run default cs (lookup m) = (rs, lookup m')"
  using assms
proof (induction cs arbitrary: m rs)
  case Nil
  then show ?case by simp
next
  case (Cons c cs)
  from Cons.prems(2) obtain r m1 rs1 where step: "store_step \<lparr>so_find = find, so_contains = contains,
      so_erase = erase, so_subscript = subscript, so_assign = assign, so_insert = insert\<rparr> c m = Inr (r, m1)"
    and rest: "store_run \<lparr>so_find = find, so_contains = contains, so_erase = erase,
      so_subscript = subscript, so_assign = assign, so_insert = insert\<rparr> cs m1 = Inr (rs1, m')"
    and rs: "rs = r # rs1"
    by auto
  show ?case
    using step_simulates [OF Cons.prems(1) step] Cons.IH [OF _ rest] rs by auto
qed

lemma insert_find:
  assumes "inv m" and "insert k v m = Inr m'"
  shows "find k' m' = (if k' = k then Inr (Some v) else find k' m)"
  using insert_lookup [OF assms] find_lookup assms(1) by simp

end

end
