(* ===== verification/ChainingMap.thy ===== *)
theory ChainingMap
  imports KeyedStore
begin

text \<open>
  \<open>ChainingHashMap\<close> of \<^verbatim>\<open>HFT/HashMap.hpp\<close> and \<open>ChainingHashTable\<close> of
  \<^verbatim>\<open>c++20/HashTables.cpp\<close>.  Both keep a vector of \<open>std::list\<close> buckets and differ in how a
  hash becomes an index: \<open>hash & mask\<close> in the first, \<open>hash % size\<close> in the second.  The loops
  over a bucket are shared; \<open>std::hash\<close>, whose values the standard leaves open, is the
  parameter \<open>hash\<close>.
\<close>

subsection \<open>Loops over one bucket\<close>

type_synonym ('k, 'v) bucket = "('k \<times> 'v) list"

fun bucket_find :: "'k \<Rightarrow> ('k, 'v) bucket \<Rightarrow> 'v option" where
  "bucket_find key [] = None"
| "bucket_find key (node # rest) = (if fst node = key then Some (snd node) else bucket_find key rest)"

text \<open>\<open>insert\<close>: replace the value of the first matching node, else \<open>emplace_back\<close>.\<close>

fun bucket_put :: "'k \<Rightarrow> 'v \<Rightarrow> ('k, 'v) bucket \<Rightarrow> ('k, 'v) bucket" where
  "bucket_put key value [] = [(key, value)]"
| "bucket_put key value (node # rest) =
     (if fst node = key then (fst node, value) # rest else node # bucket_put key value rest)"

text \<open>
  \<open>erase\<close>: once a matching node is found, \<open>std::list::remove(node)\<close> drops every node that
  \<open>operator==\<close> calls equal, which compares keys only.
\<close>

definition bucket_remove :: "'k \<Rightarrow> ('k, 'v) bucket \<Rightarrow> ('k, 'v) bucket" where
  "bucket_remove key b = filter (\<lambda>node. fst node \<noteq> key) b"

lemma bucket_find_map_of: "bucket_find key b = map_of b key"
  by (induction b) auto

lemma bucket_find_put: "bucket_find k' (bucket_put k v b) = (if k' = k then Some v else bucket_find k' b)"
  by (induction b) auto

lemma bucket_find_remove:
  "bucket_find k' (bucket_remove k b) = (if k' = k then None else bucket_find k' b)"
  by (induction b) (auto simp: bucket_remove_def)

lemma keys_bucket_put: "fst ` set (bucket_put k v b) = insert k (fst ` set b)"
  by (induction b) auto

lemma keys_bucket_remove: "fst ` set (bucket_remove k b) = fst ` set b - {k}"
  by (auto simp: bucket_remove_def)

lemma distinct_bucket_put: "distinct (map fst b) \<Longrightarrow> distinct (map fst (bucket_put k v b))"
proof (induction b)
  case (Cons node b)
  have "fst node \<noteq> k \<Longrightarrow> fst node \<notin> fst ` set (bucket_put k v b)"
    using Cons.prems by (simp add: keys_bucket_put)
  with Cons show ?case by auto
qed simp

lemma bucket_find_None_iff: "bucket_find k b = None \<longleftrightarrow> k \<notin> fst ` set b"
  by (simp add: bucket_find_map_of map_of_eq_None_iff)

subsection \<open>A vector of buckets\<close>

text \<open>The same operations on the bucket that \<open>idx\<close> selects for the key.\<close>

definition buckets_find :: "('k \<Rightarrow> nat) \<Rightarrow> 'k \<Rightarrow> ('k, 'v) bucket list \<Rightarrow> 'v option" where
  "buckets_find idx key t = bucket_find key (t ! idx key)"

definition buckets_put :: "('k \<Rightarrow> nat) \<Rightarrow> 'k \<Rightarrow> 'v \<Rightarrow> ('k, 'v) bucket list \<Rightarrow> ('k, 'v) bucket list" where
  "buckets_put idx key value t = t[idx key := bucket_put key value (t ! idx key)]"

definition buckets_erase :: "('k \<Rightarrow> nat) \<Rightarrow> 'k \<Rightarrow> ('k, 'v) bucket list \<Rightarrow> bool \<times> ('k, 'v) bucket list" where
  "buckets_erase idx key t =
     (case bucket_find key (t ! idx key) of
        None \<Rightarrow> (False, t)
      | Some _ \<Rightarrow> (True, t[idx key := bucket_remove key (t ! idx key)]))"

definition buckets_subscript ::
  "('k \<Rightarrow> nat) \<Rightarrow> 'v \<Rightarrow> 'k \<Rightarrow> ('k, 'v) bucket list \<Rightarrow> 'v \<times> ('k, 'v) bucket list" where
  "buckets_subscript idx dflt key t =
     (case bucket_find key (t ! idx key) of
        Some value \<Rightarrow> (value, t)
      | None \<Rightarrow> (dflt, t[idx key := t ! idx key @ [(key, dflt)]]))"

definition buckets_ok :: "('k \<Rightarrow> nat) \<Rightarrow> ('k, 'v) bucket list \<Rightarrow> bool" where
  "buckets_ok idx t \<longleftrightarrow> (\<forall>key. idx key < length t)"

lemma bucket_put_absent: "bucket_find k b = None \<Longrightarrow> bucket_put k v b = b @ [(k, v)]"
  by (induction b) (auto split: if_splits)

lemma buckets_find_put:
  "buckets_ok idx t \<Longrightarrow> buckets_find idx k' (buckets_put idx k v t)
    = (if k' = k then Some v else buckets_find idx k' t)"
  by (cases "idx k' = idx k")
    (auto simp: buckets_find_def buckets_put_def buckets_ok_def bucket_find_put)

lemma buckets_find_erase:
  "buckets_ok idx t \<Longrightarrow> buckets_find idx k' (snd (buckets_erase idx k t))
    = (if k' = k then None else buckets_find idx k' t)"
  by (cases "idx k' = idx k")
    (auto simp: buckets_find_def buckets_erase_def buckets_ok_def bucket_find_remove split: option.split)

lemma fst_buckets_erase: "fst (buckets_erase idx k t) \<longleftrightarrow> buckets_find idx k t \<noteq> None"
  by (simp add: buckets_erase_def buckets_find_def split: option.split)

lemma buckets_subscript_hit:
  "buckets_find idx k t = Some v \<Longrightarrow> buckets_subscript idx d k t = (v, t)"
  by (simp add: buckets_subscript_def buckets_find_def)

lemma buckets_subscript_miss:
  "buckets_find idx k t = None \<Longrightarrow> buckets_subscript idx d k t = (d, buckets_put idx k d t)"
  by (simp add: buckets_subscript_def buckets_find_def buckets_put_def bucket_put_absent)

lemma buckets_ok_update [simp]: "buckets_ok idx (t[i := b]) = buckets_ok idx t"
  by (simp add: buckets_ok_def)

lemma buckets_ok_put [simp]: "buckets_ok idx (buckets_put idx k v t) = buckets_ok idx t"
  by (simp add: buckets_put_def)

lemma buckets_ok_erase [simp]: "buckets_ok idx (snd (buckets_erase idx k t)) = buckets_ok idx t"
  by (simp add: buckets_erase_def split: option.split)

subsection \<open>ChainingHashMap of HFT/HashMap.hpp\<close>

record ('k, 'v) chm =
  chm_table :: "('k, 'v) bucket list"
  chm_mask :: u64

text \<open>The constructor, with \<open>Const::initBuckets\<close> as its parameter.\<close>

definition chm_new :: "u64 \<Rightarrow> ('k, 'v) chm res" where
  "chm_new initBuckets =
     (if initBuckets = 0 \<or> initBuckets AND (initBuckets - 1) \<noteq> 0
      then Inl (Throw ''initBuckets must be non-zero and a power of 2'')
      else Inr \<lparr>chm_table = replicate (unat initBuckets) [], chm_mask = initBuckets - 1\<rparr>)"

definition chm_index :: "('k \<Rightarrow> u64) \<Rightarrow> ('k, 'v) chm \<Rightarrow> 'k \<Rightarrow> nat" where
  "chm_index hash m key = unat (hash key AND chm_mask m)"

definition chm_subscript :: "('k \<Rightarrow> u64) \<Rightarrow> 'v \<Rightarrow> 'k \<Rightarrow> ('k, 'v) chm \<Rightarrow> ('v \<times> ('k, 'v) chm) res" where
  "chm_subscript hash dflt key m =
     (let (v, t) = buckets_subscript (chm_index hash m) dflt key (chm_table m)
      in Inr (v, m\<lparr>chm_table := t\<rparr>))"

definition chm_insert :: "('k \<Rightarrow> u64) \<Rightarrow> 'k \<Rightarrow> 'v \<Rightarrow> ('k, 'v) chm \<Rightarrow> ('k, 'v) chm res" where
  "chm_insert hash key value m =
     Inr (m\<lparr>chm_table := buckets_put (chm_index hash m) key value (chm_table m)\<rparr>)"

definition chm_contains :: "('k \<Rightarrow> u64) \<Rightarrow> 'k \<Rightarrow> ('k, 'v) chm \<Rightarrow> bool res" where
  "chm_contains hash key m = Inr (buckets_find (chm_index hash m) key (chm_table m) \<noteq> None)"

definition chm_erase :: "('k \<Rightarrow> u64) \<Rightarrow> 'k \<Rightarrow> ('k, 'v) chm \<Rightarrow> (bool \<times> ('k, 'v) chm) res" where
  "chm_erase hash key m =
     (let (r, t) = buckets_erase (chm_index hash m) key (chm_table m) in Inr (r, m\<lparr>chm_table := t\<rparr>))"

definition chm_find :: "('k \<Rightarrow> u64) \<Rightarrow> 'k \<Rightarrow> ('k, 'v) chm \<Rightarrow> 'v option res" where
  "chm_find hash key m = Inr (buckets_find (chm_index hash m) key (chm_table m))"

text \<open>\<open>m[key] = value\<close>: the reference \<open>operator[]\<close> answers is written.\<close>

definition chm_assign :: "('k \<Rightarrow> u64) \<Rightarrow> 'v \<Rightarrow> 'k \<Rightarrow> 'v \<Rightarrow> ('k, 'v) chm \<Rightarrow> ('k, 'v) chm res" where
  "chm_assign hash dflt key value m =
     bind_res (chm_subscript hash dflt key m) (\<lambda>(_, m'). chm_insert hash key value m')"

definition chm_inv :: "('k, 'v) chm \<Rightarrow> bool" where
  "chm_inv m \<longleftrightarrow> (\<exists>c. pow2_capacity c \<and> length (chm_table m) = unat c \<and> chm_mask m = c - 1)"

definition chm_lookup :: "('k \<Rightarrow> u64) \<Rightarrow> ('k, 'v) chm \<Rightarrow> 'k \<rightharpoonup> 'v" where
  "chm_lookup hash m = (\<lambda>key. buckets_find (chm_index hash m) key (chm_table m))"

text \<open>Every index is inside the table: \<open>hash & mask\<close> is below a power-of-two capacity.\<close>

lemma pow2_mask_index:
  assumes "pow2_capacity c"
  shows "unat (h AND (c - 1)) = unat h mod unat c" and "unat (h AND (c - 1)) < unat c"
proof -
  obtain k where k: "k < 64" "c = 2 ^ k" using assms by (rule pow2_capacityE)
  show eq: "unat (h AND (c - 1)) = unat h mod unat c"
    using k unat_and_mask [of k h] by (simp add: unat_pow2)
  show "unat (h AND (c - 1)) < unat c"
    unfolding eq using k by (intro mod_less_divisor) (simp add: unat_pow2)
qed

lemma chm_inv_ok: "chm_inv m \<Longrightarrow> buckets_ok (chm_index hash m) (chm_table m)"
  by (auto simp: chm_inv_def buckets_ok_def chm_index_def pow2_mask_index(2))

lemma chm_index_table [simp]: "chm_index hash (m\<lparr>chm_table := t\<rparr>) = chm_index hash m"
  by (simp add: chm_index_def fun_eq_iff)

lemma chm_inv_put [simp]:
  "chm_inv (m\<lparr>chm_table := buckets_put idx k v (chm_table m)\<rparr>) = chm_inv m"
  "chm_inv (m\<lparr>chm_table := snd (buckets_erase idx k (chm_table m))\<rparr>) = chm_inv m"
  by (simp_all add: chm_inv_def buckets_put_def buckets_erase_def split: option.split)

lemma chm_insert_ok:
  assumes "chm_inv m" and "chm_insert hash k v m = Inr m'"
  shows "chm_inv m' \<and> chm_lookup hash m' = (chm_lookup hash m)(k \<mapsto> v)"
  using assms chm_inv_ok [OF assms(1)]
  by (auto simp: chm_insert_def chm_lookup_def buckets_find_put fun_eq_iff)

lemma chm_erase_ok:
  assumes "chm_inv m"
  shows "\<exists>m'. chm_erase hash k m = Inr (chm_lookup hash m k \<noteq> None, m') \<and> chm_inv m' \<and>
    chm_lookup hash m' = (chm_lookup hash m)(k := None)"
  using assms chm_inv_ok [OF assms]
  by (simp add: chm_erase_def chm_lookup_def buckets_find_erase fst_buckets_erase fun_eq_iff
      case_prod_beta Let_def)

lemma chm_subscript_eq:
  "chm_subscript hash d k m =
     (case chm_lookup hash m k of
        Some v \<Rightarrow> Inr (v, m)
      | None \<Rightarrow> Inr (d, m\<lparr>chm_table := buckets_put (chm_index hash m) k d (chm_table m)\<rparr>))"
  by (simp add: chm_subscript_def chm_lookup_def buckets_subscript_hit buckets_subscript_miss
      split: option.split)

lemma chm_subscript_ok:
  assumes "chm_inv m" and "chm_subscript hash d k m = Inr (v, m')"
  shows "chm_inv m' \<and> v = (case chm_lookup hash m k of None \<Rightarrow> d | Some w \<Rightarrow> w) \<and>
    chm_lookup hash m' = (chm_lookup hash m)(k \<mapsto> v)"
  using assms chm_inv_ok [OF assms(1)]
  by (auto simp: chm_subscript_eq buckets_find_put fun_eq_iff chm_lookup_def split: option.splits)

lemma chm_assign_ok:
  assumes "chm_inv m" and "chm_assign hash d k v m = Inr m'"
  shows "chm_inv m' \<and> chm_lookup hash m' = (chm_lookup hash m)(k \<mapsto> v)"
proof -
  obtain w m1 where s: "chm_subscript hash d k m = Inr (w, m1)" and i: "chm_insert hash k v m1 = Inr m'"
    using assms(2) by (auto simp: chm_assign_def)
  show ?thesis
    using chm_insert_ok [OF _ i] chm_subscript_ok [OF assms(1) s] by auto
qed

lemma chm_find_lookup: "chm_find hash k m = Inr (chm_lookup hash m k)"
  by (simp add: chm_find_def chm_lookup_def)

lemma chm_contains_lookup: "chm_contains hash k m = Inr (chm_lookup hash m k \<noteq> None)"
  by (simp add: chm_contains_def chm_lookup_def)

lemma chm_subscript_hit: "chm_lookup hash m k = Some v \<Longrightarrow> chm_subscript hash d k m = Inr (v, m)"
  by (simp add: chm_subscript_eq)

interpretation chm: overwriting_store "chm_find hash" "chm_contains hash" "chm_erase hash"
  "chm_subscript hash d" "chm_assign hash d" "chm_insert hash" d "chm_lookup hash" chm_inv
  for hash :: "'k \<Rightarrow> u64" and d :: 'v
  by unfold_locales
    (auto simp: chm_find_lookup chm_contains_lookup chm_erase_ok chm_subscript_hit
      simp del: not_None_eq dest: chm_insert_ok chm_assign_ok chm_subscript_ok)

lemma chm_new_inv: "chm_new c = Inr m \<Longrightarrow> chm_inv m \<and> chm_lookup hash m = Map.empty"
  by (auto simp: chm_new_def chm_inv_def pow2_capacity_def chm_lookup_def buckets_find_def
      chm_index_def fun_eq_iff pow2_mask_index(2) split: if_splits)

subsection \<open>ChainingHashTable of c++20/HashTables.cpp\<close>

text \<open>
  The table is the whole state.  \<open>hash % table_.size()\<close> divides by zero on a table of size 0,
  which the constructor does not exclude.
\<close>

type_synonym ('k, 'v) cht = "('k, 'v) bucket list"

definition cht_new :: "u64 \<Rightarrow> ('k, 'v) cht" where
  "cht_new n = replicate (unat n) []"

definition cht_index :: "('k \<Rightarrow> u64) \<Rightarrow> ('k, 'v) cht \<Rightarrow> 'k \<Rightarrow> nat" where
  "cht_index hash t key = unat (hash key) mod length t"

definition cht_insert :: "('k \<Rightarrow> u64) \<Rightarrow> 'k \<Rightarrow> 'v \<Rightarrow> ('k, 'v) cht \<Rightarrow> ('k, 'v) cht res" where
  "cht_insert hash key value t =
     (if length t = 0 then Inl (UB DivisionByZero) else Inr (buckets_put (cht_index hash t) key value t))"

definition cht_contains :: "('k \<Rightarrow> u64) \<Rightarrow> 'k \<Rightarrow> ('k, 'v) cht \<Rightarrow> bool res" where
  "cht_contains hash key t =
     (if length t = 0 then Inl (UB DivisionByZero) else Inr (buckets_find (cht_index hash t) key t \<noteq> None))"

definition cht_remove :: "('k \<Rightarrow> u64) \<Rightarrow> 'k \<Rightarrow> ('k, 'v) cht \<Rightarrow> (bool \<times> ('k, 'v) cht) res" where
  "cht_remove hash key t =
     (if length t = 0 then Inl (UB DivisionByZero) else Inr (buckets_erase (cht_index hash t) key t))"

definition cht_find :: "('k \<Rightarrow> u64) \<Rightarrow> 'k \<Rightarrow> ('k, 'v) cht \<Rightarrow> 'v option res" where
  "cht_find hash key t =
     (if length t = 0 then Inl (UB DivisionByZero) else Inr (buckets_find (cht_index hash t) key t))"

lemma cht_chm_index:
  assumes "chm_inv m"
  shows "cht_index hash (chm_table m) = chm_index hash m" and "length (chm_table m) \<noteq> 0"
  using assms
  by (auto simp: chm_inv_def cht_index_def chm_index_def pow2_mask_index(1) fun_eq_iff
      pow2_capacity_def unat_eq_0)

subsection \<open>Properties\<close>

definition chm_ops :: "('k \<Rightarrow> u64) \<Rightarrow> 'v \<Rightarrow> ('k, 'v, ('k, 'v) chm) store_ops" where
  "chm_ops hash d = \<lparr>so_find = chm_find hash, so_contains = chm_contains hash, so_erase = chm_erase hash,
     so_subscript = chm_subscript hash d, so_assign = chm_assign hash d, so_insert = chm_insert hash\<rparr>"

lemma chm_step_total: "\<exists>r m'. store_step (chm_ops hash d) c m = Inr (r, m')"
proof (cases c)
  case (Subscript k)
  then show ?thesis by (simp add: chm_ops_def chm_subscript_eq split: option.split)
next
  case (Assign k v)
  then show ?thesis
    by (simp add: chm_ops_def chm_assign_def chm_subscript_eq chm_insert_def split: option.split)
qed (auto simp: chm_ops_def chm_insert_def chm_erase_def chm_find_def chm_contains_def split: prod.split)

lemma chm_run_total: "\<exists>rs m'. store_run (chm_ops hash d) cs m = Inr (rs, m')"
proof (induction cs arbitrary: m)
  case (Cons c cs)
  obtain r m1 where "store_step (chm_ops hash d) c m = Inr (r, m1)"
    using chm_step_total [of hash d c m] by blast
  moreover obtain rs m' where "store_run (chm_ops hash d) cs m1 = Inr (rs, m')"
    using Cons.IH [of m1] by blast
  ultimately show ?case by simp
qed simp

text \<open>
  Claim C4.  \<open>ChainingHashMap\<close> is a map.  For every hash function, every accepted bucket count and
  every sequence of calls on a new table, each call answers what a partial function answers,
  no call fails, and the final table represents the final partial function.
\<close>

theorem chm_simulates_map:
  assumes "chm_new c = Inr m"
  shows "\<exists>rs m'. store_run (chm_ops hash d) cs m = Inr (rs, m') \<and>
    map_run d cs Map.empty = (rs, chm_lookup hash m')"
proof -
  obtain rs m' where run: "store_run (chm_ops hash d) cs m = Inr (rs, m')"
    using chm_run_total [of hash d cs m] by blast
  have inv: "chm_inv m" and "chm_lookup hash m = Map.empty"
    using chm_new_inv [OF assms] by blast+
  then show ?thesis
    using chm.run_simulates [OF inv run [unfolded chm_ops_def]] run by auto
qed

definition hash_u64 :: "u64 \<Rightarrow> u64" where
  "hash_u64 k = k"

theorem chm_simulates_map_witness:
  "\<exists>rs m'. store_run (chm_ops hash_u64 (0 :: nat)) [Insert 1 10, Insert 5 50, Insert 1 11, Find 1, Erase 5, Contains 5]
      \<lparr>chm_table = replicate 4 [], chm_mask = 3\<rparr> = Inr (rs, m') \<and>
    map_run 0 [Insert 1 10, Insert 5 50, Insert 1 11, Find 1, Erase 5, Contains 5] Map.empty
      = (rs, chm_lookup hash_u64 m')"
  by (rule chm_simulates_map [where c = 4]) (simp add: chm_new_def)

text \<open>
  Claim C5.  The two chaining tables of the repository agree: on a table of the same power-of-two
  size, \<open>ChainingHashTable\<close> (\<open>%\<close> indexing) and \<open>ChainingHashMap\<close> (mask indexing) answer the same
  and leave the same buckets, for every operation.
\<close>

theorem cht_agrees_with_chm:
  assumes "chm_inv m"
  shows "cht_find hash k (chm_table m) = chm_find hash k m \<and>
    cht_contains hash k (chm_table m) = chm_contains hash k m \<and>
    cht_insert hash k v (chm_table m) = map_sum id chm_table (chm_insert hash k v m) \<and>
    cht_remove hash k (chm_table m) = map_sum id (map_prod id chm_table) (chm_erase hash k m)"
  using cht_chm_index [OF assms]
  by (auto simp: cht_find_def chm_find_def cht_contains_def chm_contains_def cht_insert_def
      chm_insert_def cht_remove_def chm_erase_def split: prod.splits)

theorem cht_agrees_with_chm_witness:
  "cht_find hash_u64 6 [[], [], [(6 :: u64, ''six'')], []]
     = chm_find hash_u64 6 \<lparr>chm_table = [[], [], [(6, ''six'')], []], chm_mask = 3\<rparr>"
proof -
  have "chm_inv \<lparr>chm_table = [[], [], [(6 :: u64, ''six'')], []], chm_mask = 3\<rparr>"
    unfolding chm_inv_def by (rule exI [of _ 4]) (simp add: pow2_capacity_def)
  from cht_agrees_with_chm [OF this, of hash_u64 6] show ?thesis by simp
qed

end
