(* ===== verification/OpenAddressing.thy ===== *)
theory OpenAddressing
  imports ChainingMap Floats
begin

text \<open>
  \<open>OpenAddressingHashMap\<close> of \<^verbatim>\<open>HFT/HashMap.hpp\<close>: linear probing with tombstones, growing
  by a factor of two.  The theory shows when it is a map (until a key that is there is put back
  over a tombstone) and what happens then.

  A loop that could go round the table for ever is given as many steps as the table has slots:
  the next index depends on the index alone, so after that many steps it repeats.
\<close>

subsection \<open>State and operations\<close>

datatype status = EMPTY | OCCUPIED | DELETED

record ('k, 'v) slot =
  s_key :: 'k
  s_value :: 'v
  s_status :: status

record ('k, 'v) oam =
  oa_table :: "('k, 'v) slot list"
  oa_size :: nat
  oa_mask :: u64

definition oa_blank :: "'k \<Rightarrow> 'v \<Rightarrow> ('k, 'v) slot" where
  "oa_blank dk dv = \<lparr>s_key = dk, s_value = dv, s_status = EMPTY\<rparr>"

text \<open>The constructor; unlike the other maps it accepts any bucket count.\<close>

definition oa_new :: "'k \<Rightarrow> 'v \<Rightarrow> u64 \<Rightarrow> ('k, 'v) oam" where
  "oa_new dk dv initBuckets =
     \<lparr>oa_table = replicate (unat initBuckets) (oa_blank dk dv), oa_size = 0, oa_mask = initBuckets - 1\<rparr>"

text \<open>
  \<open>(size_ + 1) > table_.size() * maxLoadFactor_\<close> in \<open>float\<close>: both integers are rounded to 24
  bits, and so is the product with \<open>0.7f\<close>, which is \<open>11744051 / 2^24\<close>.
\<close>

definition oa_overloaded :: "nat \<Rightarrow> nat \<Rightarrow> bool" where
  "oa_overloaded used n \<longleftrightarrow>
     round_even 24 (used + 1) * 2 ^ 24 > round_even 24 (round_even 24 n * 11744051)"

definition oa_hash :: "('k \<Rightarrow> u64) \<Rightarrow> ('k, 'v) oam \<Rightarrow> 'k \<Rightarrow> u64" where
  "oa_hash hash m key = hash key AND oa_mask m"

text \<open>The loop of \<open>insert\<close>: to the first slot that is free or has the key.\<close>

fun oa_claim :: "('k, 'v) slot list \<Rightarrow> u64 \<Rightarrow> 'k \<Rightarrow> nat \<Rightarrow> u64 \<Rightarrow> nat res" where
  "oa_claim t msk key 0 index = Inl Diverges"
| "oa_claim t msk key (Suc fuel) index =
     (if length t \<le> unat index then Inl (UB OutOfBounds)
      else if s_status (t ! unat index) \<noteq> OCCUPIED \<or> s_key (t ! unat index) = key then Inr (unat index)
      else oa_claim t msk key fuel ((index + 1) AND msk))"

text \<open>The loop of \<open>contains\<close>, \<open>erase\<close> and \<open>find\<close>.\<close>

fun oa_search :: "('k, 'v) slot list \<Rightarrow> u64 \<Rightarrow> 'k \<Rightarrow> u64 \<Rightarrow> nat \<Rightarrow> u64 \<Rightarrow> nat option res" where
  "oa_search t msk key originalIndex 0 index = Inl Diverges"
| "oa_search t msk key originalIndex (Suc fuel) index =
     (if length t \<le> unat index then Inl (UB OutOfBounds)
      else let node = t ! unat index; next = (index + 1) AND msk
        in if s_status node = EMPTY then Inr None
           else if s_status node = OCCUPIED \<and> s_key node = key then Inr (Some (unat index))
           else if next = originalIndex then Inr None
           else oa_search t msk key originalIndex fuel next)"

text \<open>The loop of \<open>operator[]\<close>, up to the slot it stops at.\<close>

fun oa_subscript_slot :: "('k, 'v) slot list \<Rightarrow> u64 \<Rightarrow> 'k \<Rightarrow> u64 \<Rightarrow> nat \<Rightarrow> u64 \<Rightarrow> nat res" where
  "oa_subscript_slot t msk key originalIndex 0 index = Inl Diverges"
| "oa_subscript_slot t msk key originalIndex (Suc fuel) index =
     (if length t \<le> unat index then Inl (UB OutOfBounds)
      else let node = t ! unat index; next = (index + 1) AND msk
        in if s_status node = EMPTY \<or> s_status node = DELETED then Inr (unat index)
           else if s_key node = key then Inr (unat index)
           else if next = originalIndex then Inl (Throw ''HashMap is full'')
           else oa_subscript_slot t msk key originalIndex fuel next)"

text \<open>Filling a free slot.\<close>

definition oa_fill :: "nat \<Rightarrow> 'k \<Rightarrow> 'v \<Rightarrow> ('k, 'v) oam \<Rightarrow> ('k, 'v) oam" where
  "oa_fill p key value m =
     m\<lparr>oa_table := (oa_table m)[p := \<lparr>s_key = key, s_value = value, s_status = OCCUPIED\<rparr>],
       oa_size := oa_size m + 1\<rparr>"

definition oa_write :: "nat \<Rightarrow> 'v \<Rightarrow> ('k, 'v) oam \<Rightarrow> ('k, 'v) oam" where
  "oa_write p value m = m\<lparr>oa_table := (oa_table m)[p := (oa_table m ! p)\<lparr>s_value := value\<rparr>]\<rparr>"

text \<open>\<open>insert\<close> after its load check.\<close>

definition oa_place :: "('k \<Rightarrow> u64) \<Rightarrow> 'k \<Rightarrow> 'v \<Rightarrow> ('k, 'v) oam \<Rightarrow> ('k, 'v) oam res" where
  "oa_place hash key value m =
     bind_res (oa_claim (oa_table m) (oa_mask m) key (length (oa_table m)) (oa_hash hash m key)) (\<lambda>p.
       Inr (if s_status (oa_table m ! p) = OCCUPIED then oa_write p value m else oa_fill p key value m))"

text \<open>
  \<open>reHash\<close> re-inserts the occupied nodes into a fresh table with \<open>insert\<close>, which checks the load
  again; \<open>depth\<close> bounds that recursion and 2 is enough (\<open>oa_rehash_ok\<close>).
\<close>

fun oa_reinsert :: "('k \<Rightarrow> 'v \<Rightarrow> ('k, 'v) oam \<Rightarrow> ('k, 'v) oam res) \<Rightarrow> ('k, 'v) slot list
    \<Rightarrow> ('k, 'v) oam \<Rightarrow> ('k, 'v) oam res" where
  "oa_reinsert ins [] m = Inr m"
| "oa_reinsert ins (node # nodes) m =
     (if s_status node = OCCUPIED
      then bind_res (ins (s_key node) (s_value node) m) (oa_reinsert ins nodes)
      else oa_reinsert ins nodes m)"

definition oa_doubled :: "'k \<Rightarrow> 'v \<Rightarrow> ('k, 'v) oam \<Rightarrow> ('k, 'v) oam" where
  "oa_doubled dk dv m =
     (let newSize = length (oa_table m) * 2
      in \<lparr>oa_table = replicate newSize (oa_blank dk dv), oa_size = 0, oa_mask = of_nat newSize - 1\<rparr>)"

fun oa_insert_rec :: "('k \<Rightarrow> u64) \<Rightarrow> 'k \<Rightarrow> 'v \<Rightarrow> nat \<Rightarrow> 'k \<Rightarrow> 'v \<Rightarrow> ('k, 'v) oam \<Rightarrow> ('k, 'v) oam res" where
  "oa_insert_rec hash dk dv 0 key value m = Inl Diverges"
| "oa_insert_rec hash dk dv (Suc depth) key value m =
     bind_res
       (if oa_overloaded (oa_size m) (length (oa_table m))
        then oa_reinsert (oa_insert_rec hash dk dv depth) (oa_table m) (oa_doubled dk dv m)
        else Inr m)
       (oa_place hash key value)"

definition oa_insert :: "('k \<Rightarrow> u64) \<Rightarrow> 'k \<Rightarrow> 'v \<Rightarrow> 'k \<Rightarrow> 'v \<Rightarrow> ('k, 'v) oam \<Rightarrow> ('k, 'v) oam res" where
  "oa_insert hash dk dv = oa_insert_rec hash dk dv 2"

definition oa_rehash :: "('k \<Rightarrow> u64) \<Rightarrow> 'k \<Rightarrow> 'v \<Rightarrow> ('k, 'v) oam \<Rightarrow> ('k, 'v) oam res" where
  "oa_rehash hash dk dv m = oa_reinsert (oa_insert hash dk dv) (oa_table m) (oa_doubled dk dv m)"

definition oa_contains :: "('k \<Rightarrow> u64) \<Rightarrow> 'k \<Rightarrow> ('k, 'v) oam \<Rightarrow> bool res" where
  "oa_contains hash key m =
     bind_res (oa_search (oa_table m) (oa_mask m) key (oa_hash hash m key) (length (oa_table m)) (oa_hash hash m key))
       (\<lambda>p. Inr (p \<noteq> None))"

definition oa_find :: "('k \<Rightarrow> u64) \<Rightarrow> 'k \<Rightarrow> ('k, 'v) oam \<Rightarrow> 'v option res" where
  "oa_find hash key m =
     bind_res (oa_search (oa_table m) (oa_mask m) key (oa_hash hash m key) (length (oa_table m)) (oa_hash hash m key))
       (\<lambda>p. Inr (map_option (\<lambda>i. s_value (oa_table m ! i)) p))"

definition oa_erase :: "('k \<Rightarrow> u64) \<Rightarrow> 'k \<Rightarrow> ('k, 'v) oam \<Rightarrow> (bool \<times> ('k, 'v) oam) res" where
  "oa_erase hash key m =
     bind_res (oa_search (oa_table m) (oa_mask m) key (oa_hash hash m key) (length (oa_table m)) (oa_hash hash m key))
       (\<lambda>p. case p of
          None \<Rightarrow> Inr (False, m)
        | Some i \<Rightarrow> Inr (True, m\<lparr>oa_table := (oa_table m)[i := (oa_table m ! i)\<lparr>s_status := DELETED\<rparr>],
                                 oa_size := oa_size m - 1\<rparr>))"

text \<open>\<open>operator[]\<close>: the slot it answers a reference to; it calls itself again after a rehash.\<close>

fun oa_subscript_rec :: "('k \<Rightarrow> u64) \<Rightarrow> 'k \<Rightarrow> 'v \<Rightarrow> nat \<Rightarrow> 'k \<Rightarrow> ('k, 'v) oam \<Rightarrow> (nat \<times> ('k, 'v) oam) res" where
  "oa_subscript_rec hash dk dv 0 key m = Inl Diverges"
| "oa_subscript_rec hash dk dv (Suc depth) key m =
     bind_res (oa_subscript_slot (oa_table m) (oa_mask m) key (oa_hash hash m key)
         (length (oa_table m)) (oa_hash hash m key))
       (\<lambda>p. if s_status (oa_table m ! p) = OCCUPIED then Inr (p, m)
            else if oa_overloaded (oa_size m) (length (oa_table m))
            then bind_res (oa_rehash hash dk dv m) (oa_subscript_rec hash dk dv depth key)
            else Inr (p, oa_fill p key dv m))"

definition oa_subscript :: "('k \<Rightarrow> u64) \<Rightarrow> 'k \<Rightarrow> 'v \<Rightarrow> 'k \<Rightarrow> ('k, 'v) oam \<Rightarrow> ('v \<times> ('k, 'v) oam) res" where
  "oa_subscript hash dk dv key m =
     bind_res (oa_subscript_rec hash dk dv 2 key m) (\<lambda>(p, m'). Inr (s_value (oa_table m' ! p), m'))"

definition oa_assign :: "('k \<Rightarrow> u64) \<Rightarrow> 'k \<Rightarrow> 'v \<Rightarrow> 'k \<Rightarrow> 'v \<Rightarrow> ('k, 'v) oam \<Rightarrow> ('k, 'v) oam res" where
  "oa_assign hash dk dv key value m =
     bind_res (oa_subscript_rec hash dk dv 2 key m) (\<lambda>(p, m'). Inr (oa_write p value m'))"

declare oa_insert_rec.simps [simp del]

subsection \<open>The load check\<close>

lemma oa_room:
  assumes "\<not> oa_overloaded used (2 ^ k)"
  shows "used + 1 < 2 ^ k"
proof (rule ccontr)
  assume "\<not> used + 1 < 2 ^ k"
  then have "round_even 24 (2 ^ k) \<le> round_even 24 (used + 1)" by (intro round_even_mono) simp_all
  then have "2 ^ k * 2 ^ 24 \<le> round_even 24 (used + 1) * 2 ^ 24"
    by (intro mult_right_mono) (simp_all add: round_even_pow2)
  moreover have "round_even 24 (11744051 * 2 ^ k) = 11744051 * 2 ^ k" by (rule round_even_exact) simp
  then have "round_even 24 (round_even 24 (2 ^ k) * 11744051) < 2 ^ k * 2 ^ 24"
    by (simp add: round_even_pow2 ac_simps)
  ultimately show False using assms by (simp add: oa_overloaded_def)
qed

lemma oa_load_bound:
  assumes "oa_overloaded used (2 ^ k)" and "used + 1 \<le> 2 ^ j"
  shows "k \<le> j"
proof (rule ccontr)
  assume "\<not> k \<le> j"
  then have "(2 :: nat) ^ (j + 1) \<le> 2 ^ k" by (intro power_increasing) simp_all
  then have "2 * 2 ^ j * 11744051 \<le> 11744051 * (2 :: nat) ^ k" by simp
  moreover have "round_even 24 (11744051 * 2 ^ k) = 11744051 * 2 ^ k" by (rule round_even_exact) simp
  moreover have "round_even 24 (used + 1) \<le> 2 ^ j"
    using round_even_mono [OF assms(2), of 24] by (simp add: round_even_pow2)
  then have "round_even 24 (used + 1) * 2 ^ 24 \<le> 2 ^ j * 2 ^ 24" by (intro mult_right_mono) simp_all
  ultimately show False using assms(1) by (simp add: oa_overloaded_def round_even_pow2 ac_simps)
qed

text \<open>The table a rehash fills cannot overload again: it holds at most half its slots.\<close>

lemma oa_half_full: "used + 1 \<le> 2 ^ k \<Longrightarrow> \<not> oa_overloaded used (2 ^ (k + 1))"
  using oa_load_bound [of used "k + 1" k] by auto

subsection \<open>Probing\<close>

definition oa_pos :: "nat \<Rightarrow> nat \<Rightarrow> nat \<Rightarrow> nat" where
  "oa_pos n h j = (h + j) mod n"

text \<open>
  \<open>oa_shape k m\<close>: \<open>2 ^ k\<close> slots and the matching mask.  On it the index after \<open>j\<close> steps is
  \<open>oa_pos (2 ^ k) h j\<close>.
\<close>

definition oa_shape :: "nat \<Rightarrow> ('k, 'v) oam \<Rightarrow> bool" where
  "oa_shape k m \<longleftrightarrow> k \<le> 64 \<and> length (oa_table m) = 2 ^ k \<and> oa_mask m = 2 ^ k - 1"

definition oa_home :: "('k \<Rightarrow> u64) \<Rightarrow> nat \<Rightarrow> 'k \<Rightarrow> nat" where
  "oa_home hash k key = unat (hash key) mod 2 ^ k"

lemma oa_hash_home: "oa_shape k m \<Longrightarrow> unat (oa_hash hash m key) = oa_pos (2 ^ k) (oa_home hash k key) 0"
  by (simp add: oa_shape_def oa_hash_def oa_home_def oa_pos_def unat_and_mask)

lemma oa_pos_Suc: "oa_pos n h (Suc j) = (oa_pos n h j + 1) mod n"
  by (simp add: oa_pos_def mod_Suc_eq)

lemma oa_next_pos:
  assumes "k \<le> 64" and "unat (index :: u64) = oa_pos (2 ^ k) h j"
  shows "unat ((index + 1) AND (2 ^ k - 1)) = oa_pos (2 ^ k) h (Suc j)"
  using assms mod_pow2_add_wrap [OF assms(1), of index 1]
  by (simp add: unat_and_mask oa_pos_Suc)

lemma oa_pos_less [simp]: "0 < n \<Longrightarrow> oa_pos n h j < n"
  by (simp add: oa_pos_def)

lemma oa_pos_not_ge [simp]: "\<not> 2 ^ k \<le> oa_pos (2 ^ k) h j"
  by (simp add: not_le)

lemma oa_pos_inj: "oa_pos n h i = oa_pos n h j \<Longrightarrow> i < n \<Longrightarrow> j < n \<Longrightarrow> i = j"
proof (induction i j rule: linorder_wlog)
  case (le i j)
  then have "n dvd (h + j) - (h + i)"
    by (metis add_le_cancel_left mod_eq_dvd_iff_nat oa_pos_def)
  then show ?case using le by (auto dest: dvd_imp_le)
qed simp

text \<open>Every slot is on every probe sequence.\<close>

lemma oa_pos_surj:
  assumes "p < n"
  obtains j where "j < n" and "oa_pos n h j = p"
proof
  let ?j = "(p + (n - h mod n)) mod n"
  show "?j < n" using assms by simp
  have "h mod n < n" using assms by simp
  have "(h + ?j) mod n = (h mod n + (p + (n - h mod n))) mod n" by (simp add: mod_simps)
  also have "h mod n + (p + (n - h mod n)) = p + n" using \<open>h mod n < n\<close> by simp
  finally show "oa_pos n h ?j = p" using assms by (simp add: oa_pos_def)
qed

text \<open>\<open>oa_at k m h j\<close>: the slot after \<open>j\<close> steps from home index \<open>h\<close>.\<close>

definition oa_at :: "nat \<Rightarrow> ('k, 'v) oam \<Rightarrow> nat \<Rightarrow> nat \<Rightarrow> ('k, 'v) slot" where
  "oa_at k m h j = oa_table m ! oa_pos (2 ^ k) h j"

lemma oa_claim_from:
  assumes "oa_shape k m" and "unat index = oa_pos (2 ^ k) h i" and "d < fuel"
    and "\<And>j. i \<le> j \<Longrightarrow> j < i + d \<Longrightarrow> s_status (oa_at k m h j) = OCCUPIED \<and> s_key (oa_at k m h j) \<noteq> key"
    and "s_status (oa_at k m h (i + d)) \<noteq> OCCUPIED \<or> s_key (oa_at k m h (i + d)) = key"
  shows "oa_claim (oa_table m) (oa_mask m) key fuel index = Inr (oa_pos (2 ^ k) h (i + d))"
  using assms(2-5)
proof (induction d arbitrary: i index fuel)
  case 0
  then show ?case using assms(1) by (cases fuel) (simp_all add: oa_shape_def oa_at_def)
next
  case (Suc d)
  obtain f where f: "fuel = Suc f" using Suc.prems(2) by (cases fuel) simp_all
  have "unat ((index + 1) AND oa_mask m) = oa_pos (2 ^ k) h (Suc i)"
    using oa_next_pos [OF _ Suc.prems(1)] assms(1) by (simp add: oa_shape_def)
  moreover have "d < f" using Suc.prems(2) f by simp
  ultimately have "oa_claim (oa_table m) (oa_mask m) key f ((index + 1) AND oa_mask m)
      = Inr (oa_pos (2 ^ k) h (Suc i + d))"
    using Suc.prems(3,4) by (intro Suc.IH) simp_all
  moreover have "s_status (oa_at k m h i) = OCCUPIED \<and> s_key (oa_at k m h i) \<noteq> key"
    using Suc.prems(3) [of i] by simp
  ultimately show ?case
    using assms(1) Suc.prems(1) f by (simp add: oa_shape_def oa_at_def)
qed

lemma oa_claim_stops:
  assumes shape: "oa_shape k m" and "d < 2 ^ k"
    and "\<And>j. j < d \<Longrightarrow> s_status (oa_at k m (oa_home hash k key) j) = OCCUPIED \<and>
      s_key (oa_at k m (oa_home hash k key) j) \<noteq> key"
    and "s_status (oa_at k m (oa_home hash k key) d) \<noteq> OCCUPIED \<or>
      s_key (oa_at k m (oa_home hash k key) d) = key"
  shows "oa_claim (oa_table m) (oa_mask m) key (length (oa_table m)) (oa_hash hash m key)
    = Inr (oa_pos (2 ^ k) (oa_home hash k key) d)"
  using oa_claim_from [OF shape oa_hash_home [OF shape], where d = d and fuel = "2 ^ k" and key = key] assms
  by (simp add: oa_shape_def)

text \<open>The search loop comes back to its first index after a full round.\<close>

lemma oa_round:
  assumes "oa_shape k m" and "unat index = oa_pos (2 ^ k) h i" and "unat orig = oa_pos (2 ^ k) h 0"
    and "i < 2 ^ k"
  shows "(index + 1) AND oa_mask m = orig \<longleftrightarrow> Suc i = 2 ^ k"
proof -
  have next_pos: "unat ((index + 1) AND oa_mask m) = oa_pos (2 ^ k) h (Suc i)"
    using oa_next_pos [OF _ assms(2)] assms(1) by (simp add: oa_shape_def)
  have wrap: "oa_pos (2 ^ k) h (2 ^ k) = oa_pos (2 ^ k) h 0" by (simp add: oa_pos_def)
  have "oa_pos (2 ^ k) h (Suc i) = oa_pos (2 ^ k) h 0 \<longleftrightarrow> Suc i = 2 ^ k"
    using assms(4) oa_pos_inj [of "2 ^ k" h "Suc i" 0] wrap
    by (metis Suc_lessI nat.distinct(1) zero_less_numeral zero_less_power)
  then show ?thesis using next_pos assms(3) by (metis word_unat_eq_iff)
qed

lemma oa_search_from:
  assumes "oa_shape k m" and "unat orig = oa_pos (2 ^ k) h 0"
    and "unat index = oa_pos (2 ^ k) h i" and "d < fuel" and "i + d < 2 ^ k"
    and "\<And>j. i \<le> j \<Longrightarrow> j < i + d \<Longrightarrow> s_status (oa_at k m h j) \<noteq> EMPTY \<and>
      \<not> (s_status (oa_at k m h j) = OCCUPIED \<and> s_key (oa_at k m h j) = key)"
    and "s_status (oa_at k m h (i + d)) = EMPTY \<or> Suc (i + d) = 2 ^ k \<or>
      s_status (oa_at k m h (i + d)) = OCCUPIED \<and> s_key (oa_at k m h (i + d)) = key"
  shows "oa_search (oa_table m) (oa_mask m) key orig fuel index = Inr
    (if s_status (oa_at k m h (i + d)) = OCCUPIED \<and> s_key (oa_at k m h (i + d)) = key
     then Some (oa_pos (2 ^ k) h (i + d)) else None)"
  using assms(3-7)
proof (induction d arbitrary: i index fuel)
  case 0
  have "(index + 1) AND oa_mask m = orig \<longleftrightarrow> Suc i = 2 ^ k"
    using 0 by (intro oa_round [OF assms(1) _ assms(2)]) simp_all
  then show ?case using 0 assms(1) by (cases fuel) (auto simp: oa_shape_def oa_at_def Let_def)
next
  case (Suc d)
  obtain f where f: "fuel = Suc f" using Suc.prems(2) by (cases fuel) simp_all
  have "unat ((index + 1) AND oa_mask m) = oa_pos (2 ^ k) h (Suc i)"
    using oa_next_pos [OF _ Suc.prems(1)] assms(1) by (simp add: oa_shape_def)
  moreover have "d < f" using Suc.prems(2) f by simp
  ultimately have "oa_search (oa_table m) (oa_mask m) key orig f ((index + 1) AND oa_mask m)
      = Inr (if s_status (oa_at k m h (Suc i + d)) = OCCUPIED \<and> s_key (oa_at k m h (Suc i + d)) = key
             then Some (oa_pos (2 ^ k) h (Suc i + d)) else None)"
    using Suc.prems(3-5) by (intro Suc.IH) simp_all
  moreover have "(index + 1) AND oa_mask m \<noteq> orig"
    using oa_round [OF assms(1) Suc.prems(1) assms(2)] Suc.prems(3) by simp
  ultimately show ?case
    using assms(1) Suc.prems(1) Suc.prems(4) [of i] f by (auto simp: oa_shape_def oa_at_def Let_def)
qed

subsection \<open>The invariant\<close>

definition oa_here :: "'k \<Rightarrow> ('k, 'v) slot \<Rightarrow> bool" where
  "oa_here key node \<longleftrightarrow> s_status node = OCCUPIED \<and> s_key node = key"

text \<open>No empty slot before an entry on its probe sequence.\<close>

definition oa_probed :: "('k \<Rightarrow> u64) \<Rightarrow> nat \<Rightarrow> ('k, 'v) oam \<Rightarrow> bool" where
  "oa_probed hash k m \<longleftrightarrow> (\<forall>key j. j < 2 ^ k \<longrightarrow> oa_here key (oa_at k m (oa_home hash k key) j) \<longrightarrow>
     (\<forall>i < j. s_status (oa_at k m (oa_home hash k key) i) \<noteq> EMPTY))"

definition oa_unique :: "('k, 'v) oam \<Rightarrow> bool" where
  "oa_unique m \<longleftrightarrow> (\<forall>p q key. p < length (oa_table m) \<longrightarrow> q < length (oa_table m) \<longrightarrow>
     oa_here key (oa_table m ! p) \<longrightarrow> oa_here key (oa_table m ! q) \<longrightarrow> p = q)"

definition oa_occupied :: "('k, 'v) oam \<Rightarrow> nat set" where
  "oa_occupied m = {p. p < length (oa_table m) \<and> s_status (oa_table m ! p) = OCCUPIED}"

definition oa_inv :: "('k \<Rightarrow> u64) \<Rightarrow> nat \<Rightarrow> ('k, 'v) oam \<Rightarrow> bool" where
  "oa_inv hash k m \<longleftrightarrow> oa_shape k m \<and> oa_probed hash k m \<and> oa_unique m \<and> oa_size m = card (oa_occupied m)"

definition oa_clean :: "('k, 'v) oam \<Rightarrow> bool" where
  "oa_clean m \<longleftrightarrow> (\<forall>node \<in> set (oa_table m). s_status node \<noteq> DELETED)"

definition oa_lookup :: "('k \<Rightarrow> u64) \<Rightarrow> ('k, 'v) oam \<Rightarrow> 'k \<rightharpoonup> 'v" where
  "oa_lookup hash m = (\<lambda>key. case oa_find hash key m of Inr p \<Rightarrow> p | Inl _ \<Rightarrow> None)"

lemma oa_at_in_range: "oa_shape k m \<Longrightarrow> oa_pos (2 ^ k) h j < length (oa_table m)"
  by (simp add: oa_shape_def)

lemma oa_on_sequence:
  assumes "oa_shape k m" and "p < length (oa_table m)"
  obtains j where "j < 2 ^ k" and "oa_pos (2 ^ k) h j = p"
  using assms oa_pos_surj [of p "2 ^ k" h] by (auto simp: oa_shape_def)

lemma oa_search_spec:
  assumes shape: "oa_shape k m" and probed: "oa_probed hash k m"
  obtains (hit) p where "p < length (oa_table m)" and "oa_here key (oa_table m ! p)"
      and "oa_search (oa_table m) (oa_mask m) key (oa_hash hash m key) (length (oa_table m)) (oa_hash hash m key)
        = Inr (Some p)"
  | (miss) "\<And>p. p < length (oa_table m) \<Longrightarrow> \<not> oa_here key (oa_table m ! p)"
      and "oa_search (oa_table m) (oa_mask m) key (oa_hash hash m key) (length (oa_table m)) (oa_hash hash m key)
        = Inr None"
proof -
  let ?h = "oa_home hash k key"
  let ?stop = "\<lambda>j. s_status (oa_at k m ?h j) = EMPTY \<or> Suc j = 2 ^ k \<or> oa_here key (oa_at k m ?h j)"
  define d where "d = (LEAST j. ?stop j)"
  have "d \<le> 2 ^ k - 1" unfolding d_def by (rule Least_le) simp
  moreover have "(0 :: nat) < 2 ^ k" by simp
  ultimately have less: "d < 2 ^ k" by linarith
  have stop_d: "?stop d" unfolding d_def by (rule LeastI [of ?stop "2 ^ k - 1"]) simp
  have before: "\<not> ?stop j" if "j < d" for j using that not_less_Least unfolding d_def by blast
  have search: "oa_search (oa_table m) (oa_mask m) key (oa_hash hash m key) (length (oa_table m)) (oa_hash hash m key)
      = Inr (if oa_here key (oa_at k m ?h d) then Some (oa_pos (2 ^ k) ?h d) else None)"
    using oa_search_from [OF shape oa_hash_home [OF shape, of hash key] oa_hash_home [OF shape, of hash key],
        where d = d and fuel = "2 ^ k" and key = key] less stop_d before shape
    by (simp add: oa_here_def oa_shape_def)
  show thesis
  proof (cases "oa_here key (oa_at k m ?h d)")
    case True
    then show thesis using search oa_at_in_range [OF shape] by (intro hit) (simp_all add: oa_at_def)
  next
    case False
    have "\<not> oa_here key (oa_table m ! p)" if p: "p < length (oa_table m)" for p
    proof
      assume here: "oa_here key (oa_table m ! p)"
      obtain j where j: "j < 2 ^ k" "oa_pos (2 ^ k) ?h j = p" by (rule oa_on_sequence [OF shape p])
      then have at: "oa_here key (oa_at k m ?h j)" using here by (simp add: oa_at_def)
      have "d < j" using before [of j] at False by (metis linorder_neqE_nat)
      then have "s_status (oa_at k m ?h d) \<noteq> EMPTY" using probed j(1) at unfolding oa_probed_def by blast
      then show False using stop_d False \<open>d < j\<close> j(1) by simp
    qed
    then show thesis using search False by (intro miss) simp_all
  qed
qed

text \<open>What the table holds, as a relation; with unique keys it is a function.\<close>

definition oa_holds :: "('k, 'v) oam \<Rightarrow> 'k \<Rightarrow> 'v \<Rightarrow> bool" where
  "oa_holds m key value \<longleftrightarrow>
     (\<exists>p < length (oa_table m). oa_here key (oa_table m ! p) \<and> s_value (oa_table m ! p) = value)"

lemma oa_inv_search:
  assumes "oa_inv hash k m"
  obtains (hit) p where "p < length (oa_table m)" and "oa_here key (oa_table m ! p)"
      and "oa_search (oa_table m) (oa_mask m) key (oa_hash hash m key) (length (oa_table m)) (oa_hash hash m key)
        = Inr (Some p)"
      and "oa_lookup hash m key = Some (s_value (oa_table m ! p))"
  | (miss) "\<And>p. p < length (oa_table m) \<Longrightarrow> \<not> oa_here key (oa_table m ! p)"
      and "oa_search (oa_table m) (oa_mask m) key (oa_hash hash m key) (length (oa_table m)) (oa_hash hash m key)
        = Inr None"
      and "oa_lookup hash m key = None"
proof (rule oa_search_spec [of k m hash key])
  show "oa_shape k m" and "oa_probed hash k m" using assms by (simp_all add: oa_inv_def)
next
  fix p assume "p < length (oa_table m)" and "oa_here key (oa_table m ! p)"
    and search: "oa_search (oa_table m) (oa_mask m) key (oa_hash hash m key) (length (oa_table m))
      (oa_hash hash m key) = Inr (Some p)"
  moreover have "oa_lookup hash m key = Some (s_value (oa_table m ! p))"
    by (simp add: oa_lookup_def oa_find_def search)
  ultimately show thesis by (intro hit)
next
  assume "\<And>p. p < length (oa_table m) \<Longrightarrow> \<not> oa_here key (oa_table m ! p)"
    and search: "oa_search (oa_table m) (oa_mask m) key (oa_hash hash m key) (length (oa_table m))
      (oa_hash hash m key) = Inr None"
  moreover have "oa_lookup hash m key = None"
    by (simp add: oa_lookup_def oa_find_def search)
  ultimately show thesis by (intro miss)
qed

lemma oa_find_lookup: "oa_inv hash k m \<Longrightarrow> oa_find hash key m = Inr (oa_lookup hash m key)"
  by (rule oa_inv_search [of hash k m key]) (simp_all add: oa_find_def)

lemma oa_contains_lookup: "oa_inv hash k m \<Longrightarrow> oa_contains hash key m = Inr (oa_lookup hash m key \<noteq> None)"
  by (rule oa_inv_search [of hash k m key]) (simp_all add: oa_contains_def)

lemma oa_holds_unique:
  assumes "oa_inv hash k m" and "p < length (oa_table m)" and "oa_here key (oa_table m ! p)"
  shows "oa_holds m key v \<longleftrightarrow> v = s_value (oa_table m ! p)"
proof -
  have "q = p" if "q < length (oa_table m)" "oa_here key (oa_table m ! q)" for q
    using assms that unfolding oa_inv_def oa_unique_def by blast
  then show ?thesis using assms(2,3) unfolding oa_holds_def by metis
qed

lemma oa_lookup_Some_iff:
  assumes "oa_inv hash k m"
  shows "oa_lookup hash m key = Some v \<longleftrightarrow> oa_holds m key v"
proof (rule oa_inv_search [OF assms, of key])
  fix p assume p: "p < length (oa_table m)" "oa_here key (oa_table m ! p)"
    and "oa_lookup hash m key = Some (s_value (oa_table m ! p))"
  then show ?thesis using oa_holds_unique [OF assms p, of v] by auto
next
  assume "\<And>p. p < length (oa_table m) \<Longrightarrow> \<not> oa_here key (oa_table m ! p)"
    and "oa_lookup hash m key = None"
  then show ?thesis unfolding oa_holds_def by (metis option.distinct(1))
qed

text \<open>A change of the held relation is a change of the map.\<close>

lemma oa_lookup_change:
  assumes "oa_inv hash k m" and "oa_inv hash k' m'"
    and "\<And>key' w. oa_holds m' key' w \<longleftrightarrow> (if key' = key then r = Some w else oa_holds m key' w)"
  shows "oa_lookup hash m' = (oa_lookup hash m)(key := r)"
proof
  fix key'
  show "oa_lookup hash m' key' = ((oa_lookup hash m)(key := r)) key'"
    by (rule option_eqI) (simp add: oa_lookup_Some_iff [OF assms(1)] oa_lookup_Some_iff [OF assms(2)] assms(3))
qed

subsection \<open>Writing one slot\<close>

definition oa_put :: "nat \<Rightarrow> ('k, 'v) slot \<Rightarrow> nat \<Rightarrow> ('k, 'v) oam \<Rightarrow> ('k, 'v) oam" where
  "oa_put p node used m = m\<lparr>oa_table := (oa_table m)[p := node], oa_size := used\<rparr>"

lemma oa_put_sel [simp]:
  "oa_table (oa_put p node used m) = (oa_table m)[p := node]" "oa_size (oa_put p node used m) = used"
  "oa_mask (oa_put p node used m) = oa_mask m"
  by (simp_all add: oa_put_def)

lemma oa_shape_put [simp]: "oa_shape k (oa_put p node used m) = oa_shape k m"
  by (simp add: oa_shape_def)

lemma oa_at_put:
  "oa_shape k m \<Longrightarrow> p < length (oa_table m) \<Longrightarrow>
    oa_at k (oa_put p node used m) h j = (if oa_pos (2 ^ k) h j = p then node else oa_at k m h j)"
  by (auto simp: oa_at_def nth_list_update)

lemma oa_probed_put:
  assumes shape: "oa_shape k m" and p: "p < length (oa_table m)" and probed: "oa_probed hash k m"
    and "s_status node \<noteq> EMPTY"
    and new: "s_status node = OCCUPIED \<Longrightarrow> \<exists>d < 2 ^ k. oa_pos (2 ^ k) (oa_home hash k (s_key node)) d = p \<and>
      (\<forall>i < d. s_status (oa_at k m (oa_home hash k (s_key node)) i) \<noteq> EMPTY)"
  shows "oa_probed hash k (oa_put p node used m)"
  unfolding oa_probed_def
proof (intro allI impI)
  fix key j i
  let ?h = "oa_home hash k key" and ?m = "oa_put p node used m"
  assume j: "j < 2 ^ k" and here: "oa_here key (oa_at k ?m ?h j)" and i: "i < j"
  have "s_status (oa_at k m ?h i) \<noteq> EMPTY"
  proof (cases "oa_pos (2 ^ k) ?h j = p")
    case True
    then have occ: "s_status node = OCCUPIED" and key: "s_key node = key"
      using here by (simp_all add: oa_at_put [OF shape p] oa_here_def)
    obtain d where d: "d < 2 ^ k" "oa_pos (2 ^ k) ?h d = p" "\<forall>i < d. s_status (oa_at k m ?h i) \<noteq> EMPTY"
      using new [OF occ] key by auto
    have "d = j" using oa_pos_inj [of "2 ^ k" ?h d j] d(1,2) True j by simp
    then show ?thesis using d(3) i by simp
  next
    case False
    then have "oa_here key (oa_at k m ?h j)" using here by (simp add: oa_at_put [OF shape p])
    then show ?thesis using probed j i unfolding oa_probed_def by blast
  qed
  then show "s_status (oa_at k ?m ?h i) \<noteq> EMPTY" using assms(4) by (simp add: oa_at_put [OF shape p])
qed

lemma oa_unique_put:
  assumes "oa_unique m"
    and "s_status node = OCCUPIED \<Longrightarrow>
      \<forall>q < length (oa_table m). q \<noteq> p \<longrightarrow> \<not> oa_here (s_key node) (oa_table m ! q)"
  shows "oa_unique (oa_put p node used m)"
  unfolding oa_unique_def
proof (intro allI impI)
  fix q r key
  assume *: "q < length (oa_table (oa_put p node used m))" "r < length (oa_table (oa_put p node used m))"
    "oa_here key (oa_table (oa_put p node used m) ! q)" "oa_here key (oa_table (oa_put p node used m) ! r)"
  show "q = r"
  proof (cases "q = p \<or> r = p")
    case True
    then have "s_status node = OCCUPIED" "s_key node = key"
      using * by (auto simp: oa_here_def nth_list_update split: if_splits)
    then show ?thesis using assms(2) * True by (auto simp: nth_list_update split: if_splits)
  next
    case False
    then have "oa_here key (oa_table m ! q)" "oa_here key (oa_table m ! r)" using * by simp_all
    then show ?thesis using assms(1) *(1,2) unfolding oa_unique_def by simp
  qed
qed

lemma oa_occupied_put:
  "p < length (oa_table m) \<Longrightarrow> oa_occupied (oa_put p node used m)
    = (if s_status node = OCCUPIED then insert p (oa_occupied m) else oa_occupied m - {p})"
  by (auto simp: oa_occupied_def nth_list_update)

lemma finite_oa_occupied [simp]: "finite (oa_occupied m)"
  by (simp add: oa_occupied_def)

lemma oa_holds_put:
  assumes "oa_unique m" and p: "p < length (oa_table m)"
    and "s_status (oa_table m ! p) = OCCUPIED \<Longrightarrow> s_key (oa_table m ! p) = key"
    and "s_key node = key" and none: "\<And>q. q < length (oa_table m) \<Longrightarrow> q \<noteq> p \<Longrightarrow> \<not> oa_here key (oa_table m ! q)"
  shows "oa_holds (oa_put p node used m) key' w \<longleftrightarrow>
    (if key' = key then (if s_status node = OCCUPIED then Some (s_value node) else None) = Some w
     else oa_holds m key' w)"
proof (cases "key' = key")
  case True
  have "oa_holds (oa_put p node used m) key w \<longleftrightarrow> s_status node = OCCUPIED \<and> s_value node = w"
    using p none assms(4) unfolding oa_holds_def
    by (auto simp: nth_list_update oa_here_def split: if_splits)
  then show ?thesis using True by simp
next
  case False
  have "oa_holds (oa_put p node used m) key' w \<longleftrightarrow>
      (\<exists>q < length (oa_table m). q \<noteq> p \<and> oa_here key' (oa_table m ! q) \<and> s_value (oa_table m ! q) = w)"
    using p False assms(4) unfolding oa_holds_def by (auto simp: nth_list_update oa_here_def)
  also have "\<dots> \<longleftrightarrow> oa_holds m key' w"
    using False assms(3) unfolding oa_holds_def oa_here_def by blast
  finally show ?thesis using False by simp
qed

lemma oa_fill_put: "oa_fill p key v m = oa_put p \<lparr>s_key = key, s_value = v, s_status = OCCUPIED\<rparr> (oa_size m + 1) m"
  by (simp add: oa_fill_def oa_put_def)

lemma oa_write_put: "oa_write p v m = oa_put p ((oa_table m ! p)\<lparr>s_value := v\<rparr>) (oa_size m) m"
  by (simp add: oa_write_def oa_put_def)

lemma oa_fill_inv:
  assumes inv: "oa_inv hash k m" and d: "d < 2 ^ k" and p: "p = oa_pos (2 ^ k) (oa_home hash k key) d"
    and before: "\<And>i. i < d \<Longrightarrow> s_status (oa_at k m (oa_home hash k key) i) \<noteq> EMPTY"
    and free: "s_status (oa_table m ! p) \<noteq> OCCUPIED"
    and none: "\<And>q. q < length (oa_table m) \<Longrightarrow> \<not> oa_here key (oa_table m ! q)"
  shows "oa_inv hash k (oa_fill p key v m)"
    and "oa_lookup hash (oa_fill p key v m) = (oa_lookup hash m)(key \<mapsto> v)"
proof -
  have shape: "oa_shape k m" and probed: "oa_probed hash k m" and unique: "oa_unique m"
    and card: "oa_size m = card (oa_occupied m)"
    using inv by (simp_all add: oa_inv_def)
  have pl: "p < length (oa_table m)" unfolding p by (rule oa_at_in_range [OF shape])
  let ?node = "\<lparr>s_key = key, s_value = v, s_status = OCCUPIED\<rparr>"
  have "oa_probed hash k (oa_fill p key v m)"
    unfolding oa_fill_put using d p before by (intro oa_probed_put [OF shape pl probed]) auto
  moreover have "oa_unique (oa_fill p key v m)"
    unfolding oa_fill_put using none by (intro oa_unique_put [OF unique]) simp
  moreover have "p \<notin> oa_occupied m" using free by (simp add: oa_occupied_def)
  then have "oa_size (oa_fill p key v m) = card (oa_occupied (oa_fill p key v m))"
    by (simp add: oa_fill_put oa_occupied_put [OF pl] card)
  ultimately show inv': "oa_inv hash k (oa_fill p key v m)"
    using shape by (simp add: oa_inv_def oa_fill_put)
  show "oa_lookup hash (oa_fill p key v m) = (oa_lookup hash m)(key \<mapsto> v)"
    using oa_holds_put [OF unique pl, of key ?node "oa_size m + 1"] free none
    by (intro oa_lookup_change [OF inv inv']) (simp add: oa_fill_put)
qed

lemma oa_here_others:
  assumes "oa_inv hash k m" and "p < length (oa_table m)" and "oa_here key (oa_table m ! p)"
    and "q < length (oa_table m)" and "q \<noteq> p"
  shows "\<not> oa_here key (oa_table m ! q)"
  using assms unfolding oa_inv_def oa_unique_def by blast

lemma oa_write_inv:
  assumes inv: "oa_inv hash k m" and p: "p < length (oa_table m)" and here: "oa_here key (oa_table m ! p)"
  shows "oa_inv hash k (oa_write p v m)"
    and "oa_lookup hash (oa_write p v m) = (oa_lookup hash m)(key \<mapsto> v)"
proof -
  have shape: "oa_shape k m" and probed: "oa_probed hash k m" and unique: "oa_unique m"
    and card: "oa_size m = card (oa_occupied m)"
    using inv by (simp_all add: oa_inv_def)
  have occ: "s_status (oa_table m ! p) = OCCUPIED" and key: "s_key (oa_table m ! p) = key"
    using here by (simp_all add: oa_here_def)
  note others = oa_here_others [OF inv p here]
  obtain d where d: "d < 2 ^ k" "oa_pos (2 ^ k) (oa_home hash k key) d = p" by (rule oa_on_sequence [OF shape p])
  then have "oa_here key (oa_at k m (oa_home hash k key) d)" using here by (simp add: oa_at_def)
  then have before: "\<forall>i < d. s_status (oa_at k m (oa_home hash k key) i) \<noteq> EMPTY"
    using probed d(1) unfolding oa_probed_def by blast
  have "oa_probed hash k (oa_write p v m)"
    unfolding oa_write_put using d before occ key by (intro oa_probed_put [OF shape p probed]) auto
  moreover have "oa_unique (oa_write p v m)"
    unfolding oa_write_put using others key by (intro oa_unique_put [OF unique]) simp
  moreover have "p \<in> oa_occupied m" using p occ by (simp add: oa_occupied_def)
  then have "oa_size (oa_write p v m) = card (oa_occupied (oa_write p v m))"
    by (simp add: oa_write_put oa_occupied_put [OF p] occ card insert_absorb)
  ultimately show inv': "oa_inv hash k (oa_write p v m)"
    using shape by (simp add: oa_inv_def oa_write_put)
  show "oa_lookup hash (oa_write p v m) = (oa_lookup hash m)(key \<mapsto> v)"
    using oa_holds_put [OF unique p _ _ others, of "(oa_table m ! p)\<lparr>s_value := v\<rparr>" "oa_size m"] occ key
    by (intro oa_lookup_change [OF inv inv']) (simp add: oa_write_put)
qed

lemma oa_erase_ok:
  assumes inv: "oa_inv hash k m"
  shows "\<exists>m'. oa_erase hash key m = Inr (oa_lookup hash m key \<noteq> None, m') \<and> oa_inv hash k m' \<and>
    oa_lookup hash m' = (oa_lookup hash m)(key := None)"
proof (rule oa_inv_search [OF inv, of key])
  fix p assume p: "p < length (oa_table m)" and here: "oa_here key (oa_table m ! p)"
    and search: "oa_search (oa_table m) (oa_mask m) key (oa_hash hash m key) (length (oa_table m))
      (oa_hash hash m key) = Inr (Some p)"
    and look: "oa_lookup hash m key = Some (s_value (oa_table m ! p))"
  have shape: "oa_shape k m" and probed: "oa_probed hash k m" and unique: "oa_unique m"
    and card: "oa_size m = card (oa_occupied m)"
    using inv by (simp_all add: oa_inv_def)
  note others = oa_here_others [OF inv p here]
  let ?node = "(oa_table m ! p)\<lparr>s_status := DELETED\<rparr>"
  let ?m = "oa_put p ?node (oa_size m - 1) m"
  have "oa_probed hash k ?m" by (rule oa_probed_put [OF shape p probed]) simp_all
  moreover have "oa_unique ?m" by (rule oa_unique_put [OF unique]) simp
  moreover have "p \<in> oa_occupied m" using p here by (simp add: oa_occupied_def oa_here_def)
  then have "oa_size ?m = card (oa_occupied ?m)" by (simp add: oa_occupied_put [OF p] card)
  ultimately have inv': "oa_inv hash k ?m" using shape by (simp add: oa_inv_def)
  have "oa_lookup hash ?m = (oa_lookup hash m)(key := None)"
    using oa_holds_put [OF unique p _ _ others, of ?node "oa_size m - 1"] here
    by (intro oa_lookup_change [OF inv inv']) (simp add: oa_here_def)
  moreover have "oa_erase hash key m = Inr (True, ?m)"
    by (simp add: oa_erase_def search oa_put_def)
  ultimately show ?thesis using inv' look by simp
next
  assume search: "oa_search (oa_table m) (oa_mask m) key (oa_hash hash m key) (length (oa_table m))
      (oa_hash hash m key) = Inr None" and "oa_lookup hash m key = None"
  then show ?thesis using inv by (simp add: oa_erase_def fun_upd_idem)
qed

text \<open>The slots of a table never become deleted by an insertion.\<close>

lemma oa_clean_put: "oa_clean m \<Longrightarrow> s_status node \<noteq> DELETED \<Longrightarrow> oa_clean (oa_put p node used m)"
  using set_update_subset_insert [of "oa_table m" p node] unfolding oa_clean_def oa_put_def by auto

lemma oa_clean_nth: "oa_clean m \<Longrightarrow> p < length (oa_table m) \<Longrightarrow> s_status (oa_table m ! p) \<noteq> DELETED"
  by (simp add: oa_clean_def)

lemma oa_free_slot:
  assumes "oa_inv hash k m" and "oa_size m < 2 ^ k"
  obtains p where "p < length (oa_table m)" and "s_status (oa_table m ! p) \<noteq> OCCUPIED"
proof -
  have "length (oa_table m) = 2 ^ k" and "oa_size m = card (oa_occupied m)"
    using assms(1) by (simp_all add: oa_inv_def oa_shape_def)
  moreover have "oa_occupied m = {..<length (oa_table m)}"
    if "\<forall>p < length (oa_table m). s_status (oa_table m ! p) = OCCUPIED"
    using that by (auto simp: oa_occupied_def)
  ultimately show thesis using that assms(2) by force
qed

text \<open>
  Where \<open>insert\<close> and \<open>operator[]\<close> stop: at the entry, or at a free slot when there is none.  A
  table with tombstones that holds the key is excluded: there the loop may stop too early.
\<close>

lemma oa_stop_slot:
  assumes inv: "oa_inv hash k m" and room: "oa_size m < 2 ^ k"
    and absent: "oa_lookup hash m key = None \<or> oa_clean m"
  obtains d where "d < 2 ^ k"
    and "\<And>j. j < d \<Longrightarrow> s_status (oa_at k m (oa_home hash k key) j) = OCCUPIED \<and>
      s_key (oa_at k m (oa_home hash k key) j) \<noteq> key"
    and "oa_here key (oa_at k m (oa_home hash k key) d) \<or>
      s_status (oa_at k m (oa_home hash k key) d) \<noteq> OCCUPIED \<and> oa_lookup hash m key = None"
proof -
  have shape: "oa_shape k m" and probed: "oa_probed hash k m" using inv by (simp_all add: oa_inv_def)
  let ?h = "oa_home hash k key"
  let ?stop = "\<lambda>j. s_status (oa_at k m ?h j) \<noteq> OCCUPIED \<or> s_key (oa_at k m ?h j) = key"
  obtain p where p: "p < length (oa_table m)" "s_status (oa_table m ! p) \<noteq> OCCUPIED"
    by (rule oa_free_slot [OF inv room])
  obtain j0 where j0: "j0 < 2 ^ k" "oa_pos (2 ^ k) ?h j0 = p" by (rule oa_on_sequence [OF shape p(1)])
  then have "?stop j0" using p(2) by (simp add: oa_at_def)
  define d where "d = (LEAST j. ?stop j)"
  have "d \<le> j0" unfolding d_def by (rule Least_le) fact
  then have d: "d < 2 ^ k" using j0(1) by simp
  have stop: "?stop d" unfolding d_def by (rule LeastI) fact
  have before: "s_status (oa_at k m ?h j) = OCCUPIED \<and> s_key (oa_at k m ?h j) \<noteq> key" if "j < d" for j
    using that not_less_Least [of j ?stop] unfolding d_def by blast
  have none: "oa_lookup hash m key = None" if free: "s_status (oa_at k m ?h d) \<noteq> OCCUPIED"
  proof (cases "oa_clean m")
    case True
    then have empty: "s_status (oa_at k m ?h d) = EMPTY"
      using oa_clean_nth [OF True oa_at_in_range [OF shape]] free
      by (cases "s_status (oa_at k m ?h d)") (auto simp: oa_at_def)
    show ?thesis
    proof (rule oa_inv_search [OF inv, of key])
      fix q assume q: "q < length (oa_table m)" "oa_here key (oa_table m ! q)"
      obtain j where j: "j < 2 ^ k" "oa_pos (2 ^ k) ?h j = q" by (rule oa_on_sequence [OF shape q(1)])
      then have here: "oa_here key (oa_at k m ?h j)" using q(2) by (simp add: oa_at_def)
      then have "\<not> j < d" and "j \<noteq> d" using before free by (auto simp: oa_here_def)
      then have "s_status (oa_at k m ?h d) \<noteq> EMPTY"
        using probed j(1) here unfolding oa_probed_def by (metis linorder_neqE_nat)
      then show ?thesis using empty by simp
    qed
  qed (use absent in simp)
  have disj: "oa_here key (oa_at k m ?h d) \<or>
      s_status (oa_at k m ?h d) \<noteq> OCCUPIED \<and> oa_lookup hash m key = None"
    using stop none by (cases "s_status (oa_at k m ?h d) = OCCUPIED") (simp_all add: oa_here_def)
  show thesis by (rule that [OF d before disj])
qed

lemma oa_none_here:
  assumes "oa_inv hash k m" and "oa_lookup hash m key = None" and "q < length (oa_table m)"
  shows "\<not> oa_here key (oa_table m ! q)"
  by (rule oa_inv_search [OF assms(1), of key]) (use assms in auto)

lemma oa_size_put_le: "oa_size (oa_write p v m) = oa_size m" "oa_size (oa_fill p key v m) = oa_size m + 1"
  by (simp_all add: oa_write_def oa_fill_def)

lemma oa_place_ok:
  assumes inv: "oa_inv hash k m" and room: "oa_size m < 2 ^ k"
    and absent: "oa_lookup hash m key = None \<or> oa_clean m"
  obtains m' where "oa_place hash key v m = Inr m'" and "oa_inv hash k m'"
    and "oa_lookup hash m' = (oa_lookup hash m)(key \<mapsto> v)" and "oa_clean m \<Longrightarrow> oa_clean m'"
    and "oa_size m' = oa_size m + (if oa_lookup hash m key = None then 1 else 0)"
proof (rule oa_stop_slot [OF inv room absent])
  fix d
  let ?h = "oa_home hash k key" and ?p = "oa_pos (2 ^ k) (oa_home hash k key) d"
  assume d: "d < 2 ^ k" and before: "\<And>j. j < d \<Longrightarrow> s_status (oa_at k m ?h j) = OCCUPIED \<and>
      s_key (oa_at k m ?h j) \<noteq> key"
    and stop: "oa_here key (oa_at k m ?h d) \<or>
      s_status (oa_at k m ?h d) \<noteq> OCCUPIED \<and> oa_lookup hash m key = None"
  have shape: "oa_shape k m" using inv by (simp add: oa_inv_def)
  have p: "?p < length (oa_table m)" by (rule oa_at_in_range [OF shape])
  have claim: "oa_claim (oa_table m) (oa_mask m) key (length (oa_table m)) (oa_hash hash m key) = Inr ?p"
    by (rule oa_claim_stops [OF shape d before]) (use stop in \<open>auto simp: oa_here_def\<close>)
  show thesis
  proof (cases "oa_here key (oa_at k m ?h d)")
    case True
    then have here: "oa_here key (oa_table m ! ?p)" and occ: "s_status (oa_table m ! ?p) = OCCUPIED"
      by (simp_all add: oa_at_def oa_here_def)
    have "oa_lookup hash m key \<noteq> None" using oa_none_here [OF inv _ p] here by blast
    then show thesis
      using oa_write_inv [OF inv p here] claim occ
      by (intro that [of "oa_write ?p v m"])
        (auto simp: oa_place_def oa_write_put intro!: oa_clean_put)
  next
    case False
    then have free: "s_status (oa_table m ! ?p) \<noteq> OCCUPIED" and none: "oa_lookup hash m key = None"
      using stop by (auto simp: oa_at_def)
    have nonempty: "s_status (oa_at k m ?h i) \<noteq> EMPTY" if "i < d" for i using before [OF that] by simp
    show thesis
      using oa_fill_inv [OF inv d refl nonempty free oa_none_here [OF inv none]] claim free none
      by (intro that [of "oa_fill ?p key v m"])
        (auto simp: oa_place_def oa_fill_put intro!: oa_clean_put)
  qed
qed

subsection \<open>Growing the table\<close>

definition oa_entries :: "('k, 'v) slot list \<Rightarrow> ('k \<times> 'v) list" where
  "oa_entries nodes = map (\<lambda>node. (s_key node, s_value node)) (filter (\<lambda>node. s_status node = OCCUPIED) nodes)"

lemma oa_entries_simps [simp]:
  "oa_entries [] = []"
  "oa_entries (node # nodes) =
     (if s_status node = OCCUPIED then (s_key node, s_value node) # oa_entries nodes else oa_entries nodes)"
  by (simp_all add: oa_entries_def)

lemma oa_entries_member:
  "(key, v) \<in> set (oa_entries nodes) \<longleftrightarrow> (\<exists>p < length nodes. oa_here key (nodes ! p) \<and> s_value (nodes ! p) = v)"
  by (force simp: oa_entries_def oa_here_def in_set_conv_nth)

lemma oa_entries_distinct:
  assumes "\<And>p q key. p < length nodes \<Longrightarrow> q < length nodes \<Longrightarrow> oa_here key (nodes ! p) \<Longrightarrow>
    oa_here key (nodes ! q) \<Longrightarrow> p = q"
  shows "distinct (map fst (oa_entries nodes))"
  using assms
proof (induction nodes)
  case (Cons node nodes)
  have "p = q" if "p < length nodes" "q < length nodes" "oa_here key (nodes ! p)" "oa_here key (nodes ! q)" for p q key
    using Cons.prems [of "Suc p" "Suc q" key] that by simp
  then have "distinct (map fst (oa_entries nodes))" by (rule Cons.IH)
  moreover have "s_key node \<notin> fst ` set (oa_entries nodes)" if occ: "s_status node = OCCUPIED"
  proof
    assume "s_key node \<in> fst ` set (oa_entries nodes)"
    then obtain p where "p < length nodes" "oa_here (s_key node) (nodes ! p)"
      by (auto simp: oa_entries_member)
    then show False using Cons.prems [of 0 "Suc p" "s_key node"] occ by (simp add: oa_here_def)
  qed
  ultimately show ?case by simp
qed simp

lemma oa_entries_length: "length (oa_entries (oa_table m)) = card (oa_occupied m)"
proof -
  have "length (filter P xs) = card {i. i < length xs \<and> P (xs ! i)}" for P and xs :: "('a, 'b) slot list"
    by (rule length_filter_conv_card)
  then show ?thesis by (simp add: oa_entries_def oa_occupied_def)
qed

lemma oa_entries_lookup:
  assumes inv: "oa_inv hash k m"
  shows "oa_lookup hash m = map_of (oa_entries (oa_table m))"
    and "distinct (map fst (oa_entries (oa_table m)))"
    and "length (oa_entries (oa_table m)) = oa_size m"
proof -
  show d: "distinct (map fst (oa_entries (oa_table m)))"
    using inv unfolding oa_inv_def oa_unique_def by (intro oa_entries_distinct) blast
  show "oa_lookup hash m = map_of (oa_entries (oa_table m))"
    by (intro ext option_eqI)
      (simp add: oa_lookup_Some_iff [OF inv] map_of_eq_Some_iff [OF d] oa_entries_member oa_holds_def)
  show "length (oa_entries (oa_table m)) = oa_size m"
    using inv by (simp add: oa_inv_def oa_entries_length)
qed

text \<open>Re-inserting fresh keys that fill at most half of the table.\<close>

lemma oa_reinsert_ok:
  assumes "oa_inv hash (k + 1) m" and "oa_clean m"
    and "distinct (map fst (oa_entries nodes))"
    and "\<And>key. key \<in> fst ` set (oa_entries nodes) \<Longrightarrow> oa_lookup hash m key = None"
    and "oa_size m + length (oa_entries nodes) \<le> 2 ^ k"
  shows "\<exists>m'. oa_reinsert (oa_insert_rec hash dk dv (Suc depth)) nodes m = Inr m' \<and>
    oa_inv hash (k + 1) m' \<and> oa_clean m' \<and> oa_lookup hash m' = oa_lookup hash m ++ map_of (oa_entries nodes) \<and>
    oa_size m' = oa_size m + length (oa_entries nodes)"
  using assms
proof (induction nodes arbitrary: m)
  case (Cons node nodes)
  show ?case
  proof (cases "s_status node = OCCUPIED")
    case True
    let ?key = "s_key node" and ?v = "s_value node"
    have half: "oa_size m + 1 \<le> 2 ^ k" using Cons.prems(5) True by simp
    then have room: "oa_size m < 2 ^ (k + 1)" by simp
    have none: "oa_lookup hash m ?key = None" using Cons.prems(4) True by simp
    obtain m1 where m1: "oa_place hash ?key ?v m = Inr m1" "oa_inv hash (k + 1) m1"
      "oa_lookup hash m1 = (oa_lookup hash m)(?key \<mapsto> ?v)" "oa_clean m1" "oa_size m1 = oa_size m + 1"
      by (rule oa_place_ok [OF Cons.prems(1) room, of ?key ?v]) (use none Cons.prems(2) in auto)
    have "length (oa_table m) = 2 ^ (k + 1)"
      using Cons.prems(1) by (simp add: oa_inv_def oa_shape_def)
    then have "oa_insert_rec hash dk dv (Suc depth) ?key ?v m = Inr m1"
      using m1(1) oa_half_full [OF half] by (simp add: oa_insert_rec.simps)
    moreover have notin: "?key \<notin> fst ` set (oa_entries nodes)" using Cons.prems(3) True by simp
    have fresh: "oa_lookup hash m1 key = None" if "key \<in> fst ` set (oa_entries nodes)" for key
      using Cons.prems(4) [of key] that notin True m1(3) by (cases "key = ?key") simp_all
    obtain m' where "oa_reinsert (oa_insert_rec hash dk dv (Suc depth)) nodes m1 = Inr m'"
        "oa_inv hash (k + 1) m'" "oa_clean m'"
        "oa_lookup hash m' = oa_lookup hash m1 ++ map_of (oa_entries nodes)"
        "oa_size m' = oa_size m1 + length (oa_entries nodes)"
      using Cons.IH [OF m1(2,4) _ fresh] Cons.prems(3,5) True m1(5) by auto
    moreover have "?key \<notin> dom (map_of (oa_entries nodes))"
      using notin by (simp add: dom_map_of_conv_image_fst)
    then have "(oa_lookup hash m)(?key \<mapsto> ?v) ++ map_of (oa_entries nodes)
        = oa_lookup hash m ++ map_of (oa_entries (node # nodes))"
      using True by (simp add: map_add_upd_left)
    ultimately show ?thesis
      using True m1(3,5) by (intro exI [of _ m']) (simp del: map_of.simps map_add_upd)
  next
    case False
    then show ?thesis using Cons.IH [OF Cons.prems(1,2)] Cons.prems(3-5) by simp
  qed
qed simp

lemma oa_table_blank:
  assumes "oa_shape k m" and "oa_table m = replicate (2 ^ k) (oa_blank dk dv)" and "oa_size m = 0"
  shows "oa_inv hash k m" and "oa_clean m" and "oa_lookup hash m = Map.empty"
proof -
  have blank: "s_status (oa_table m ! p) = EMPTY" if "p < 2 ^ k" for p
    using that by (simp add: assms(2) oa_blank_def)
  have "oa_occupied m = {}" using blank assms(2) by (auto simp: oa_occupied_def)
  then show inv: "oa_inv hash k m"
    using assms(1,3) blank assms(2)
    by (simp add: oa_inv_def oa_probed_def oa_unique_def oa_here_def oa_at_def)
  show "oa_clean m" by (simp add: oa_clean_def assms(2) oa_blank_def)
  have "oa_entries (oa_table m) = []" by (simp add: assms(2) oa_entries_def oa_blank_def)
  then show "oa_lookup hash m = Map.empty" using oa_entries_lookup(1) [OF inv] by simp
qed

lemma oa_doubled_ok:
  assumes "oa_inv hash k m" and "k < 64"
  shows "oa_inv hash (k + 1) (oa_doubled dk dv m)" and "oa_clean (oa_doubled dk dv m)"
    and "oa_lookup hash (oa_doubled dk dv m) = Map.empty" and "oa_size (oa_doubled dk dv m) = 0"
proof -
  have "length (oa_table m) = 2 ^ k" using assms(1) by (simp add: oa_inv_def oa_shape_def)
  then have shape: "oa_shape (k + 1) (oa_doubled dk dv m)"
    and table: "oa_table (oa_doubled dk dv m) = replicate (2 ^ (k + 1)) (oa_blank dk dv)"
    and used: "oa_size (oa_doubled dk dv m) = 0"
    using assms(2) by (simp_all add: oa_doubled_def oa_shape_def mult.commute)
  show "oa_inv hash (k + 1) (oa_doubled dk dv m)" "oa_clean (oa_doubled dk dv m)"
    "oa_lookup hash (oa_doubled dk dv m) = Map.empty" "oa_size (oa_doubled dk dv m) = 0"
    using oa_table_blank [OF shape table used] used by simp_all
qed

lemma oa_size_le: "oa_inv hash k m \<Longrightarrow> oa_size m \<le> 2 ^ k"
  using card_mono [of "{..<length (oa_table m)}" "oa_occupied m"]
  by (auto simp: oa_inv_def oa_shape_def oa_occupied_def)

lemma oa_rehash_ok:
  assumes inv: "oa_inv hash k m" and "k < 64"
  obtains m' where "oa_reinsert (oa_insert_rec hash dk dv (Suc depth)) (oa_table m) (oa_doubled dk dv m) = Inr m'"
    and "oa_inv hash (k + 1) m'" and "oa_clean m'" and "oa_lookup hash m' = oa_lookup hash m"
    and "oa_size m' = oa_size m"
proof -
  note entries = oa_entries_lookup [OF inv]
  note doubled = oa_doubled_ok [OF inv assms(2), of dk dv]
  have "\<exists>m'. oa_reinsert (oa_insert_rec hash dk dv (Suc depth)) (oa_table m) (oa_doubled dk dv m) = Inr m' \<and>
      oa_inv hash (k + 1) m' \<and> oa_clean m' \<and>
      oa_lookup hash m' = oa_lookup hash (oa_doubled dk dv m) ++ map_of (oa_entries (oa_table m)) \<and>
      oa_size m' = oa_size (oa_doubled dk dv m) + length (oa_entries (oa_table m))"
    using oa_size_le [OF inv] entries doubled by (intro oa_reinsert_ok) simp_all
  then show thesis using that entries doubled by auto
qed

text \<open>\<open>oa_ok\<close>: the invariant for some table size up to \<open>2 ^ 62\<close>, which a run with fewer than
  \<open>2 ^ 61\<close> keys at a time never exceeds.\<close>

definition oa_ok :: "('k \<Rightarrow> u64) \<Rightarrow> ('k, 'v) oam \<Rightarrow> bool" where
  "oa_ok hash m \<longleftrightarrow> (\<exists>k \<le> 62. oa_inv hash k m \<and> oa_size m < 2 ^ k)"

lemma oa_insert_ok:
  assumes ok: "oa_ok hash m" and few: "oa_size m + 1 \<le> 2 ^ 61"
    and absent: "oa_lookup hash m key = None \<or> oa_clean m"
  obtains m' where "oa_insert hash dk dv key v m = Inr m'" and "oa_ok hash m'"
    and "oa_lookup hash m' = (oa_lookup hash m)(key \<mapsto> v)" and "oa_clean m \<Longrightarrow> oa_clean m'"
proof -
  obtain k where k: "k \<le> 62" and inv: "oa_inv hash k m" and room: "oa_size m < 2 ^ k"
    using ok by (auto simp: oa_ok_def)
  have len: "length (oa_table m) = 2 ^ k" using inv by (simp add: oa_inv_def oa_shape_def)
  show thesis
  proof (cases "oa_overloaded (oa_size m) (2 ^ k)")
    case True
    then have "k \<le> 61" using oa_load_bound few by blast
    then have "k < 64" by simp
    obtain m1 where m1: "oa_reinsert (oa_insert_rec hash dk dv 1) (oa_table m) (oa_doubled dk dv m) = Inr m1"
      "oa_inv hash (k + 1) m1" "oa_clean m1" "oa_lookup hash m1 = oa_lookup hash m" "oa_size m1 = oa_size m"
      using oa_rehash_ok [OF inv \<open>k < 64\<close>, of dk dv 0] by auto
    have less: "oa_size m1 + 1 < 2 ^ (k + 1)" using room m1(5) by simp
    then have "oa_size m1 < 2 ^ (k + 1)" by simp
    then obtain m' where "oa_place hash key v m1 = Inr m'" "oa_inv hash (k + 1) m'"
      "oa_lookup hash m' = (oa_lookup hash m1)(key \<mapsto> v)" "oa_clean m1 \<Longrightarrow> oa_clean m'"
      "oa_size m' \<le> oa_size m1 + 1"
      by (rule oa_place_ok [OF m1(2), of key v]) (use m1(3) in auto)
    then show thesis using m1 True len less \<open>k \<le> 61\<close>
      by (intro that [of m']) (auto simp: oa_insert_def numeral_2_eq_2 oa_insert_rec.simps oa_ok_def intro!: exI [of _ "k + 1"])
  next
    case False
    obtain m' where "oa_place hash key v m = Inr m'" "oa_inv hash k m'"
      "oa_lookup hash m' = (oa_lookup hash m)(key \<mapsto> v)" "oa_clean m \<Longrightarrow> oa_clean m'"
      "oa_size m' = oa_size m + (if oa_lookup hash m key = None then 1 else 0)"
      by (rule oa_place_ok [OF inv room absent, where v = v], rule that)
    moreover from this(5) have "oa_size m' < 2 ^ k" using oa_room [OF False] by (simp split: if_splits)
    ultimately show thesis using False len k
      by (intro that [of m']) (auto simp: oa_insert_def numeral_2_eq_2 oa_insert_rec.simps oa_ok_def)
  qed
qed

text \<open>\<open>operator[]\<close>: the entry of the key, or a new one with the default value.\<close>

lemma oa_subscript_slot_from:
  assumes "oa_shape k m" and "unat orig = oa_pos (2 ^ k) h 0"
    and "unat index = oa_pos (2 ^ k) h i" and "d < fuel" and "i + d < 2 ^ k"
    and "\<And>j. i \<le> j \<Longrightarrow> j < i + d \<Longrightarrow> s_status (oa_at k m h j) = OCCUPIED \<and> s_key (oa_at k m h j) \<noteq> key"
    and "s_status (oa_at k m h (i + d)) \<noteq> OCCUPIED \<or> s_key (oa_at k m h (i + d)) = key"
  shows "oa_subscript_slot (oa_table m) (oa_mask m) key orig fuel index = Inr (oa_pos (2 ^ k) h (i + d))"
  using assms(3-7)
proof (induction d arbitrary: i index fuel)
  case 0
  then show ?case using assms(1)
    by (cases fuel; cases "s_status (oa_at k m h i)") (auto simp: oa_shape_def oa_at_def Let_def)
next
  case (Suc d)
  obtain f where f: "fuel = Suc f" using Suc.prems(2) by (cases fuel) simp_all
  have "unat ((index + 1) AND oa_mask m) = oa_pos (2 ^ k) h (Suc i)"
    using oa_next_pos [OF _ Suc.prems(1)] assms(1) by (simp add: oa_shape_def)
  moreover have "d < f" using Suc.prems(2) f by simp
  ultimately have "oa_subscript_slot (oa_table m) (oa_mask m) key orig f ((index + 1) AND oa_mask m)
      = Inr (oa_pos (2 ^ k) h (Suc i + d))"
    using Suc.prems(3-5) by (intro Suc.IH) simp_all
  moreover have "(index + 1) AND oa_mask m \<noteq> orig"
    using oa_round [OF assms(1) Suc.prems(1) assms(2)] Suc.prems(3) by simp
  ultimately show ?case
    using assms(1) Suc.prems(1) Suc.prems(4) [of i] f by (auto simp: oa_shape_def oa_at_def Let_def)
qed

lemma oa_subscript_slot_stops:
  assumes inv: "oa_inv hash k m" and room: "oa_size m < 2 ^ k"
    and absent: "oa_lookup hash m key = None \<or> oa_clean m"
  obtains (hit) p where "oa_subscript_slot (oa_table m) (oa_mask m) key (oa_hash hash m key)
        (length (oa_table m)) (oa_hash hash m key) = Inr p"
      and "p < length (oa_table m)" and "oa_here key (oa_table m ! p)"
  | (miss) d where "oa_subscript_slot (oa_table m) (oa_mask m) key (oa_hash hash m key)
        (length (oa_table m)) (oa_hash hash m key) = Inr (oa_pos (2 ^ k) (oa_home hash k key) d)"
      and "d < 2 ^ k" and "\<And>i. i < d \<Longrightarrow> s_status (oa_at k m (oa_home hash k key) i) \<noteq> EMPTY"
      and "s_status (oa_table m ! oa_pos (2 ^ k) (oa_home hash k key) d) \<noteq> OCCUPIED"
      and "oa_lookup hash m key = None"
proof (rule oa_stop_slot [OF inv room absent])
  fix d
  let ?h = "oa_home hash k key" and ?p = "oa_pos (2 ^ k) (oa_home hash k key) d"
  assume d: "d < 2 ^ k" and before: "\<And>j. j < d \<Longrightarrow> s_status (oa_at k m ?h j) = OCCUPIED \<and>
      s_key (oa_at k m ?h j) \<noteq> key"
    and stop: "oa_here key (oa_at k m ?h d) \<or>
      s_status (oa_at k m ?h d) \<noteq> OCCUPIED \<and> oa_lookup hash m key = None"
  have shape: "oa_shape k m" using inv by (simp add: oa_inv_def)
  have slot: "oa_subscript_slot (oa_table m) (oa_mask m) key (oa_hash hash m key)
        (length (oa_table m)) (oa_hash hash m key) = Inr ?p"
    using oa_subscript_slot_from [OF shape oa_hash_home [OF shape, of hash key]
        oa_hash_home [OF shape, of hash key], where d = d and fuel = "2 ^ k" and key = key]
      d before stop shape
    by (auto simp: oa_here_def oa_shape_def)
  have nonempty: "s_status (oa_at k m ?h i) \<noteq> EMPTY" if "i < d" for i using before [OF that] by simp
  show thesis
  proof (cases "oa_here key (oa_at k m ?h d)")
    case True
    then show thesis using slot oa_at_in_range [OF shape] by (intro hit) (simp_all add: oa_at_def)
  next
    case False
    then have free: "s_status (oa_table m ! ?p) \<noteq> OCCUPIED" and none: "oa_lookup hash m key = None"
      using stop by (simp_all add: oa_at_def)
    show thesis by (rule miss [OF slot d nonempty free none])
  qed
qed

declare oa_subscript_rec.simps [simp del]

lemma oa_subscript_roomy:
  assumes inv: "oa_inv hash k m" and light: "\<not> oa_overloaded (oa_size m) (2 ^ k)"
    and absent: "oa_lookup hash m key = None \<or> oa_clean m"
  obtains p m' where "oa_subscript_rec hash dk dv (Suc depth) key m = Inr (p, m')"
    and "p < length (oa_table m')" and "oa_here key (oa_table m' ! p)" and "oa_inv hash k m'"
    and "oa_lookup hash m' = (oa_lookup hash m)(key \<mapsto> s_value (oa_table m' ! p))"
    and "oa_lookup hash m key = None \<Longrightarrow> s_value (oa_table m' ! p) = dv"
    and "oa_lookup hash m key \<noteq> None \<Longrightarrow> m' = m" and "oa_clean m \<Longrightarrow> oa_clean m'"
    and "oa_size m' < 2 ^ k"
proof (rule oa_subscript_slot_stops [OF inv _ absent])
  show "oa_size m < 2 ^ k" using oa_room [OF light] by simp
  have shape: "oa_shape k m" using inv by (simp add: oa_inv_def)
  then have len: "length (oa_table m) = 2 ^ k" by (simp add: oa_shape_def)
  {
    fix p assume slot: "oa_subscript_slot (oa_table m) (oa_mask m) key (oa_hash hash m key)
        (length (oa_table m)) (oa_hash hash m key) = Inr p"
      and p: "p < length (oa_table m)" and here: "oa_here key (oa_table m ! p)"
    have "oa_lookup hash m key = Some (s_value (oa_table m ! p))"
      using oa_lookup_Some_iff [OF inv] p here unfolding oa_holds_def by blast
    then show thesis using slot p here inv
      using oa_room [OF light]
      by (intro that [of p m]) (auto simp: oa_subscript_rec.simps oa_here_def)
  next
    fix d let ?p = "oa_pos (2 ^ k) (oa_home hash k key) d"
    assume slot: "oa_subscript_slot (oa_table m) (oa_mask m) key (oa_hash hash m key)
        (length (oa_table m)) (oa_hash hash m key) = Inr ?p"
      and d: "d < 2 ^ k" and nonempty: "\<And>i. i < d \<Longrightarrow> s_status (oa_at k m (oa_home hash k key) i) \<noteq> EMPTY"
      and free: "s_status (oa_table m ! ?p) \<noteq> OCCUPIED" and none: "oa_lookup hash m key = None"
    have p: "?p < length (oa_table m)" by (rule oa_at_in_range [OF shape])
    have "oa_subscript_rec hash dk dv (Suc depth) key m = Inr (?p, oa_fill ?p key dv m)"
      using slot free light len by (simp add: oa_subscript_rec.simps)
    moreover note oa_fill_inv [OF inv d refl nonempty free oa_none_here [OF inv none], of dv]
    moreover have "oa_table (oa_fill ?p key dv m) ! ?p = \<lparr>s_key = key, s_value = dv, s_status = OCCUPIED\<rparr>"
      and "?p < length (oa_table (oa_fill ?p key dv m))"
      using p by (simp_all add: oa_fill_put)
    moreover have "oa_clean m \<Longrightarrow> oa_clean (oa_fill ?p key dv m)"
      by (simp add: oa_fill_put oa_clean_put)
    moreover have "oa_size (oa_fill ?p key dv m) < 2 ^ k"
      using oa_room [OF light] by (simp add: oa_size_put_le)
    ultimately show thesis using none
      by (intro that [of ?p "oa_fill ?p key dv m"]) (auto simp: oa_here_def)
  }
qed

lemma oa_subscript_rec_ok:
  assumes ok: "oa_ok hash m" and few: "oa_size m + 1 \<le> 2 ^ 61"
    and absent: "oa_lookup hash m key = None \<or> oa_clean m"
  obtains p k m' where "oa_subscript_rec hash dk dv 2 key m = Inr (p, m')"
    and "p < length (oa_table m')" and "oa_here key (oa_table m' ! p)"
    and "k \<le> 62" and "oa_inv hash k m'" and "oa_size m' < 2 ^ k"
    and "oa_lookup hash m' = (oa_lookup hash m)(key \<mapsto> s_value (oa_table m' ! p))"
    and "oa_lookup hash m key = None \<Longrightarrow> s_value (oa_table m' ! p) = dv"
    and "oa_lookup hash m key \<noteq> None \<Longrightarrow> m' = m" and "oa_clean m \<Longrightarrow> oa_clean m'"
proof -
  obtain k where k: "k \<le> 62" and inv: "oa_inv hash k m" and room: "oa_size m < 2 ^ k"
    using ok by (auto simp: oa_ok_def)
  have len: "length (oa_table m) = 2 ^ k" using inv by (simp add: oa_inv_def oa_shape_def)
  show thesis
  proof (cases "oa_overloaded (oa_size m) (2 ^ k)")
    case False
    show thesis
      by (rule oa_subscript_roomy [OF inv False absent, of dk dv 1]) (rule that, use k in \<open>simp_all add: numeral_2_eq_2\<close>)
  next
    case True
    then have "k \<le> 61" using oa_load_bound few by blast
    then have "k < 64" by simp
    have half: "oa_size m + 1 \<le> 2 ^ k" using room by simp
    show thesis
    proof (rule oa_subscript_slot_stops [OF inv room absent])
      fix p assume slot: "oa_subscript_slot (oa_table m) (oa_mask m) key (oa_hash hash m key)
          (length (oa_table m)) (oa_hash hash m key) = Inr p"
        and p: "p < length (oa_table m)" and here: "oa_here key (oa_table m ! p)"
      have "oa_lookup hash m key = Some (s_value (oa_table m ! p))"
        using oa_lookup_Some_iff [OF inv] p here unfolding oa_holds_def by blast
      then show thesis using slot p here inv k room
        by (intro that [of p m k]) (auto simp: numeral_2_eq_2 oa_subscript_rec.simps oa_here_def)
    next
      fix d assume slot: "oa_subscript_slot (oa_table m) (oa_mask m) key (oa_hash hash m key)
          (length (oa_table m)) (oa_hash hash m key) = Inr (oa_pos (2 ^ k) (oa_home hash k key) d)"
        and free: "s_status (oa_table m ! oa_pos (2 ^ k) (oa_home hash k key) d) \<noteq> OCCUPIED"
        and none: "oa_lookup hash m key = None"
      obtain m1 where m1: "oa_rehash hash dk dv m = Inr m1" "oa_inv hash (k + 1) m1" "oa_clean m1"
        "oa_lookup hash m1 = oa_lookup hash m" "oa_size m1 = oa_size m"
        using oa_rehash_ok [OF inv \<open>k < 64\<close>, of dk dv 1] by (auto simp: oa_rehash_def oa_insert_def numeral_2_eq_2)
      have light: "\<not> oa_overloaded (oa_size m1) (2 ^ (k + 1))" using oa_half_full [OF half] m1(5) by simp
      have step: "oa_subscript_rec hash dk dv 2 key m = oa_subscript_rec hash dk dv (Suc 0) key m1"
        unfolding numeral_2_eq_2 using slot free True len m1(1) by (subst oa_subscript_rec.simps) simp
      have absent': "oa_lookup hash m1 key = None \<or> oa_clean m1" using none m1(4) by simp
      obtain p m' where r: "oa_subscript_rec hash dk dv (Suc 0) key m1 = Inr (p, m')"
        "p < length (oa_table m')" "oa_here key (oa_table m' ! p)" "oa_inv hash (k + 1) m'"
        "oa_lookup hash m' = (oa_lookup hash m1)(key \<mapsto> s_value (oa_table m' ! p))"
        "s_value (oa_table m' ! p) = dv" "oa_clean m'" "oa_size m' < 2 ^ (k + 1)"
        by (rule oa_subscript_roomy [OF m1(2) light absent', of dk dv 0]) (use none m1(3,4) in auto)
      show thesis
        by (rule that [of p m' "k + 1"]) (use r step \<open>k \<le> 61\<close> none m1(4) in simp_all)
    qed
  qed
qed

lemma oa_subscript_ok:
  assumes "oa_ok hash m" and "oa_size m + 1 \<le> 2 ^ 61" and "oa_lookup hash m key = None \<or> oa_clean m"
  obtains v m' where "oa_subscript hash dk dv key m = Inr (v, m')" and "oa_ok hash m'"
    and "v = (case oa_lookup hash m key of None \<Rightarrow> dv | Some w \<Rightarrow> w)"
    and "oa_lookup hash m' = (oa_lookup hash m)(key \<mapsto> v)" and "oa_clean m \<Longrightarrow> oa_clean m'"
proof (rule oa_subscript_rec_ok [OF assms, of dk dv])
  fix p k m' assume r: "oa_subscript_rec hash dk dv 2 key m = Inr (p, m')"
    "p < length (oa_table m')" "oa_here key (oa_table m' ! p)" "k \<le> 62" "oa_inv hash k m'" "oa_size m' < 2 ^ k"
    "oa_lookup hash m' = (oa_lookup hash m)(key \<mapsto> s_value (oa_table m' ! p))"
    "oa_lookup hash m key = None \<Longrightarrow> s_value (oa_table m' ! p) = dv"
    "oa_lookup hash m key \<noteq> None \<Longrightarrow> m' = m" "oa_clean m \<Longrightarrow> oa_clean m'"
  have "oa_lookup hash m key = Some w \<Longrightarrow> w = s_value (oa_table m' ! p)" for w
    using r(7,9) by (metis fun_upd_same not_Some_eq option.sel)
  then show thesis using r
    by (intro that [of "s_value (oa_table m' ! p)" m'])
      (auto simp: oa_subscript_def oa_ok_def split: option.split)
qed

lemma oa_assign_ok:
  assumes "oa_ok hash m" and "oa_size m + 1 \<le> 2 ^ 61" and "oa_lookup hash m key = None \<or> oa_clean m"
  obtains m' where "oa_assign hash dk dv key v m = Inr m'" and "oa_ok hash m'"
    and "oa_lookup hash m' = (oa_lookup hash m)(key \<mapsto> v)" and "oa_clean m \<Longrightarrow> oa_clean m'"
proof (rule oa_subscript_rec_ok [OF assms, of dk dv])
  fix p k m' assume r: "oa_subscript_rec hash dk dv 2 key m = Inr (p, m')"
    "p < length (oa_table m')" "oa_here key (oa_table m' ! p)" "k \<le> 62" "oa_inv hash k m'" "oa_size m' < 2 ^ k"
    "oa_lookup hash m' = (oa_lookup hash m)(key \<mapsto> s_value (oa_table m' ! p))" "oa_clean m \<Longrightarrow> oa_clean m'"
  have "s_status (oa_table m' ! p) \<noteq> DELETED" using r(3) by (simp add: oa_here_def)
  then have "oa_clean m' \<Longrightarrow> oa_clean (oa_write p v m')" by (simp add: oa_write_put oa_clean_put)
  then show thesis using r oa_write_inv [OF r(5) r(2,3), of v]
    by (intro that [of "oa_write p v m'"]) (auto simp: oa_assign_def oa_ok_def oa_size_put_le)
qed

subsection \<open>Runs\<close>

definition oa_ops :: "('k \<Rightarrow> u64) \<Rightarrow> 'k \<Rightarrow> 'v \<Rightarrow> ('k, 'v, ('k, 'v) oam) store_ops" where
  "oa_ops hash dk dv = \<lparr>so_find = oa_find hash, so_contains = oa_contains hash, so_erase = oa_erase hash,
     so_subscript = oa_subscript hash dk dv, so_assign = oa_assign hash dk dv, so_insert = oa_insert hash dk dv\<rparr>"

text \<open>
  A call sequence that never puts a key that is there once something was erased; \<open>erased\<close>
  records whether that has happened.
\<close>

fun puts_key :: "('k, 'v) store_op \<Rightarrow> 'k option" where
  "puts_key (Insert k v) = Some k"
| "puts_key (Assign k v) = Some k"
| "puts_key (Subscript k) = Some k"
| "puts_key _ = None"

fun tombstone_safe :: "'v \<Rightarrow> ('k, 'v) store_op list \<Rightarrow> ('k \<rightharpoonup> 'v) \<Rightarrow> bool \<Rightarrow> bool" where
  "tombstone_safe d [] f erased = True"
| "tombstone_safe d (c # cs) f erased =
     ((case puts_key c of None \<Rightarrow> True | Some k \<Rightarrow> erased \<longrightarrow> f k = None) \<and>
      tombstone_safe d cs (snd (map_step d c f)) (erased \<or> (\<exists>k. c = Erase k)))"

lemma oa_size_card:
  assumes "oa_ok hash m"
  shows "oa_size m = card (dom (oa_lookup hash m))"
proof -
  obtain k where inv: "oa_inv hash k m" using assms by (auto simp: oa_ok_def)
  have "card (dom (oa_lookup hash m)) = card (set (map fst (oa_entries (oa_table m))))"
    by (simp add: oa_entries_lookup(1) [OF inv] dom_map_of_conv_image_fst)
  then show ?thesis
    using distinct_card [OF oa_entries_lookup(2) [OF inv]] oa_entries_lookup(3) [OF inv] by simp
qed

lemma oa_step_ok:
  assumes ok: "oa_ok hash m" and few: "card (dom (oa_lookup hash m)) + 1 \<le> 2 ^ 61"
    and clean: "erased \<or> oa_clean m"
    and safe: "case puts_key c of None \<Rightarrow> True | Some k \<Rightarrow> erased \<longrightarrow> oa_lookup hash m k = None"
  shows "\<exists>r m'. store_step (oa_ops hash dk dv) c m = Inr (r, m') \<and>
    map_step dv c (oa_lookup hash m) = (r, oa_lookup hash m') \<and> oa_ok hash m' \<and>
    (erased \<or> (\<exists>k. c = Erase k) \<or> oa_clean m')"
proof -
  have size: "oa_size m + 1 \<le> 2 ^ 61" using few oa_size_card [OF ok] by simp
  obtain k0 where k0: "k0 \<le> 62" "oa_inv hash k0 m" "oa_size m < 2 ^ k0" using ok by (auto simp: oa_ok_def)
  show ?thesis
  proof (cases c)
    case (Insert k v)
    then have "oa_lookup hash m k = None \<or> oa_clean m" using safe clean by auto
    then show ?thesis
      by (rule oa_insert_ok [OF ok size, of k dk dv v]) (use Insert clean in \<open>auto simp: oa_ops_def\<close>)
  next
    case (Assign k v)
    then have "oa_lookup hash m k = None \<or> oa_clean m" using safe clean by auto
    then show ?thesis
      by (rule oa_assign_ok [OF ok size, of k dk dv v]) (use Assign clean in \<open>auto simp: oa_ops_def\<close>)
  next
    case (Subscript k)
    then have absent: "oa_lookup hash m k = None \<or> oa_clean m" using safe clean by auto
    show ?thesis
    proof (rule oa_subscript_ok [OF ok size absent, of dk dv])
      fix v m' assume "oa_subscript hash dk dv k m = Inr (v, m')" "oa_ok hash m'"
        "v = (case oa_lookup hash m k of None \<Rightarrow> dv | Some w \<Rightarrow> w)"
        "oa_lookup hash m' = (oa_lookup hash m)(k \<mapsto> v)" "oa_clean m \<Longrightarrow> oa_clean m'"
      then show ?thesis using Subscript clean
        by (cases "oa_lookup hash m k") (auto simp: oa_ops_def fun_upd_idem)
    qed
  next
    case (Erase k)
    obtain m' where m': "oa_erase hash k m = Inr (oa_lookup hash m k \<noteq> None, m')" "oa_inv hash k0 m'"
      "oa_lookup hash m' = (oa_lookup hash m)(k := None)"
      using oa_erase_ok [OF k0(2), of k] by blast
    have "oa_size m' \<le> oa_size m"
      using oa_entries_lookup [OF m'(2)] oa_entries_lookup [OF k0(2)] m'(3)
        card_mono [of "dom (oa_lookup hash m)" "dom (oa_lookup hash m')"]
        finite_dom_map_of [of "oa_entries (oa_table m)"]
      by (metis Diff_subset distinct_card dom_fun_upd dom_map_of_conv_image_fst length_map list.set_map)
    then have "oa_ok hash m'" using m'(2) k0 unfolding oa_ok_def by (metis le_less_trans)
    then show ?thesis using Erase m' by (auto simp: oa_ops_def simp del: not_None_eq)
  next
    case (Find k)
    then show ?thesis using oa_find_lookup [OF k0(2)] ok clean by (auto simp: oa_ops_def)
  next
    case (Contains k)
    then show ?thesis using oa_contains_lookup [OF k0(2)] ok clean
      by (auto simp: oa_ops_def simp del: not_None_eq)
  qed
qed

lemma oa_run_ok:
  assumes "oa_ok hash m" and "erased \<or> oa_clean m"
    and "map_peak dv cs (oa_lookup hash m) + 1 \<le> 2 ^ 61"
    and "tombstone_safe dv cs (oa_lookup hash m) erased"
  shows "\<exists>rs m'. store_run (oa_ops hash dk dv) cs m = Inr (rs, m') \<and>
    map_run dv cs (oa_lookup hash m) = (rs, oa_lookup hash m')"
  using assms
proof (induction cs arbitrary: m erased)
  case (Cons c cs)
  have few: "card (dom (oa_lookup hash m)) + 1 \<le> 2 ^ 61" using Cons.prems(3) by simp
  have safe: "case puts_key c of None \<Rightarrow> True | Some k \<Rightarrow> erased \<longrightarrow> oa_lookup hash m k = None"
    using Cons.prems(4) by simp
  obtain r m1 where m1: "store_step (oa_ops hash dk dv) c m = Inr (r, m1)"
    "map_step dv c (oa_lookup hash m) = (r, oa_lookup hash m1)" "oa_ok hash m1"
    "(erased \<or> (\<exists>k. c = Erase k)) \<or> oa_clean m1"
    using oa_step_ok [OF Cons.prems(1) few Cons.prems(2) safe, of dk dv] by blast
  have "\<exists>rs m'. store_run (oa_ops hash dk dv) cs m1 = Inr (rs, m') \<and>
      map_run dv cs (oa_lookup hash m1) = (rs, oa_lookup hash m')"
    using Cons.prems(3,4) m1(2) by (intro Cons.IH [OF m1(3,4)]) simp_all
  then show ?case using m1(1,2) by auto
qed simp

lemma oa_new_ok:
  assumes "pow2_capacity c" and "c \<le> 2 ^ 62"
  shows "oa_ok hash (oa_new dk dv c)" and "oa_clean (oa_new dk dv c)"
    and "oa_lookup hash (oa_new dk dv c) = Map.empty"
proof -
  obtain k where k: "k < 64" "c = 2 ^ k" using assms(1) by (rule pow2_capacityE)
  have "unat c \<le> unat (2 ^ 62 :: u64)" using assms(2) by (simp add: word_le_nat_alt)
  then have "(2 :: nat) ^ k \<le> 2 ^ 62" using k unat_pow2 [of k] unat_pow2 [of 62] by simp
  then have "k \<le> 62" using power_le_imp_le_exp [of "2 :: nat" k 62] by linarith
  have "oa_shape k (oa_new dk dv c)" and "oa_table (oa_new dk dv c) = replicate (2 ^ k) (oa_blank dk dv)"
    and used: "oa_size (oa_new dk dv c) = 0"
    using k by (simp_all add: oa_shape_def oa_new_def unat_pow2)
  note blank = oa_table_blank [OF this]
  show "oa_ok hash (oa_new dk dv c)" "oa_clean (oa_new dk dv c)"
    "oa_lookup hash (oa_new dk dv c) = Map.empty"
    using blank used \<open>k \<le> 62\<close> by (auto simp: oa_ok_def)
qed

subsection \<open>Properties\<close>

text \<open>
  Claim C10.  \<open>OpenAddressingHashMap\<close> is a map, through every growth of its table, as long as no
  key that is there is put again after an erase: for every hash function and power-of-two bucket
  count, each call of such a sequence answers what a partial function answers and none fails or
  loops.  (The bounds on the bucket count and on the keys held at a time are beyond any memory.)
\<close>

theorem oa_simulates_map:
  assumes "pow2_capacity c" and "c \<le> 2 ^ 62"
    and "tombstone_safe dv cs Map.empty False" and "map_peak dv cs Map.empty < 2 ^ 61"
  shows "\<exists>rs m'. store_run (oa_ops hash dk dv) cs (oa_new dk dv c) = Inr (rs, m') \<and>
    map_run dv cs Map.empty = (rs, oa_lookup hash m')"
proof -
  have empty: "oa_lookup hash (oa_new dk dv c) = Map.empty" by (rule oa_new_ok(3) [OF assms(1,2)])
  have "\<exists>rs m'. store_run (oa_ops hash dk dv) cs (oa_new dk dv c) = Inr (rs, m') \<and>
      map_run dv cs (oa_lookup hash (oa_new dk dv c)) = (rs, oa_lookup hash m')"
    by (rule oa_run_ok [OF oa_new_ok(1) [OF assms(1,2)], of False])
      (use oa_new_ok(2) [OF assms(1,2)] assms(3,4) in \<open>simp_all add: empty Suc_le_eq\<close>)
  then show ?thesis by (simp only: empty)
qed

theorem oa_simulates_map_witness:
  "\<exists>rs m'. store_run (oa_ops hash_u64 0 (0 :: nat)) [Insert 1 10, Insert 5 50, Assign 1 11, Subscript 9, Erase 5, Insert 5 51, Find 1]
      (oa_new 0 0 1) = Inr (rs, m') \<and>
    map_run 0 [Insert 1 10, Insert 5 50, Assign 1 11, Subscript 9, Erase 5, Insert 5 51, Find 1] Map.empty
      = (rs, oa_lookup hash_u64 m')"
  by (rule oa_simulates_map) (simp_all add: pow2_capacity_def insert_Diff_if)

end
