(* ===== verification/ProbeFaults.thy ===== *)
theory ProbeFaults
  imports OpenAddressing
begin

text \<open>
  Where \<open>OpenAddressingHashMap\<close> of \<^verbatim>\<open>HFT/HashMap.hpp\<close> is not a map: putting a key back over a
  tombstone leaves its old entry behind, and with a bucket count that is not a power of two probing
  goes round a small part of the table for ever.
\<close>

text \<open>Evaluating on small tables.\<close>

lemma oa_overloaded_exact:
  assumes "used + 1 < 2 ^ 24"
  shows "oa_overloaded used (2 ^ k) \<longleftrightarrow> 11744051 * 2 ^ k < (used + 1) * 2 ^ 24"
proof -
  have "round_even 24 (11744051 * 2 ^ k) = 11744051 * 2 ^ k" by (rule round_even_exact) simp
  then show ?thesis
    using round_even_small [OF assms] by (simp add: oa_overloaded_def round_even_pow2 ac_simps)
qed

lemma oa_overloaded_small:
  assumes "used + 1 < 2 ^ 24"
  shows "oa_overloaded used (Suc (Suc (Suc (Suc 0)))) \<longleftrightarrow> 46976204 < (used + 1) * 2 ^ 24"
    and "oa_overloaded used (Suc (Suc (Suc (Suc (Suc 0))))) \<longleftrightarrow> 58720256 < (used + 1) * 2 ^ 24"
    and "oa_overloaded used (Suc (Suc (Suc (Suc (Suc (Suc (Suc (Suc 0)))))))) \<longleftrightarrow> 93952408 < (used + 1) * 2 ^ 24"
proof -
  have four: "Suc (Suc (Suc (Suc 0))) = 2 ^ 2" and five: "Suc (Suc (Suc (Suc (Suc 0)))) = 5"
    and eight: "Suc (Suc (Suc (Suc (Suc (Suc (Suc (Suc 0))))))) = 2 ^ 3" by simp_all
  show "oa_overloaded used (Suc (Suc (Suc (Suc 0)))) \<longleftrightarrow> 46976204 < (used + 1) * 2 ^ 24"
    unfolding four oa_overloaded_exact [OF assms] by simp
  show "oa_overloaded used (Suc (Suc (Suc (Suc (Suc (Suc (Suc (Suc 0)))))))) \<longleftrightarrow> 93952408 < (used + 1) * 2 ^ 24"
    unfolding eight oa_overloaded_exact [OF assms] by simp
  have "round_even 24 (round_even 24 5 * 11744051) = 58720256"
    by (simp add: round_even_def bits_numeral)
  then show "oa_overloaded used (Suc (Suc (Suc (Suc (Suc 0))))) \<longleftrightarrow> 58720256 < (used + 1) * 2 ^ 24"
    unfolding five oa_overloaded_def using round_even_small [OF assms] by simp
qed

lemma oa_insert_unfold:
  "oa_insert hash dk dv key v m = bind_res
       (if oa_overloaded (oa_size m) (length (oa_table m))
        then oa_reinsert (oa_insert_rec hash dk dv (Suc 0)) (oa_table m) (oa_doubled dk dv m)
        else Inr m)
       (oa_place hash key v)"
  by (simp add: oa_insert_def numeral_2_eq_2 oa_insert_rec.simps)

lemma oa_new_small:
  "oa_new dk dv 4 = \<lparr>oa_table = replicate 4 (oa_blank dk dv), oa_size = 0, oa_mask = 3\<rparr>"
  "oa_new dk dv 5 = \<lparr>oa_table = replicate 5 (oa_blank dk dv), oa_size = 0, oa_mask = 4\<rparr>"
  by (simp_all add: oa_new_def)

lemma replicate_small:
  "replicate 4 x = [x, x, x, x]" "replicate 5 x = [x, x, x, x, x]" "replicate 8 x = [x, x, x, x, x, x, x, x]"
  by (simp_all add: numeral_eq_Suc)

lemmas oa_evaluate = oa_new_small replicate_small oa_insert_unfold oa_insert_rec.simps oa_overloaded_small
  oa_place_def oa_hash_def hash_u64_def oa_blank_def oa_fill_def oa_ops_def oa_write_def oa_erase_def
  oa_find_def oa_contains_def oa_doubled_def

subsection \<open>Tombstones\<close>

text \<open>The key is in the table, behind a deleted slot of its probe sequence.\<close>

definition behind_tombstone :: "('k \<Rightarrow> u64) \<Rightarrow> nat \<Rightarrow> ('k, 'v) oam \<Rightarrow> 'k \<Rightarrow> 'v \<Rightarrow> bool" where
  "behind_tombstone hash k m key old \<longleftrightarrow> (\<exists>j < 2 ^ k. \<exists>i < j.
     oa_here key (oa_at k m (oa_home hash k key) j) \<and> s_value (oa_at k m (oa_home hash k key) j) = old \<and>
     s_status (oa_at k m (oa_home hash k key) i) = DELETED)"

text \<open>The search stops at the first slot of the probe sequence that has the key.\<close>

lemma oa_search_hit:
  assumes shape: "oa_shape k m" and d: "d < 2 ^ k"
    and before: "\<And>j. j < d \<Longrightarrow> s_status (oa_at k m (oa_home hash k key) j) \<noteq> EMPTY \<and>
      \<not> oa_here key (oa_at k m (oa_home hash k key) j)"
    and here: "oa_here key (oa_at k m (oa_home hash k key) d)"
  shows "oa_search (oa_table m) (oa_mask m) key (oa_hash hash m key) (length (oa_table m)) (oa_hash hash m key)
    = Inr (Some (oa_pos (2 ^ k) (oa_home hash k key) d))"
  using oa_search_from [OF shape oa_hash_home [OF shape, of hash key] oa_hash_home [OF shape, of hash key],
      where d = d and fuel = "2 ^ k" and key = key] d before here shape
  by (simp add: oa_here_def oa_shape_def)

text \<open>The first free slot before an entry of a table that satisfies the invariant is a tombstone.\<close>

lemma oa_first_tombstone:
  assumes inv: "oa_inv hash k m" and stale: "behind_tombstone hash k m key old"
  obtains d j where "d < j" and "j < 2 ^ k" and "oa_here key (oa_at k m (oa_home hash k key) j)"
    and "s_value (oa_at k m (oa_home hash k key) j) = old"
    and "s_status (oa_at k m (oa_home hash k key) d) = DELETED"
    and "\<And>i. i < d \<Longrightarrow> s_status (oa_at k m (oa_home hash k key) i) = OCCUPIED"
    and "\<And>i. i < j \<Longrightarrow> s_status (oa_at k m (oa_home hash k key) i) \<noteq> EMPTY"
    and "\<And>i. i < 2 ^ k \<Longrightarrow> oa_here key (oa_at k m (oa_home hash k key) i) \<Longrightarrow> i = j"
proof -
  let ?at = "oa_at k m (oa_home hash k key)"
  obtain j i where j: "j < 2 ^ k" "oa_here key (?at j)" "s_value (?at j) = old"
    and i: "i < j" "s_status (?at i) = DELETED"
    using stale by (auto simp: behind_tombstone_def)
  have shape: "oa_shape k m" and probed: "oa_probed hash k m" and unique: "oa_unique m"
    using inv by (simp_all add: oa_inv_def)
  have full: "s_status (?at n) \<noteq> EMPTY" if "n < j" for n
    using probed j(1,2) that unfolding oa_probed_def by blast
  have only: "n = j" if "n < 2 ^ k" "oa_here key (?at n)" for n
    using unique that j(1,2) oa_at_in_range [OF shape] oa_pos_inj [of "2 ^ k" _ n j]
    unfolding oa_unique_def oa_at_def by blast
  define d where "d = (LEAST n. s_status (?at n) \<noteq> OCCUPIED)"
  have free: "s_status (?at d) \<noteq> OCCUPIED"
    unfolding d_def by (rule LeastI [of _ i]) (simp add: i(2))
  have "d \<le> i" unfolding d_def by (rule Least_le) (simp add: i(2))
  then have dj: "d < j" using i(1) by simp
  have "s_status (?at d) = DELETED" using free full [OF dj] by (cases "s_status (?at d)") auto
  moreover have "s_status (?at n) = OCCUPIED" if "n < d" for n
    using that not_less_Least unfolding d_def by blast
  ultimately show thesis using dj j full only that by blast
qed

lemma oa_insert_light:
  "\<not> oa_overloaded (oa_size m) (length (oa_table m)) \<Longrightarrow> oa_insert hash dk dv key v m = oa_place hash key v m"
  by (simp add: oa_insert_unfold)

text \<open>The new entry goes to the tombstone; with it erased, the old entry is found again.\<close>

lemma oa_stale_entry:
  assumes inv: "oa_inv hash k m" and stale: "behind_tombstone hash k m key old"
    and light: "\<not> oa_overloaded (oa_size m) (2 ^ k)"
  shows "\<exists>m1 m2. oa_insert hash dk dv key new m = Inr m1 \<and> oa_find hash key m1 = Inr (Some new) \<and>
    oa_erase hash key m1 = Inr (True, m2) \<and> oa_contains hash key m2 = Inr True \<and>
    oa_find hash key m2 = Inr (Some old)"
proof -
  let ?h = "oa_home hash k key"
  have shape: "oa_shape k m" using inv by (simp add: oa_inv_def)
  have len: "length (oa_table m) = 2 ^ k" using shape by (simp add: oa_shape_def)
  obtain d j where dj: "d < j" "j < 2 ^ k" "oa_here key (oa_at k m ?h j)" "s_value (oa_at k m ?h j) = old"
      "s_status (oa_at k m ?h d) = DELETED"
    and occ: "\<And>i. i < d \<Longrightarrow> s_status (oa_at k m ?h i) = OCCUPIED"
    and full: "\<And>i. i < j \<Longrightarrow> s_status (oa_at k m ?h i) \<noteq> EMPTY"
    and only: "\<And>i. i < 2 ^ k \<Longrightarrow> oa_here key (oa_at k m ?h i) \<Longrightarrow> i = j"
    by (rule oa_first_tombstone [OF inv stale]) blast
  have others: "\<not> oa_here key (oa_at k m ?h i)" if "i < j" for i
    using only [of i] that dj(2) by auto
  define p where "p = oa_pos (2 ^ k) ?h d"
  have p: "p < length (oa_table m)" unfolding p_def by (rule oa_at_in_range [OF shape])
  have pos: "oa_pos (2 ^ k) ?h i = p \<longleftrightarrow> i = d" if "i < 2 ^ k" for i
    using oa_pos_inj [of "2 ^ k" ?h i d] that dj(1,2) by (auto simp: p_def)
  define m1 where "m1 = oa_fill p key new m"
  define m2 where "m2 = oa_put p ((oa_table m1 ! p)\<lparr>s_status := DELETED\<rparr>) (oa_size m1 - 1) m1"
  have shape1: "oa_shape k m1" and p1: "p < length (oa_table m1)" and shape2: "oa_shape k m2"
    using shape p by (simp_all add: m1_def m2_def oa_fill_put)
  have at1: "oa_at k m1 ?h i = (if i = d then \<lparr>s_key = key, s_value = new, s_status = OCCUPIED\<rparr> else oa_at k m ?h i)"
    if "i < 2 ^ k" for i
    using pos [OF that] oa_at_put [OF shape p, of _ _ ?h i] by (simp add: m1_def oa_fill_put)
  have at2: "s_status (oa_at k m2 ?h i) = (if i = d then DELETED else s_status (oa_at k m ?h i))"
      "i \<noteq> d \<Longrightarrow> oa_at k m2 ?h i = oa_at k m ?h i" if "i < 2 ^ k" for i
    using pos [OF that] oa_at_put [OF shape1 p1, of _ _ ?h i] at1 [OF that] by (simp_all add: m2_def)
  have "oa_claim (oa_table m) (oa_mask m) key (length (oa_table m)) (oa_hash hash m key) = Inr p"
    unfolding p_def using dj occ others by (intro oa_claim_stops [OF shape]) (auto simp: oa_here_def)
  moreover have "s_status (oa_table m ! p) \<noteq> OCCUPIED" using dj(5) by (simp add: p_def oa_at_def)
  ultimately have insert: "oa_insert hash dk dv key new m = Inr m1"
    using light len by (simp add: oa_insert_light oa_place_def m1_def)
  have hit1: "oa_search (oa_table m1) (oa_mask m1) key (oa_hash hash m1 key) (length (oa_table m1)) (oa_hash hash m1 key)
      = Inr (Some p)"
    unfolding p_def using dj(1,2) at1 full others by (intro oa_search_hit [OF shape1]) (auto simp: oa_here_def)
  have "s_value (oa_table m1 ! p) = new" using p by (simp add: m1_def oa_fill_def)
  with hit1 have find1: "oa_find hash key m1 = Inr (Some new)" by (simp add: oa_find_def)
  have erase: "oa_erase hash key m1 = Inr (True, m2)"
    by (simp add: oa_erase_def hit1 m2_def oa_put_def)
  have hit2: "oa_search (oa_table m2) (oa_mask m2) key (oa_hash hash m2 key) (length (oa_table m2)) (oa_hash hash m2 key)
      = Inr (Some (oa_pos (2 ^ k) ?h j))"
  proof (rule oa_search_hit [OF shape2 dj(2)])
    show "oa_here key (oa_at k m2 ?h j)" using at2(2) [of j] dj by simp
    fix i assume i: "i < j"
    then have "i < 2 ^ k" using dj(2) by simp
    from at2 [OF this] full [OF i] others [OF i]
    show "s_status (oa_at k m2 ?h i) \<noteq> EMPTY \<and> \<not> oa_here key (oa_at k m2 ?h i)"
      by (cases "i = d") (simp_all add: oa_here_def)
  qed
  have "s_value (oa_table m2 ! oa_pos (2 ^ k) ?h j) = old"
    using at2(2) [of j] dj by (simp add: oa_at_def)
  with hit2 have "oa_find hash key m2 = Inr (Some old)" and "oa_contains hash key m2 = Inr True"
    by (simp_all add: oa_find_def oa_contains_def)
  with insert find1 erase show ?thesis by blast
qed

subsection \<open>Probing that goes round for ever\<close>

text \<open>
  The loop of \<open>insert\<close> is stuck as long as it meets occupied slots with other keys.  Its index
  depends on the last one alone, so with all the slots of a table tried without an end it goes round
  for ever: the fuel that \<open>oa_place\<close> gives it is enough to tell.
\<close>

definition oa_walk :: "u64 \<Rightarrow> nat \<Rightarrow> u64 \<Rightarrow> u64" where
  "oa_walk msk n = (\<lambda>i. (i + 1) AND msk) ^^ n"

lemma oa_walk_simps [simp]:
  "oa_walk msk 0 i = i" "oa_walk msk (Suc n) i = (oa_walk msk n i + 1) AND msk"
  by (simp_all add: oa_walk_def)

lemma oa_walk_Suc_first: "oa_walk msk (Suc n) i = oa_walk msk n ((i + 1) AND msk)"
  using funpow_swap1 [of "\<lambda>i. (i + 1) AND msk" n i] by (simp add: oa_walk_def)

lemma oa_walk_add: "oa_walk msk (n + n') i = oa_walk msk n (oa_walk msk n' i)"
  by (simp add: oa_walk_def funpow_add)

definition oa_blocked :: "('k, 'v) slot list \<Rightarrow> 'k \<Rightarrow> u64 \<Rightarrow> bool" where
  "oa_blocked t key i \<longleftrightarrow> unat i < length t \<and> s_status (t ! unat i) = OCCUPIED \<and> s_key (t ! unat i) \<noteq> key"

lemma oa_claim_stuck:
  "oa_claim t msk key fuel index = Inl Diverges \<longleftrightarrow> (\<forall>j < fuel. oa_blocked t key (oa_walk msk j index))"
proof (induction fuel arbitrary: index)
  case (Suc fuel)
  have "(\<forall>j < Suc fuel. oa_blocked t key (oa_walk msk j index)) \<longleftrightarrow>
      oa_blocked t key index \<and> (\<forall>j < fuel. oa_blocked t key (oa_walk msk j ((index + 1) AND msk)))"
    unfolding All_less_Suc2 by (simp only: oa_walk_Suc_first oa_walk_simps(1))
  then show ?case using Suc by (auto simp: oa_blocked_def)
qed simp

lemma oa_claim_round:
  assumes msk: "unat msk < length t" and stuck: "oa_claim t msk key (length t) index = Inl Diverges"
  shows "oa_claim t msk key fuel index = Inl Diverges"
proof -
  let ?w = "\<lambda>j. oa_walk msk j index" and ?n = "length t"
  have blocked: "oa_blocked t key (?w j)" if "j < ?n" for j
    using stuck that by (simp add: oa_claim_stuck)
  have range: "unat (?w j) < ?n" if "j \<le> ?n" for j
  proof (cases j)
    case 0
    have "0 < ?n" using msk by linarith
    from blocked [OF this] show ?thesis unfolding 0 by (simp add: oa_blocked_def)
  next
    case (Suc j')
    have "?w j \<le> msk" unfolding Suc by (simp add: word_and_le1)
    then show ?thesis using msk by (simp add: word_le_nat_alt)
  qed
  have "\<not> inj_on (\<lambda>j. unat (?w j)) {..?n}"
  proof
    assume "inj_on (\<lambda>j. unat (?w j)) {..?n}"
    moreover have "(\<lambda>j. unat (?w j)) ` {..?n} \<subseteq> {..<?n}" using range by auto
    ultimately have "card {..?n} \<le> card {..<?n}" by (intro card_inj_on_le) simp_all
    then show False by simp
  qed
  then obtain i j where ij: "i < j" "j \<le> ?n" "?w i = ?w j"
    by (auto simp: inj_on_def) (metis linorder_neqE_nat word_unat_eq_iff)
  have near: "\<exists>r < j. ?w m = ?w r" for m
  proof (induction m rule: less_induct)
    case (less m)
    show ?case
    proof (cases "m < j")
      case False
      then have "?w m = ?w (i + (m - j))"
        using oa_walk_add [of msk "m - j" j index] oa_walk_add [of msk "m - j" i index] ij(3)
        by (simp add: add.commute)
      then show ?thesis using less [of "i + (m - j)"] False ij(1) by auto
    qed auto
  qed
  have "oa_blocked t key (?w m)" for m using near [of m] blocked ij(2) by (metis less_le_trans)
  then show ?thesis by (simp add: oa_claim_stuck)
qed

text \<open>
  A count that is not a power of two is \<open>2 ^ b\<close> times an odd number from three on.  Bit \<open>b\<close> of the
  mask is then zero and the bits below it are ones, so probing only counts in those: it goes round
  \<open>2 ^ b\<close> slots.
\<close>

lemma odd_factor: "0 < n \<Longrightarrow> \<exists>b q. n = 2 ^ b * (2 * q + 1 :: nat)"
proof (induction n rule: less_induct)
  case (less n)
  show ?case
  proof (cases "even n")
    case True
    then obtain h where h: "n = 2 * h" by (rule evenE)
    then obtain b q where "h = 2 ^ b * (2 * q + 1)" using less by fastforce
    then have "n = 2 ^ Suc b * (2 * q + 1)" using h by simp
    then show ?thesis by blast
  next
    case False
    then obtain q where "n = 2 ^ 0 * (2 * q + 1)" by (auto elim: oddE)
    then show ?thesis by blast
  qed
qed

lemma pow2_capacity_pow2: "k < 64 \<Longrightarrow> pow2_capacity (2 ^ k)"
  by (auto simp: pow2_capacity_def intro!: bit_word_eqI simp: bit_simps simp flip: mask_eq_exp_minus_1)

lemma not_pow2_count:
  assumes "c \<noteq> 0" and "\<not> pow2_capacity c"
  obtains b q where "unat c = 2 ^ b * (2 * q + 1)" and "0 < q"
proof -
  have "0 < unat c" using assms(1) by (simp add: unat_gt_0)
  then obtain b q where bq: "unat c = 2 ^ b * (2 * q + 1)" using odd_factor by blast
  have "q \<noteq> 0"
  proof
    assume "q = 0"
    then have c: "unat c = 2 ^ b" using bq by simp
    then have "(2 :: nat) ^ b < 2 ^ 64" using unat_u64_less [of c] by simp
    then have "b < 64" using power_less_imp_less_exp [of "2 :: nat" b 64] by simp
    moreover from this have "c = 2 ^ b" using c unat_pow2 [of b] by (metis word_unat_eq_iff)
    ultimately show False using assms(2) pow2_capacity_pow2 by simp
  qed
  then show thesis using bq that by simp
qed

lemma oa_mask_and:
  assumes "unat (msk :: u64) = q * 2 ^ (b + 1) + (2 ^ b - 1)"
  shows "unat (w AND msk) div 2 ^ (b + 1) = (unat w div 2 ^ (b + 1)) AND q"
    and "unat (w AND msk) mod 2 ^ (b + 1) = unat w mod 2 ^ b"
proof -
  have low: "(2 :: nat) ^ b - 1 < 2 ^ (b + 1)" by (rule le_less_trans [of _ "2 ^ b"]) simp_all
  have div: "unat msk div 2 ^ (b + 1) = q" and mod: "unat msk mod 2 ^ (b + 1) = 2 ^ b - 1"
    unfolding assms using low by (simp_all only: div_mult_self3 mod_mult_self3 div_less mod_less)
  have "unat (w AND msk) div 2 ^ (b + 1) = drop_bit (b + 1) (unat w AND unat msk)"
    by (simp only: unsigned_and_eq drop_bit_eq_div)
  also have "\<dots> = drop_bit (b + 1) (unat w) AND drop_bit (b + 1) (unat msk)" by (rule drop_bit_and)
  finally show "unat (w AND msk) div 2 ^ (b + 1) = (unat w div 2 ^ (b + 1)) AND q"
    using div by (simp only: drop_bit_eq_div)
  have "unat (w AND msk) mod 2 ^ (b + 1) = take_bit (b + 1) (unat w AND unat msk)"
    by (simp only: unsigned_and_eq take_bit_eq_mod)
  also have "\<dots> = take_bit (b + 1) (unat w) AND take_bit (b + 1) (unat msk)" by (rule take_bit_and)
  also have "take_bit (b + 1) (unat msk) = mask b" using mod by (simp only: take_bit_eq_mod mask_eq_exp_minus_1)
  also have "take_bit (b + 1) (unat w) AND mask b = take_bit b (unat w)"
    by (simp add: take_bit_take_bit flip: take_bit_eq_mask)
  finally show "unat (w AND msk) mod 2 ^ (b + 1) = unat w mod 2 ^ b" by (simp only: take_bit_eq_mod)
qed

lemma oa_walk_low:
  assumes msk: "unat msk = q * 2 ^ (b + 1) + (2 ^ b - 1)" and i: "unat i < 2 ^ b"
  shows "unat (oa_walk msk n i) < 2 ^ b"
proof (induction n)
  case (Suc n)
  let ?w = "oa_walk msk n i"
  have "unat (?w + 1) \<le> Suc (unat ?w)" by (simp add: unat_word_ariths)
  then have "unat (?w + 1) \<le> 2 ^ b" using Suc by simp
  then have "unat (?w + 1) div 2 ^ (b + 1) = 0" by (intro div_less) (simp add: le_less_trans)
  then have "unat ((?w + 1) AND msk) div 2 ^ (b + 1) = 0" using oa_mask_and(1) [OF msk, of "?w + 1"] by simp
  moreover have "unat ((?w + 1) AND msk) mod 2 ^ (b + 1) < 2 ^ b" unfolding oa_mask_and(2) [OF msk] by simp
  ultimately show ?case by (metis div_mult_mod_eq mult_0 add_0 oa_walk_simps(2))
qed (use i in simp)

text \<open>So many entries as one round of slots are far from the load limit.\<close>

lemma oa_group_light:
  assumes "used \<le> 2 ^ b" and "0 < q"
  shows "\<not> oa_overloaded used (2 ^ b * (2 * q + 1))"
proof -
  have "3 * 2 ^ b \<le> 2 ^ b * (2 * q + 1)" using assms(2) by simp
  then have "round_even 24 (3 * 2 ^ b) \<le> round_even 24 (2 ^ b * (2 * q + 1))" by (rule round_even_mono) simp
  then have "3 * 2 ^ b \<le> round_even 24 (2 ^ b * (2 * q + 1))" by (simp add: round_even_exact)
  then have "8808038 * 2 ^ (b + 2) \<le> round_even 24 (2 ^ b * (2 * q + 1)) * 11744051" by simp
  then have "round_even 24 (8808038 * 2 ^ (b + 2)) \<le> round_even 24 (round_even 24 (2 ^ b * (2 * q + 1)) * 11744051)"
    by (rule round_even_mono) simp
  moreover have "round_even 24 (8808038 * 2 ^ (b + 2)) = 8808038 * 2 ^ (b + 2)" by (rule round_even_exact) simp
  moreover have "round_even 24 (used + 1) \<le> 2 * 2 ^ b"
  proof -
    have "1 \<le> (2 :: nat) ^ b" by simp
    then have "used + 1 \<le> 2 ^ (b + 1)" using assms(1) by (simp only: power_add power_one_right)
    then have "round_even 24 (used + 1) \<le> round_even 24 (2 ^ (b + 1))" by (rule round_even_mono) simp
    then show ?thesis unfolding round_even_pow2 [of 24, OF zero_less_numeral] by simp
  qed
  ultimately show ?thesis by (simp add: oa_overloaded_def)
qed

text \<open>The table with the keys \<open>0, \<dots>, i - 1\<close> in the slots of the same numbers.\<close>

definition low_filled :: "u64 \<Rightarrow> 'v \<Rightarrow> 'v \<Rightarrow> u64 \<Rightarrow> nat \<Rightarrow> (u64, 'v) oam" where
  "low_filled dk dv v c i =
     \<lparr>oa_table = map (\<lambda>j. \<lparr>s_key = of_nat j, s_value = v, s_status = OCCUPIED\<rparr>) [0..<i] @
        replicate (unat c - i) (oa_blank dk dv), oa_size = i, oa_mask = c - 1\<rparr>"

lemma low_filled_new: "low_filled dk dv v c 0 = oa_new dk dv c"
  by (simp add: low_filled_def oa_new_def)

lemma low_filled_length: "i \<le> unat c \<Longrightarrow> length (oa_table (low_filled dk dv v c i)) = unat c"
  by (simp add: low_filled_def)

lemma low_filled_nth:
  "j < i \<Longrightarrow> oa_table (low_filled dk dv v c i) ! j = \<lparr>s_key = of_nat j, s_value = v, s_status = OCCUPIED\<rparr>"
  "i \<le> j \<Longrightarrow> j < unat c \<Longrightarrow> oa_table (low_filled dk dv v c i) ! j = oa_blank dk dv"
  by (simp_all add: low_filled_def nth_append)

lemma low_filled_fill:
  assumes "i < unat c"
  shows "oa_fill i (of_nat i) v (low_filled dk dv v c i) = low_filled dk dv v c (Suc i)"
proof -
  have "unat c - i = Suc (unat c - Suc i)" using assms by simp
  then show ?thesis by (simp add: oa_fill_def low_filled_def list_update_append)
qed

lemma low_count:
  assumes "unat (c :: u64) = 2 ^ b * (2 * q + 1)" and "0 < q"
  shows "2 ^ b < unat c" and "unat (c - 1) = q * 2 ^ (b + 1) + (2 ^ b - 1)"
proof -
  show "2 ^ b < unat c" using assms by simp
  have "0 < unat c" using assms(1) by simp
  then have "unat (c - 1) = unat c - 1" by (rule unat_minus_one_pos)
  also have "\<dots> = q * 2 ^ (b + 1) + 2 ^ b - 1" by (simp add: assms(1) algebra_simps)
  finally show "unat (c - 1) = q * 2 ^ (b + 1) + (2 ^ b - 1)" by simp
qed

lemma low_home:
  assumes c: "unat c = 2 ^ b * (2 * q + 1)" and q: "0 < q" and i: "i \<le> 2 ^ b"
  shows "unat (oa_hash hash_u64 (low_filled dk dv v c n) (of_nat i)) = i mod 2 ^ b"
proof -
  have "i < 2 ^ 64" using i low_count(1) [OF c q] unat_u64_less [of c] by linarith
  then have u: "unat (of_nat i :: u64) = i" by (rule unat_small)
  let ?h = "of_nat i AND (c - 1)"
  have "unat ?h div 2 ^ (b + 1) = 0"
    unfolding oa_mask_and(1) [OF low_count(2) [OF c q]] u using i by (simp add: le_less_trans)
  moreover have "unat ?h mod 2 ^ (b + 1) = i mod 2 ^ b"
    unfolding oa_mask_and(2) [OF low_count(2) [OF c q]] u ..
  ultimately have "unat ?h = i mod 2 ^ b" by (metis div_mult_mod_eq mult_0 add_0)
  then show ?thesis by (simp add: oa_hash_def hash_u64_def low_filled_def)
qed

lemma low_insert:
  assumes c: "unat c = 2 ^ b * (2 * q + 1)" and q: "0 < q" and i: "i < 2 ^ b"
  shows "oa_insert hash_u64 dk dv (of_nat i) v (low_filled dk dv v c i) = Inr (low_filled dk dv v c (Suc i))"
proof -
  have less: "i < unat c" using low_count(1) [OF c q] i by simp
  let ?m = "low_filled dk dv v c i"
  have len: "length (oa_table ?m) = unat c" using less by (simp add: low_filled_length)
  have home: "unat (oa_hash hash_u64 ?m (of_nat i)) = i" using low_home [OF c q, of i] i by simp
  have slot: "oa_table ?m ! i = oa_blank dk dv" using low_filled_nth(2) [of i i c] less by simp
  obtain n where n: "unat c = Suc n" using less by (cases "unat c") simp_all
  have "oa_claim (oa_table ?m) (oa_mask ?m) (of_nat i) (Suc n) (oa_hash hash_u64 ?m (of_nat i)) = Inr i"
    using len less home by (simp add: slot oa_blank_def)
  then have "oa_claim (oa_table ?m) (oa_mask ?m) (of_nat i) (length (oa_table ?m)) (oa_hash hash_u64 ?m (of_nat i)) = Inr i"
    unfolding len n .
  moreover have "\<not> oa_overloaded (oa_size ?m) (length (oa_table ?m))"
    using oa_group_light [of i b q] i q by (simp add: len c low_filled_def)
  ultimately show ?thesis
    by (simp add: oa_insert_light oa_place_def slot oa_blank_def low_filled_fill [OF less])
qed

lemma low_inserts:
  assumes c: "unat c = 2 ^ b * (2 * q + 1)" and q: "0 < q" and n: "i + n \<le> 2 ^ b"
  shows "store_run (oa_ops hash_u64 dk dv) (map (\<lambda>j. Insert (of_nat j) v) [i..<i + n]) (low_filled dk dv v c i)
    = Inr (replicate n Done, low_filled dk dv v c (i + n))"
  using n
proof (induction n arbitrary: i)
  case (Suc n)
  have calls: "[i..<i + Suc n] = i # [Suc i..<Suc i + n]" by (subst upt_conv_Cons) simp_all
  have "store_step (oa_ops hash_u64 dk dv) (Insert (of_nat i) v) (low_filled dk dv v c i)
      = Inr (Done, low_filled dk dv v c (Suc i))"
    using low_insert [OF c q, of i dk dv v] Suc.prems by (simp add: oa_ops_def)
  then show ?case using Suc.IH [of "Suc i"] Suc.prems
    unfolding calls by (simp del: store_step.simps upt.simps of_nat_Suc)
qed simp

lemma low_stuck:
  assumes c: "unat c = 2 ^ b * (2 * q + 1)" and q: "0 < q"
  shows "oa_claim (oa_table (low_filled dk dv v c (2 ^ b))) (oa_mask (low_filled dk dv v c (2 ^ b))) (of_nat (2 ^ b))
      fuel (oa_hash hash_u64 (low_filled dk dv v c (2 ^ b)) (of_nat (2 ^ b))) = Inl Diverges"
proof -
  let ?m = "low_filled dk dv v c (2 ^ b)"
  let ?w = "\<lambda>j. oa_walk (c - 1) j (oa_hash hash_u64 ?m (of_nat (2 ^ b)))"
  have u: "unat (of_nat (2 ^ b) :: u64) = 2 ^ b"
    using low_count(1) [OF c q] unat_u64_less [of c] by (intro unat_small) linarith
  have "oa_blocked (oa_table ?m) (of_nat (2 ^ b)) (?w j)" for j
  proof -
    have low: "unat (?w j) < 2 ^ b"
      by (rule oa_walk_low [OF low_count(2) [OF c q]]) (unfold low_home [OF c q order_refl], simp)
    then have "of_nat (unat (?w j)) \<noteq> (of_nat (2 ^ b) :: u64)" using u by (metis less_irrefl unat_small unat_u64_less)
    then show ?thesis
      using low low_count(1) [OF c q] by (simp add: oa_blocked_def low_filled_nth(1) low_filled_length)
  qed
  then show ?thesis by (simp add: oa_claim_stuck low_filled_def)
qed

subsection \<open>Properties\<close>

text \<open>
  Claim C11.  Beyond that the map is wrong.  In any table that satisfies the invariant and in which
  a key sits behind a deleted slot of its probe sequence, \<open>insert\<close> of that key takes the tombstone
  without looking further and leaves the old entry behind: the new value is found, but after erasing
  the key it is still there, with its old value.  (Without a rehash, that is; a rehash re-inserts
  the stale entry after the fresh one, \<open>oa_stale_rehash\<close>.)
\<close>

theorem oa_tombstone_stale:
  assumes "oa_inv hash k m" and "behind_tombstone hash k m key old" and "\<not> oa_overloaded (oa_size m) (2 ^ k)"
  shows "\<exists>m1 m2. oa_insert hash dk dv key new m = Inr m1 \<and> oa_find hash key m1 = Inr (Some new) \<and>
    oa_erase hash key m1 = Inr (True, m2) \<and> oa_contains hash key m2 = Inr True \<and>
    oa_find hash key m2 = Inr (Some old)"
  by (rule oa_stale_entry [OF assms])

definition stale_table :: "(u64, nat) oam" where
  "stale_table = \<lparr>oa_table = [\<lparr>s_key = 0, s_value = 1, s_status = DELETED\<rparr>,
      \<lparr>s_key = 4, s_value = 10, s_status = OCCUPIED\<rparr>, oa_blank 0 0, oa_blank 0 0], oa_size = 1, oa_mask = 3\<rparr>"

lemma stale_table_reached:
  "store_run (oa_ops hash_u64 0 0) [Insert 0 1, Insert 4 10, Erase 0] (oa_new 0 0 4)
    = Inr ([Done, Done, Truth True], stale_table)"
  by (simp add: oa_evaluate stale_table_def cong: bind_res_weak_cong)

lemma oa_stale_rehash:
  "map_sum id fst (store_run (oa_ops hash_u64 0 d)
      [Insert 0 x, Insert 4 old, Erase 0, Insert 4 new, Find 4, Insert 1 y, Find 4] (oa_new 0 d 4))
    = Inr [Done, Done, Truth True, Done, Pointer (Some new), Done, Pointer (Some old)]"
  by (simp add: oa_evaluate cong: bind_res_weak_cong)

lemma stale_table_at:
  "oa_at 2 stale_table h j = oa_table stale_table ! ((h + j) mod 4)"
  by (simp add: oa_at_def oa_pos_def)

lemma stale_table_here:
  "oa_here key (oa_table stale_table ! p) \<Longrightarrow> p < 4 \<Longrightarrow> p = 1 \<and> key = 4"
  by (auto simp: oa_here_def stale_table_def oa_blank_def less_Suc_eq numeral_eq_Suc split: if_splits)

lemma stale_table_length: "length (oa_table stale_table) = 4"
  by (simp add: stale_table_def)

lemma stale_table_inv: "oa_inv hash_u64 2 stale_table"
proof -
  have shape: "oa_shape 2 stale_table" by (simp add: oa_shape_def stale_table_def)
  have "oa_probed hash_u64 2 stale_table"
    unfolding oa_probed_def
  proof (intro allI impI)
    fix key :: u64 and j i :: nat
    let ?h = "oa_home hash_u64 2 key"
    assume j: "j < 2 ^ 2" and here: "oa_here key (oa_at 2 stale_table ?h j)" and i: "i < j"
    have "(?h + j) mod 4 = 1 \<and> key = 4" by (rule stale_table_here [OF here [unfolded stale_table_at]]) simp
    then have p: "(?h + j) mod 4 = 1" and key: "key = 4" by (rule conjunct1, rule conjunct2)
    have "?h = 0" unfolding key by (simp add: oa_home_def hash_u64_def)
    then have "i = 0" using p j i by simp
    with \<open>?h = 0\<close> show "s_status (oa_at 2 stale_table ?h i) \<noteq> EMPTY"
      by (simp add: stale_table_at) (simp add: stale_table_def)
  qed
  moreover have "oa_unique stale_table"
    unfolding oa_unique_def using stale_table_here stale_table_length by metis
  moreover have "oa_occupied stale_table = {1}"
    by (auto simp: oa_occupied_def stale_table_def oa_blank_def less_Suc_eq numeral_eq_Suc)
  ultimately show ?thesis using shape by (simp add: oa_inv_def) (simp add: stale_table_def)
qed

theorem oa_tombstone_stale_witness:
  "store_run (oa_ops hash_u64 0 0) [Insert 0 1, Insert 4 10, Erase 0] (oa_new 0 0 4)
     = Inr ([Done, Done, Truth True], stale_table) \<and>
   (\<exists>m1 m2. oa_insert hash_u64 0 0 4 20 stale_table = Inr m1 \<and> oa_erase hash_u64 4 m1 = Inr (True, m2) \<and>
     oa_find hash_u64 4 m2 = Inr (Some 10))"
proof -
  have "behind_tombstone hash_u64 2 stale_table 4 10"
    unfolding behind_tombstone_def stale_table_at
    by (intro exI [of _ "1 :: nat"] exI [of _ "0 :: nat"] conjI)
      (simp_all add: oa_home_def hash_u64_def stale_table_def oa_here_def)
  moreover have "\<not> oa_overloaded (oa_size stale_table) (2 ^ 2)"
    using oa_overloaded_exact [of 1 2] by (simp add: stale_table_def)
  ultimately show ?thesis
    using oa_tombstone_stale [OF stale_table_inv, of 4 10 0 0 20] stale_table_reached by blast
qed

text \<open>
  Claim C12.  The constructor does not require a power of two, and with no other bucket count does
  probing reach every slot: whatever the count \<open>c\<close>, when it is neither zero nor a power of two there
  is a number \<open>n\<close> of keys, at most a third of the slots, after whose insertion the \<open>insert\<close> of one
  more key never ends.  With the identity as the hash function the keys are \<open>0, \<dots>, n\<close>.  The probing
  loop is still running after any number of rounds.
\<close>

theorem oa_insert_not_pow2_hangs:
  assumes "c \<noteq> 0" and "\<not> pow2_capacity c"
  shows "\<exists>n m. 3 * n \<le> unat c \<and>
    store_run (oa_ops hash_u64 dk dv) (map (\<lambda>i. Insert (of_nat i) v) [0..<n]) (oa_new dk dv c) = Inr (replicate n Done, m) \<and>
    (\<forall>fuel. oa_claim (oa_table m) (oa_mask m) (of_nat n) fuel (oa_hash hash_u64 m (of_nat n)) = Inl Diverges) \<and>
    oa_insert hash_u64 dk dv (of_nat n) v m = Inl Diverges"
proof -
  obtain b q where c: "unat c = 2 ^ b * (2 * q + 1)" and q: "0 < q" by (rule not_pow2_count [OF assms])
  let ?m = "low_filled dk dv v c (2 ^ b)"
  have len: "length (oa_table ?m) = unat c" using low_count(1) [OF c q] by (simp add: low_filled_length)
  have "\<not> oa_overloaded (oa_size ?m) (length (oa_table ?m))"
    using oa_group_light [OF order_refl q, of b] by (simp add: len c low_filled_def)
  then have "oa_insert hash_u64 dk dv (of_nat (2 ^ b)) v ?m = Inl Diverges"
    by (subst oa_insert_light) (assumption, unfold oa_place_def low_stuck [OF c q] bind_res_simps, rule refl)
  moreover have "3 * 2 ^ b \<le> unat c" using c q by simp
  ultimately show ?thesis
    using low_inserts [OF c q, of 0 "2 ^ b" dk dv v] low_stuck [OF c q, of dk dv v]
    by (intro exI [of _ "2 ^ b"] exI [of _ ?m]) (simp add: low_filled_new)
qed

theorem oa_insert_not_pow2_hangs_witness:
  "\<exists>n m. 3 * n \<le> 5 \<and> oa_insert hash_u64 0 0 (of_nat n) (7 :: nat) m = Inl Diverges"
proof -
  have "\<not> pow2_capacity 5" by (simp add: pow2_capacity_def)
  with oa_insert_not_pow2_hangs [of 5 0 0 7] show ?thesis by fastforce
qed

end
