(* ===== verification/FixedPoolMap.thy ===== *)
theory FixedPoolMap
  imports ChainingMap "HOL-Library.Multiset"
begin

text \<open>
  \<open>FixedSizedChainingHashMap\<close> of \<^verbatim>\<open>HFT/HashMap.hpp\<close>, the map the order book uses: buckets are
  linked lists through \<open>next\<close> pointers of nodes that come from a fixed pool, and free nodes are
  kept on a stack.  A pointer into the pool is the index of its node, \<open>nullptr\<close> is \<open>None\<close>; the
  top of the stack is the head of the list.  A traversal can go round for ever on a cyclic chain,
  so it is given as much fuel as the pool has nodes, and answers \<open>Diverges\<close> beyond that: a
  chain longer than the pool visits a node twice.  The invariant shows that no traversal ever
  gets there.
\<close>

record ('k, 'v) fnode =
  fn_key :: 'k
  fn_value :: 'v
  fn_next :: "nat option"

record ('k, 'v) fsm =
  fs_buckets :: "nat option list"
  fs_pool :: "('k, 'v) fnode list"
  fs_free :: "nat list"
  fs_mask :: u64

text \<open>
  The constructor; \<open>dkey\<close> and \<open>dval\<close> are \<open>Key()\<close> and \<open>Value()\<close>.  The pool has
  \<open>initBuckets * 16\<close> nodes, a product in \<open>size_t\<close>.
\<close>

definition fsm_new :: "'k \<Rightarrow> 'v \<Rightarrow> u64 \<Rightarrow> ('k, 'v) fsm res" where
  "fsm_new dkey dval initBuckets =
     (let n = unat (initBuckets * 16)
      in if initBuckets = 0 \<or> initBuckets AND (initBuckets - 1) \<noteq> 0
         then Inl (Throw ''initBuckets must be non-zero and a power of 2'')
         else Inr \<lparr>fs_buckets = replicate (unat initBuckets) None,
                   fs_pool = replicate n \<lparr>fn_key = dkey, fn_value = dval, fn_next = None\<rparr>,
                   fs_free = rev [0..<n], fs_mask = initBuckets - 1\<rparr>)"

definition fsm_index :: "('k \<Rightarrow> u64) \<Rightarrow> ('k, 'v) fsm \<Rightarrow> 'k \<Rightarrow> nat" where
  "fsm_index hash m key = unat (hash key AND fs_mask m)"

text \<open>
  The traversal of \<open>operator[]\<close>, \<open>contains\<close>, \<open>erase\<close> and \<open>find\<close>: from \<open>node\<close>, with \<open>prev\<close> the
  node before it, to the first node with the key.  The result is the pair of pointers \<open>prev\<close>
  and \<open>node\<close> at which the loop stops.
\<close>

fun fsm_search :: "('k, 'v) fnode list \<Rightarrow> 'k \<Rightarrow> nat \<Rightarrow> nat option \<Rightarrow> nat option
    \<Rightarrow> (nat option \<times> nat option) res" where
  "fsm_search pool key fuel prev None = Inr (prev, None)"
| "fsm_search pool key 0 prev (Some n) = Inl Diverges"
| "fsm_search pool key (Suc fuel) prev (Some n) =
     (if fn_key (pool ! n) = key then Inr (prev, Some n)
      else fsm_search pool key fuel (Some n) (fn_next (pool ! n)))"

text \<open>\<open>while (node->next != nullptr) node = node->next;\<close>\<close>

fun fsm_last :: "('k, 'v) fnode list \<Rightarrow> nat \<Rightarrow> nat \<Rightarrow> nat res" where
  "fsm_last pool 0 node = Inl Diverges"
| "fsm_last pool (Suc fuel) node =
     (case fn_next (pool ! node) of None \<Rightarrow> Inr node | Some n \<Rightarrow> fsm_last pool fuel n)"

definition fsm_find :: "('k \<Rightarrow> u64) \<Rightarrow> 'k \<Rightarrow> ('k, 'v) fsm \<Rightarrow> 'v option res" where
  "fsm_find hash key m =
     bind_res (fsm_search (fs_pool m) key (length (fs_pool m)) None (fs_buckets m ! fsm_index hash m key))
       (\<lambda>(_, node). Inr (map_option (\<lambda>n. fn_value (fs_pool m ! n)) node))"

definition fsm_contains :: "('k \<Rightarrow> u64) \<Rightarrow> 'k \<Rightarrow> ('k, 'v) fsm \<Rightarrow> bool res" where
  "fsm_contains hash key m =
     bind_res (fsm_search (fs_pool m) key (length (fs_pool m)) None (fs_buckets m ! fsm_index hash m key))
       (\<lambda>(_, node). Inr (node \<noteq> None))"

text \<open>
  \<open>operator[]\<close>: the node's pointer, so that a caller can write through the reference.
\<close>

definition fsm_subscript_ref :: "('k \<Rightarrow> u64) \<Rightarrow> 'v \<Rightarrow> 'k \<Rightarrow> ('k, 'v) fsm \<Rightarrow> (nat \<times> ('k, 'v) fsm) res" where
  "fsm_subscript_ref hash dval key m =
     (let index = fsm_index hash m key
      in bind_res (fsm_search (fs_pool m) key (length (fs_pool m)) None (fs_buckets m ! index))
        (\<lambda>(previous, node). case node of
           Some n \<Rightarrow> Inr (n, m)
         | None \<Rightarrow>
             (case fs_free m of
                [] \<Rightarrow> Inl (Throw ''No free nodes available in the pool'')
              | new_node # rest \<Rightarrow>
                  (let pool = (fs_pool m)[new_node := \<lparr>fn_key = key, fn_value = dval, fn_next = None\<rparr>];
                       m' = m\<lparr>fs_pool := pool, fs_free := rest\<rparr>
                   in case previous of
                        None \<Rightarrow> Inr (new_node, m'\<lparr>fs_buckets := (fs_buckets m)[index := Some new_node]\<rparr>)
                      | Some p \<Rightarrow>
                          Inr (new_node, m'\<lparr>fs_pool := pool[p := (pool ! p)\<lparr>fn_next := Some new_node\<rparr>]\<rparr>)))))"

definition fsm_subscript :: "('k \<Rightarrow> u64) \<Rightarrow> 'v \<Rightarrow> 'k \<Rightarrow> ('k, 'v) fsm \<Rightarrow> ('v \<times> ('k, 'v) fsm) res" where
  "fsm_subscript hash dval key m =
     bind_res (fsm_subscript_ref hash dval key m) (\<lambda>(n, m'). Inr (fn_value (fs_pool m' ! n), m'))"

definition fsm_assign :: "('k \<Rightarrow> u64) \<Rightarrow> 'v \<Rightarrow> 'k \<Rightarrow> 'v \<Rightarrow> ('k, 'v) fsm \<Rightarrow> ('k, 'v) fsm res" where
  "fsm_assign hash dval key value m =
     bind_res (fsm_subscript_ref hash dval key m) (\<lambda>(n, m').
       Inr (m'\<lparr>fs_pool := (fs_pool m')[n := (fs_pool m' ! n)\<lparr>fn_value := value\<rparr>]\<rparr>))"

text \<open>\<open>insert\<close> appends without looking for the key.\<close>

definition fsm_insert :: "('k \<Rightarrow> u64) \<Rightarrow> 'k \<Rightarrow> 'v \<Rightarrow> ('k, 'v) fsm \<Rightarrow> ('k, 'v) fsm res" where
  "fsm_insert hash key value m =
     (let index = fsm_index hash m key
      in case fs_free m of
           [] \<Rightarrow> Inl (Throw ''No free nodes available in the pool'')
         | current # rest \<Rightarrow>
             (let pool = (fs_pool m)[current := \<lparr>fn_key = key, fn_value = value, fn_next = None\<rparr>];
                  m' = m\<lparr>fs_pool := pool, fs_free := rest\<rparr>
              in case fs_buckets m ! index of
                   None \<Rightarrow> Inr (m'\<lparr>fs_buckets := (fs_buckets m)[index := Some current]\<rparr>)
                 | Some node \<Rightarrow>
                     bind_res (fsm_last pool (length pool) node) (\<lambda>p.
                       Inr (m'\<lparr>fs_pool := pool[p := (pool ! p)\<lparr>fn_next := Some current\<rparr>]\<rparr>))))"

definition fsm_erase :: "('k \<Rightarrow> u64) \<Rightarrow> 'k \<Rightarrow> ('k, 'v) fsm \<Rightarrow> (bool \<times> ('k, 'v) fsm) res" where
  "fsm_erase hash key m =
     (let index = fsm_index hash m key
      in bind_res (fsm_search (fs_pool m) key (length (fs_pool m)) None (fs_buckets m ! index))
        (\<lambda>(prev, node). case node of
           None \<Rightarrow> Inr (False, m)
         | Some n \<Rightarrow>
             (let next = fn_next (fs_pool m ! n);
                  m' = (case prev of
                          None \<Rightarrow> m\<lparr>fs_buckets := (fs_buckets m)[index := next]\<rparr>
                        | Some p \<Rightarrow> m\<lparr>fs_pool := (fs_pool m)[p := (fs_pool m ! p)\<lparr>fn_next := next\<rparr>]\<rparr>)
              in Inr (True, m'\<lparr>fs_free := n # fs_free m'\<rparr>))))"

subsection \<open>Chains\<close>

fun chain :: "('k, 'v) fnode list \<Rightarrow> nat option \<Rightarrow> nat list \<Rightarrow> bool" where
  "chain pool start [] \<longleftrightarrow> start = None"
| "chain pool start (n # ns) \<longleftrightarrow> start = Some n \<and> n < length pool \<and> chain pool (fn_next (pool ! n)) ns"

definition chain_entries :: "('k, 'v) fnode list \<Rightarrow> nat list \<Rightarrow> ('k, 'v) bucket" where
  "chain_entries pool ns = map (\<lambda>n. (fn_key (pool ! n), fn_value (pool ! n))) ns"

lemma chain_entries_simps [simp]:
  "chain_entries pool [] = []"
  "chain_entries pool (n # ns) = (fn_key (pool ! n), fn_value (pool ! n)) # chain_entries pool ns"
  "chain_entries pool (ns @ ms) = chain_entries pool ns @ chain_entries pool ms"
  by (simp_all add: chain_entries_def)

text \<open>Writing a node outside a chain changes neither the chain nor its entries.\<close>

lemma chain_update_other [simp]: "n \<notin> set ns \<Longrightarrow> chain (pool[n := x]) start ns = chain pool start ns"
  by (induction ns arbitrary: start) auto

lemma chain_entries_update_other [simp]:
  "n \<notin> set ns \<Longrightarrow> chain_entries (pool[n := x]) ns = chain_entries pool ns"
  by (induction ns) auto

lemma chain_in_range: "chain pool start ns \<Longrightarrow> n \<in> set ns \<Longrightarrow> n < length pool"
  by (induction ns arbitrary: start) auto

lemma chain_length:
  assumes "chain pool start ns" and "distinct ns"
  shows "length ns \<le> length pool"
proof -
  have "set ns \<subseteq> {..<length pool}" using chain_in_range [OF assms(1)] by auto
  then have "card (set ns) \<le> card {..<length pool}" by (intro card_mono) auto
  then show ?thesis using assms(2) by (simp add: distinct_card)
qed

text \<open>Changing a next pointer changes no entry; changing a value changes one.\<close>

lemma chain_entries_next [simp]:
  "chain_entries (pool[p := (pool ! p)\<lparr>fn_next := x\<rparr>]) ns = chain_entries pool ns"
proof (induction ns)
  case (Cons n ns)
  then show ?case by (cases "n = p"; cases "p < length pool") (simp_all add: list_update_beyond)
qed simp

lemma chain_value [simp]:
  "chain (pool[p := (pool ! p)\<lparr>fn_value := x\<rparr>]) start ns = chain pool start ns"
proof (induction ns arbitrary: start)
  case (Cons n ns)
  then show ?case by (cases "n = p"; cases "p < length pool") (auto simp: list_update_beyond)
qed simp

text \<open>Redirecting the last pointer of a prefix of a chain.\<close>

lemma chain_redirect:
  assumes "chain pool start (as @ ms)" and "as \<noteq> []" and "distinct as" and "last as \<notin> set bs"
    and "chain pool q bs"
  shows "chain (pool[last as := (pool ! last as)\<lparr>fn_next := q\<rparr>]) start (as @ bs)"
  using assms
proof (induction as arbitrary: start)
  case (Cons a as)
  show ?case
  proof (cases "as = []")
    case True
    then show ?thesis using Cons.prems by simp
  next
    case False
    then have "a \<noteq> last as" using Cons.prems(3) last_in_set by auto
    then show ?thesis using Cons False by simp
  qed
qed simp

lemma fsm_search_miss:
  assumes "chain pool start ns" and "length ns \<le> fuel"
    and "bucket_find key (chain_entries pool ns) = None"
  shows "fsm_search pool key fuel prev start = Inr (if ns = [] then prev else Some (last ns), None)"
  using assms
proof (induction ns arbitrary: start prev fuel)
  case (Cons n ns)
  then show ?case by (cases fuel) (auto split: if_splits)
qed (cases fuel; simp)

lemma fsm_search_hit:
  assumes "chain pool start (as @ n # bs)" and "length as < fuel"
    and "bucket_find key (chain_entries pool as) = None" and "fn_key (pool ! n) = key"
  shows "fsm_search pool key fuel prev start = Inr (if as = [] then prev else Some (last as), Some n)"
  using assms
proof (induction as arbitrary: start prev fuel)
  case Nil
  then show ?case by (cases fuel) auto
next
  case (Cons a as)
  then show ?case by (cases fuel) (auto split: if_splits)
qed

lemma fsm_last_chain:
  assumes "chain pool (Some n) (n # ns)" and "length ns < fuel"
  shows "fsm_last pool fuel n = Inr (last (n # ns))"
  using assms
proof (induction ns arbitrary: n fuel)
  case Nil
  then show ?case by (cases fuel) auto
next
  case (Cons a ns)
  then show ?case by (cases fuel) auto
qed

text \<open>A successful lookup in the entries splits the chain at the first node with the key.\<close>

lemma chain_entries_split:
  assumes "bucket_find key (chain_entries pool ns) = Some v"
  obtains as n bs where "ns = as @ n # bs" and "bucket_find key (chain_entries pool as) = None"
    and "fn_key (pool ! n) = key" and "fn_value (pool ! n) = v"
  using assms
proof (induction ns arbitrary: thesis)
  case (Cons a ns)
  show ?case
  proof (cases "fn_key (pool ! a) = key")
    case True
    then show ?thesis using Cons.prems(1) [of "[]" a ns] Cons.prems(2) by simp
  next
    case False
    then obtain as n bs where "ns = as @ n # bs" "bucket_find key (chain_entries pool as) = None"
      "fn_key (pool ! n) = key" "fn_value (pool ! n) = v"
      using Cons.IH Cons.prems(2) by auto
    then show ?thesis using Cons.prems(1) [of "a # as" n bs] False by simp
  qed
qed simp

subsection \<open>The representation invariant\<close>

text \<open>
  \<open>fsm_rep m ps\<close>: the chains \<open>ps\<close> hang off the buckets, and the free stack and the chains
  together hold every node of the pool exactly once.
\<close>

definition fsm_rep :: "('k, 'v) fsm \<Rightarrow> nat list list \<Rightarrow> bool" where
  "fsm_rep m ps \<longleftrightarrow>
     length ps = length (fs_buckets m) \<and>
     (\<forall>i < length ps. chain (fs_pool m) (fs_buckets m ! i) (ps ! i)) \<and>
     mset (fs_free m) + mset (concat ps) = mset [0..<length (fs_pool m)] \<and>
     (\<exists>c. pow2_capacity c \<and> length (fs_buckets m) = unat c \<and> fs_mask m = c - 1)"

definition fsm_table :: "('k, 'v) fsm \<Rightarrow> nat list list \<Rightarrow> ('k, 'v) bucket list" where
  "fsm_table m ps = map (chain_entries (fs_pool m)) ps"

lemma length_fsm_table [simp]: "length (fsm_table m ps) = length ps"
  by (simp add: fsm_table_def)

lemma nth_fsm_table [simp]: "i < length ps \<Longrightarrow> fsm_table m ps ! i = chain_entries (fs_pool m) (ps ! i)"
  by (simp add: fsm_table_def)

lemma fsm_rep_index: "fsm_rep m ps \<Longrightarrow> fsm_index hash m k < length ps"
  by (auto simp: fsm_rep_def fsm_index_def pow2_mask_index(2))

lemma fsm_rep_chain: "fsm_rep m ps \<Longrightarrow> i < length ps \<Longrightarrow> chain (fs_pool m) (fs_buckets m ! i) (ps ! i)"
  by (simp add: fsm_rep_def)

lemma mset_concat_update:
  assumes "i < length ps"
  shows "mset (concat (ps[i := xs])) + mset (ps ! i) = mset (concat ps) + mset xs"
proof -
  have old: "concat ps = concat (take i ps) @ ps ! i @ concat (drop (Suc i) ps)"
    using id_take_nth_drop [OF assms] by (metis concat.simps(2) concat_append)
  have new: "concat (ps[i := xs]) = concat (take i ps) @ xs @ concat (drop (Suc i) ps)"
    using assms by (simp add: upd_conv_take_nth_drop)
  show ?thesis unfolding old new by simp
qed

lemma fsm_rep_distinct:
  assumes "fsm_rep m ps"
  shows "distinct (fs_free m @ concat ps)" and "set (fs_free m @ concat ps) = {..<length (fs_pool m)}"
proof -
  have eq: "mset (fs_free m @ concat ps) = mset [0..<length (fs_pool m)]"
    using assms by (simp add: fsm_rep_def)
  show "distinct (fs_free m @ concat ps)"
    using mset_eq_imp_distinct_iff [OF eq] by simp
  show "set (fs_free m @ concat ps) = {..<length (fs_pool m)}"
    using mset_eq_setD [OF eq] by auto
qed

lemma distinct_concat_nth:
  assumes "distinct (concat ps)" and "i < length ps"
  shows "distinct (ps ! i)" and "j < length ps \<Longrightarrow> j \<noteq> i \<Longrightarrow> n \<in> set (ps ! i) \<Longrightarrow> n \<notin> set (ps ! j)"
proof -
  have split: "concat ps = concat (take i ps) @ ps ! i @ concat (drop (Suc i) ps)"
    using id_take_nth_drop [OF assms(2)] by (metis concat.simps(2) concat_append)
  show "distinct (ps ! i)" using assms(1) split by simp
  assume j: "j < length ps" "j \<noteq> i" and n: "n \<in> set (ps ! i)"
  have "ps ! j \<in> set (take i ps) \<union> set (drop (Suc i) ps)"
  proof (cases "j < i")
    case True
    then show ?thesis using j by (auto simp: in_set_conv_nth intro: exI [of _ j])
  next
    case False
    then have "drop (Suc i) ps ! (j - Suc i) = ps ! j" and "j - Suc i < length (drop (Suc i) ps)"
      using j by auto
    then show ?thesis by (metis UnI2 nth_mem)
  qed
  then have "set (ps ! j) \<subseteq> set (concat (take i ps)) \<union> set (concat (drop (Suc i) ps))"
    by auto
  moreover have "n \<notin> set (concat (take i ps)) \<union> set (concat (drop (Suc i) ps))"
    using assms(1) n unfolding split by auto
  ultimately show "n \<notin> set (ps ! j)" by blast
qed

text \<open>What the steps use: chains are short, disjoint, and away from the free stack.\<close>

lemma fsm_rep_facts:
  assumes "fsm_rep m ps" and "i < length ps"
  shows "distinct (ps ! i)" and "length (ps ! i) \<le> length (fs_pool m)"
    and "n \<in> set (ps ! i) \<Longrightarrow> n \<notin> set (fs_free m) \<and> n < length (fs_pool m)"
    and "n \<in> set (ps ! i) \<Longrightarrow> j < length ps \<Longrightarrow> j \<noteq> i \<Longrightarrow> n \<notin> set (ps ! j)"
    and "n \<in> set (fs_free m) \<Longrightarrow> n \<notin> set (ps ! i) \<and> n < length (fs_pool m)"
proof -
  have d: "distinct (fs_free m @ concat ps)" and r: "set (fs_free m @ concat ps) = {..<length (fs_pool m)}"
    using fsm_rep_distinct [OF assms(1)] by blast+
  have sub: "set (ps ! i) \<subseteq> set (concat ps)"
    using nth_mem [OF assms(2)] by auto
  show "distinct (ps ! i)" using d assms(2) distinct_concat_nth(1) by auto
  then show "length (ps ! i) \<le> length (fs_pool m)"
    using chain_length fsm_rep_chain [OF assms] by blast
  show "n \<in> set (ps ! i) \<Longrightarrow> n \<notin> set (fs_free m) \<and> n < length (fs_pool m)"
    using d r sub by auto
  show "n \<in> set (ps ! i) \<Longrightarrow> j < length ps \<Longrightarrow> j \<noteq> i \<Longrightarrow> n \<notin> set (ps ! j)"
    using d assms(2) distinct_concat_nth(2) [of ps i j n] by auto
  show "n \<in> set (fs_free m) \<Longrightarrow> n \<notin> set (ps ! i) \<and> n < length (fs_pool m)"
    using d r sub by auto
qed

subsection \<open>Each operation on the bucket table\<close>

lemma fsm_rep_update:
  assumes rep: "fsm_rep m ps" and i: "i < length ps"
    and pool: "length (fs_pool m') = length (fs_pool m)" and mask: "fs_mask m' = fs_mask m"
    and buckets: "fs_buckets m' = (fs_buckets m)[i := b]" and chain: "chain (fs_pool m') b xs"
    and free: "mset (fs_free m') + mset xs = mset (fs_free m) + mset (ps ! i)"
    and other: "\<And>j. j < length ps \<Longrightarrow> j \<noteq> i \<Longrightarrow>
      chain (fs_pool m') (fs_buckets m ! j) (ps ! j) \<and>
      chain_entries (fs_pool m') (ps ! j) = chain_entries (fs_pool m) (ps ! j)"
  shows "fsm_rep m' (ps[i := xs])"
    and "fsm_table m' (ps[i := xs]) = (fsm_table m ps)[i := chain_entries (fs_pool m') xs]"
proof -
  have len: "length ps = length (fs_buckets m)" using rep by (simp add: fsm_rep_def)
  have old: "mset (fs_free m) + mset (concat ps) = mset [0..<length (fs_pool m)]"
    using rep by (simp add: fsm_rep_def)
  have "mset (fs_free m') + mset (concat (ps[i := xs])) + mset (ps ! i) + mset xs
      = (mset (fs_free m') + mset xs) + (mset (concat (ps[i := xs])) + mset (ps ! i))"
    by (simp add: ac_simps)
  also have "\<dots> = mset [0..<length (fs_pool m)] + mset (ps ! i) + mset xs"
    unfolding free mset_concat_update [OF i] old [symmetric] by (simp add: ac_simps)
  finally have "mset (fs_free m') + mset (concat (ps[i := xs])) = mset [0..<length (fs_pool m')]"
    by (simp add: pool)
  then show "fsm_rep m' (ps[i := xs])"
    using rep i chain other len
    by (auto simp: fsm_rep_def buckets mask nth_list_update)
  show "fsm_table m' (ps[i := xs]) = (fsm_table m ps)[i := chain_entries (fs_pool m') xs]"
  proof (rule nth_equalityI)
    fix j assume "j < length (fsm_table m' (ps[i := xs]))"
    then have "j < length ps" by simp
    then show "fsm_table m' (ps[i := xs]) ! j = (fsm_table m ps)[i := chain_entries (fs_pool m') xs] ! j"
      using other by (cases "j = i") simp_all
  qed simp
qed

text \<open>The pool, the free stack and the bucket after a node taken from the stack is hung on a chain.\<close>

definition fsm_attached :: "('k, 'v) fsm \<Rightarrow> nat \<Rightarrow> nat option \<Rightarrow> nat \<Rightarrow> ('k, 'v) fnode \<Rightarrow> ('k, 'v) fsm" where
  "fsm_attached m i prev new node =
     (let pool = (fs_pool m)[new := node]; m' = m\<lparr>fs_pool := pool, fs_free := tl (fs_free m)\<rparr>
      in case prev of
           None \<Rightarrow> m'\<lparr>fs_buckets := (fs_buckets m)[i := Some new]\<rparr>
         | Some p \<Rightarrow> m'\<lparr>fs_pool := pool[p := (pool ! p)\<lparr>fn_next := Some new\<rparr>]\<rparr>)"

lemma fsm_attached_rep:
  assumes rep: "fsm_rep m ps" and i: "i < length ps" and free: "fs_free m = new # rest"
    and node: "fn_next node = None"
  defines "m' \<equiv> fsm_attached m i (if ps ! i = [] then None else Some (last (ps ! i))) new node"
  shows "fsm_rep m' (ps[i := ps ! i @ [new]])"
    and "fsm_table m' (ps[i := ps ! i @ [new]])
      = (fsm_table m ps)[i := fsm_table m ps ! i @ [(fn_key node, fn_value node)]]"
    and "fs_free m' = rest" and "fs_pool m' ! new = node" and "new < length (fs_pool m')"
proof -
  let ?xs = "ps ! i" and ?pool = "(fs_pool m)[new := node]"
  have new: "new < length (fs_pool m)" "\<And>j. j < length ps \<Longrightarrow> new \<notin> set (ps ! j)"
    using fsm_rep_facts(5) [OF rep, of _ new] i free by auto
  have chain: "chain ?pool (fs_buckets m ! i) ?xs"
    using fsm_rep_chain [OF rep i] new(2) [OF i] by simp
  have len: "i < length (fs_buckets m)" using rep i by (simp add: fsm_rep_def)
  show "fs_free m' = rest"
    by (simp add: m'_def fsm_attached_def Let_def free)
  have last: "?xs \<noteq> [] \<Longrightarrow> last ?xs \<in> set ?xs" by simp
  have other: "last ?xs \<notin> set (ps ! j)" if "?xs \<noteq> []" "j < length ps" "j \<noteq> i" for j
    using fsm_rep_facts(4) [OF rep i last] that by blast
  have lastnew: "?xs \<noteq> [] \<Longrightarrow> last ?xs \<noteq> new"
    using last new(2) [OF i] by metis
  show pool: "fs_pool m' ! new = node" "new < length (fs_pool m')"
    using new(1) lastnew by (simp_all add: m'_def fsm_attached_def Let_def)
  have chain': "chain (fs_pool m') (fs_buckets m' ! i) (?xs @ [new])"
  proof (cases "?xs = []")
    case True
    then show ?thesis using new(1) node len by (simp add: m'_def fsm_attached_def Let_def)
  next
    case False
    then have "chain (?pool[last ?xs := (?pool ! last ?xs)\<lparr>fn_next := Some new\<rparr>]) (fs_buckets m ! i) (?xs @ [new])"
      using chain fsm_rep_facts(1) [OF rep i] lastnew new(1) node
      by (intro chain_redirect [where ms = "[]"]) simp_all
    with False show ?thesis by (simp add: m'_def fsm_attached_def Let_def)
  qed
  have entries: "chain_entries (fs_pool m') (?xs @ [new])
      = chain_entries (fs_pool m) ?xs @ [(fn_key node, fn_value node)]"
    using new i pool by (cases "?xs = []") (simp_all add: m'_def fsm_attached_def Let_def)
  have rest: "chain (fs_pool m') (fs_buckets m ! j) (ps ! j) \<and>
      chain_entries (fs_pool m') (ps ! j) = chain_entries (fs_pool m) (ps ! j)"
    if "j < length ps" "j \<noteq> i" for j
    using that new(2) other fsm_rep_chain [OF rep]
    by (cases "?xs = []") (simp_all add: m'_def fsm_attached_def Let_def)
  have bucket: "fs_buckets m' = (fs_buckets m)[i := fs_buckets m' ! i]"
    using len by (cases "?xs = []") (simp_all add: m'_def fsm_attached_def Let_def)
  have misc: "length (fs_pool m') = length (fs_pool m)" "fs_mask m' = fs_mask m"
    "mset (fs_free m') + mset (?xs @ [new]) = mset (fs_free m) + mset ?xs"
    by (simp_all add: m'_def fsm_attached_def Let_def free split: option.split)
  note update = fsm_rep_update [OF rep i misc(1,2) bucket chain' misc(3) rest]
  show "fsm_rep m' (ps[i := ?xs @ [new]])" by (rule update(1))
  show "fsm_table m' (ps[i := ?xs @ [new]])
      = (fsm_table m ps)[i := fsm_table m ps ! i @ [(fn_key node, fn_value node)]]"
    using update(2) entries i by simp
qed

lemma fsm_start_None_iff: "fsm_rep m ps \<Longrightarrow> i < length ps \<Longrightarrow> fs_buckets m ! i = None \<longleftrightarrow> ps ! i = []"
  using fsm_rep_chain [of m ps i] by (cases "ps ! i") auto

lemma fsm_rep_search_miss:
  assumes "fsm_rep m ps" and "i < length ps" and "bucket_find k (fsm_table m ps ! i) = None"
  shows "fsm_search (fs_pool m) k (length (fs_pool m)) None (fs_buckets m ! i)
    = Inr (if ps ! i = [] then None else Some (last (ps ! i)), None)"
  using fsm_search_miss [OF fsm_rep_chain [OF assms(1,2)] fsm_rep_facts(2) [OF assms(1,2)], of k None]
    assms by simp

lemma fsm_rep_search_hit:
  assumes "fsm_rep m ps" and "i < length ps" and "bucket_find k (fsm_table m ps ! i) = Some v"
  obtains as n bs where "ps ! i = as @ n # bs" and "bucket_find k (chain_entries (fs_pool m) as) = None"
    and "fn_key (fs_pool m ! n) = k" and "fn_value (fs_pool m ! n) = v"
    and "fsm_search (fs_pool m) k (length (fs_pool m)) None (fs_buckets m ! i)
      = Inr (if as = [] then None else Some (last as), Some n)"
proof -
  obtain as n bs where split: "ps ! i = as @ n # bs"
      "bucket_find k (chain_entries (fs_pool m) as) = None"
      "fn_key (fs_pool m ! n) = k" "fn_value (fs_pool m ! n) = v"
    using chain_entries_split [of k "fs_pool m" "ps ! i" v] assms(2,3) by auto
  have "length as < length (fs_pool m)"
    using fsm_rep_facts(2) [OF assms(1,2)] split(1) by simp
  then have "fsm_search (fs_pool m) k (length (fs_pool m)) None (fs_buckets m ! i)
      = Inr (if as = [] then None else Some (last as), Some n)"
    using fsm_search_hit [of "fs_pool m" "fs_buckets m ! i" as n bs] fsm_rep_chain [OF assms(1,2)] split
    by simp
  with split show thesis by (rule that)
qed

lemma fsm_find_rep:
  assumes "fsm_rep m ps"
  shows "fsm_find hash k m = Inr (buckets_find (fsm_index hash m) k (fsm_table m ps))"
proof (cases "bucket_find k (fsm_table m ps ! fsm_index hash m k)")
  case None
  then show ?thesis
    using fsm_rep_search_miss [OF assms fsm_rep_index [OF assms]]
    by (simp add: fsm_find_def buckets_find_def)
next
  case (Some v)
  obtain as n bs where "fn_value (fs_pool m ! n) = v"
    and "fsm_search (fs_pool m) k (length (fs_pool m)) None (fs_buckets m ! fsm_index hash m k)
      = Inr (if as = [] then None else Some (last as), Some n)"
    by (rule fsm_rep_search_hit [OF assms fsm_rep_index [OF assms] Some])
  then show ?thesis using Some by (simp add: fsm_find_def buckets_find_def)
qed

lemma fsm_contains_rep:
  assumes "fsm_rep m ps"
  shows "fsm_contains hash k m = Inr (buckets_find (fsm_index hash m) k (fsm_table m ps) \<noteq> None)"
proof (cases "bucket_find k (fsm_table m ps ! fsm_index hash m k)")
  case None
  then show ?thesis
    using fsm_rep_search_miss [OF assms fsm_rep_index [OF assms]]
    by (simp add: fsm_contains_def buckets_find_def)
next
  case (Some v)
  obtain as n bs where "fn_value (fs_pool m ! n) = v"
    and "fsm_search (fs_pool m) k (length (fs_pool m)) None (fs_buckets m ! fsm_index hash m k)
      = Inr (if as = [] then None else Some (last as), Some n)"
    by (rule fsm_rep_search_hit [OF assms fsm_rep_index [OF assms] Some])
  then show ?thesis using Some by (simp add: fsm_contains_def buckets_find_def)
qed

lemma fsm_insert_attached:
  assumes "fsm_rep m ps" and "i = fsm_index hash m k" and "fs_free m = new # rest"
  shows "fsm_insert hash k v m = Inr (fsm_attached m i (if ps ! i = [] then None else Some (last (ps ! i)))
    new \<lparr>fn_key = k, fn_value = v, fn_next = None\<rparr>)"
proof (cases "ps ! i")
  case Nil
  then have "fs_buckets m ! i = None"
    using fsm_start_None_iff [OF assms(1) fsm_rep_index [OF assms(1)]] assms(2) by simp
  then show ?thesis
    using Nil assms(2,3) by (simp add: fsm_insert_def fsm_attached_def Let_def)
next
  case (Cons n ns)
  let ?pool = "(fs_pool m)[new := \<lparr>fn_key = k, fn_value = v, fn_next = None\<rparr>]"
  have i: "i < length ps" using fsm_rep_index [OF assms(1)] assms(2) by simp
  have "new \<notin> set (ps ! i)" using fsm_rep_facts(5) [OF assms(1) i] assms(3) by simp
  then have "chain ?pool (fs_buckets m ! i) (ps ! i)" using fsm_rep_chain [OF assms(1) i] by simp
  then have chain: "chain ?pool (Some n) (n # ns)" and start: "fs_buckets m ! i = Some n" using Cons by auto
  have "length ns < length ?pool"
    using fsm_rep_facts(2) [OF assms(1) i] Cons by simp
  then have "fsm_last ?pool (length ?pool) n = Inr (last (n # ns))" by (rule fsm_last_chain [OF chain])
  then show ?thesis
    using Cons start assms(2,3) by (simp add: fsm_insert_def fsm_attached_def Let_def)
qed

lemma fsm_subscript_ref_attached:
  assumes "fsm_rep m ps" and "i = fsm_index hash m k" and "fs_free m = new # rest"
    and "bucket_find k (fsm_table m ps ! i) = None"
  shows "fsm_subscript_ref hash d k m = Inr (new, fsm_attached m i
    (if ps ! i = [] then None else Some (last (ps ! i))) new \<lparr>fn_key = k, fn_value = d, fn_next = None\<rparr>)"
  using fsm_rep_search_miss [OF assms(1) fsm_rep_index [OF assms(1)] assms(4) [unfolded assms(2)]] assms(2,3)
  by (simp add: fsm_subscript_ref_def fsm_attached_def Let_def)

lemma fsm_subscript_ref_full:
  assumes "fsm_rep m ps" and "fs_free m = []"
    and "bucket_find k (fsm_table m ps ! fsm_index hash m k) = None"
  shows "fsm_subscript_ref hash d k m = Inl (Throw ''No free nodes available in the pool'')"
  using fsm_rep_search_miss [OF assms(1) fsm_rep_index [OF assms(1)] assms(3)] assms(2)
  by (simp add: fsm_subscript_ref_def Let_def)

text \<open>\<open>erase\<close> unhooks the first node with the key and pushes it on the free stack.\<close>

fun bucket_remove1 :: "'k \<Rightarrow> ('k, 'v) bucket \<Rightarrow> ('k, 'v) bucket" where
  "bucket_remove1 key [] = []"
| "bucket_remove1 key (node # rest) = (if fst node = key then rest else node # bucket_remove1 key rest)"

lemma bucket_remove1_split:
  "bucket_find k xs = None \<Longrightarrow> bucket_remove1 k (xs @ (k, v) # ys) = xs @ ys"
  by (induction xs) (auto split: if_splits)

lemma bucket_remove1_distinct: "distinct (map fst b) \<Longrightarrow> bucket_remove1 k b = bucket_remove k b"
proof (induction b)
  case (Cons node b)
  then have "fst node = k \<Longrightarrow> filter (\<lambda>x. fst x \<noteq> k) b = b"
    by (intro filter_True ballI) (metis distinct.simps(2) image_eqI list.simps(9) set_map)
  with Cons show ?case by (simp add: bucket_remove_def)
qed (simp add: bucket_remove_def)

lemma chain_suffix: "chain pool start (as @ n # bs) \<Longrightarrow> chain pool (fn_next (pool ! n)) bs"
  by (induction as arbitrary: start) auto

text \<open>The map after node \<open>n\<close>, which follows the nodes \<open>as\<close> of bucket \<open>i\<close>, was unhooked.\<close>

definition fsm_unhook :: "nat \<Rightarrow> nat list \<Rightarrow> nat \<Rightarrow> ('k, 'v) fsm \<Rightarrow> ('k, 'v) fsm" where
  "fsm_unhook i as n m = (let next = fn_next (fs_pool m ! n) in
     (if as = [] then m\<lparr>fs_buckets := (fs_buckets m)[i := next]\<rparr>
      else m\<lparr>fs_pool := (fs_pool m)[last as := (fs_pool m ! last as)\<lparr>fn_next := next\<rparr>]\<rparr>)
     \<lparr>fs_free := n # fs_free m\<rparr>)"

lemma fsm_unhook_rep:
  assumes rep: "fsm_rep m ps" and il: "i < length ps" and split: "ps ! i = as @ n # bs"
  shows "fsm_rep (fsm_unhook i as n m) (ps[i := as @ bs])"
    and "fsm_table (fsm_unhook i as n m) (ps[i := as @ bs]) = (fsm_table m ps)[i := chain_entries (fs_pool m) (as @ bs)]"
proof -
  let ?m' = "fsm_unhook i as n m"
  have chain: "chain (fs_pool m) (fs_buckets m ! i) (as @ n # bs)"
    using fsm_rep_chain [OF rep il] split by simp
  then have rest: "chain (fs_pool m) (fn_next (fs_pool m ! n)) bs" by (rule chain_suffix)
  have d: "distinct (as @ n # bs)" using fsm_rep_facts(1) [OF rep il] split by simp
  have len: "i < length (fs_buckets m)" using rep il by (simp add: fsm_rep_def)
  have chain': "chain (fs_pool ?m') (fs_buckets ?m' ! i) (as @ bs)"
  proof (cases "as = []")
    case True
    then show ?thesis using rest len by (simp add: fsm_unhook_def)
  next
    case False
    then have "last as \<in> set as" by simp
    then have "last as \<notin> set bs" using d by auto
    then show ?thesis
      using chain_redirect [OF chain False _ _ rest] d False by (simp add: fsm_unhook_def Let_def)
  qed
  have other: "chain (fs_pool ?m') (fs_buckets m ! j) (ps ! j) \<and>
      chain_entries (fs_pool ?m') (ps ! j) = chain_entries (fs_pool m) (ps ! j)"
    if j: "j < length ps" "j \<noteq> i" for j
  proof (cases "as = []")
    case True
    then show ?thesis using fsm_rep_chain [OF rep j(1)] by (simp add: fsm_unhook_def)
  next
    case False
    then have "last as \<in> set (ps ! i)" using split by simp
    then have "last as \<notin> set (ps ! j)" using fsm_rep_facts(4) [OF rep il] j by blast
    then show ?thesis using fsm_rep_chain [OF rep j(1)] False by (simp add: fsm_unhook_def Let_def)
  qed
  have bucket: "fs_buckets ?m' = (fs_buckets m)[i := fs_buckets ?m' ! i]"
    using len by (simp add: fsm_unhook_def Let_def)
  have misc: "length (fs_pool ?m') = length (fs_pool m)" "fs_mask ?m' = fs_mask m"
    "mset (fs_free ?m') + mset (as @ bs) = mset (fs_free m) + mset (ps ! i)"
    using split by (simp_all add: fsm_unhook_def Let_def)
  note update = fsm_rep_update [OF rep il misc(1,2) bucket chain' misc(3) other]
  show "fsm_rep ?m' (ps[i := as @ bs])" by (rule update(1))
  have "chain_entries (fs_pool ?m') (as @ bs) = chain_entries (fs_pool m) (as @ bs)"
    by (simp add: fsm_unhook_def Let_def)
  then show "fsm_table ?m' (ps[i := as @ bs]) = (fsm_table m ps)[i := chain_entries (fs_pool m) (as @ bs)]"
    using update(2) by simp
qed

lemma fsm_erase_rep:
  assumes rep: "fsm_rep m ps" and i: "i = fsm_index hash m k"
    and hit: "bucket_find k (fsm_table m ps ! i) = Some v"
  obtains m' ps' n where "fsm_erase hash k m = Inr (True, m')" and "fsm_rep m' ps'"
    and "fsm_table m' ps' = (fsm_table m ps)[i := bucket_remove1 k (fsm_table m ps ! i)]"
    and "fs_free m' = n # fs_free m" and "length ps' = length ps" and "fs_mask m' = fs_mask m"
proof -
  have il: "i < length ps" using fsm_rep_index [OF rep] i by simp
  obtain as n bs where split: "ps ! i = as @ n # bs"
      "bucket_find k (chain_entries (fs_pool m) as) = None"
      "fn_key (fs_pool m ! n) = k" "fn_value (fs_pool m ! n) = v"
      "fsm_search (fs_pool m) k (length (fs_pool m)) None (fs_buckets m ! i)
        = Inr (if as = [] then None else Some (last as), Some n)"
    by (rule fsm_rep_search_hit [OF rep il hit])
  note unhook = fsm_unhook_rep [OF rep il split(1)]
  have entries: "chain_entries (fs_pool m) (as @ bs) = bucket_remove1 k (fsm_table m ps ! i)"
    using split il by (simp add: bucket_remove1_split)
  show thesis
  proof (rule that)
    show "fsm_erase hash k m = Inr (True, fsm_unhook i as n m)"
      using split(5) i by (simp add: fsm_erase_def fsm_unhook_def Let_def)
    show "fsm_rep (fsm_unhook i as n m) (ps[i := as @ bs])" by (rule unhook(1))
    show "fsm_table (fsm_unhook i as n m) (ps[i := as @ bs])
        = (fsm_table m ps)[i := bucket_remove1 k (fsm_table m ps ! i)]"
      using unhook(2) entries by simp
  qed (simp_all add: fsm_unhook_def Let_def)
qed

lemma fsm_erase_miss:
  assumes "fsm_rep m ps" and "bucket_find k (fsm_table m ps ! fsm_index hash m k) = None"
  shows "fsm_erase hash k m = Inr (False, m)"
  using fsm_rep_search_miss [OF assms(1) fsm_rep_index [OF assms(1)] assms(2)]
  by (simp add: fsm_erase_def Let_def)

text \<open>Writing a value through the pointer of a node on a chain.\<close>

lemma fsm_write_value:
  fixes m :: "('k, 'v) fsm" and v :: 'v
  assumes rep: "fsm_rep m ps" and i: "i < length ps" and split: "ps ! i = as @ n # bs"
  defines "m' \<equiv> m\<lparr>fs_pool := (fs_pool m)[n := (fs_pool m ! n)\<lparr>fn_value := v\<rparr>]\<rparr>"
  shows "fsm_rep m' ps"
    and "fsm_table m' ps = (fsm_table m ps)[i :=
      chain_entries (fs_pool m) as @ (fn_key (fs_pool m ! n), v) # chain_entries (fs_pool m) bs]"
proof -
  have d: "distinct (as @ n # bs)" using fsm_rep_facts(1) [OF rep i] split by simp
  have n: "n < length (fs_pool m)" using fsm_rep_facts(3) [OF rep i] split by simp
  have chain: "chain (fs_pool m') (fs_buckets m ! i) (ps ! i)"
    using fsm_rep_chain [OF rep i] by (simp add: m'_def)
  have other: "chain (fs_pool m') (fs_buckets m ! j) (ps ! j) \<and>
      chain_entries (fs_pool m') (ps ! j) = chain_entries (fs_pool m) (ps ! j)"
    if j: "j < length ps" "j \<noteq> i" for j
  proof -
    have "n \<notin> set (ps ! j)" using fsm_rep_facts(4) [OF rep i _ j] split by simp
    then show ?thesis using fsm_rep_chain [OF rep j(1)] by (simp add: m'_def)
  qed
  have bucket: "fs_buckets m' = (fs_buckets m)[i := fs_buckets m ! i]"
    and pool: "length (fs_pool m') = length (fs_pool m)" and mask: "fs_mask m' = fs_mask m"
    and free: "mset (fs_free m') + mset (ps ! i) = mset (fs_free m) + mset (ps ! i)"
    by (simp_all add: m'_def)
  note update = fsm_rep_update [OF rep i pool mask bucket chain free other]
  have entries: "chain_entries (fs_pool m') (ps ! i)
      = chain_entries (fs_pool m) as @ (fn_key (fs_pool m ! n), v) # chain_entries (fs_pool m) bs"
    unfolding split using d n by (simp add: m'_def)
  show "fsm_rep m' ps" using update(1) by simp
  show "fsm_table m' ps = (fsm_table m ps)[i :=
      chain_entries (fs_pool m) as @ (fn_key (fs_pool m ! n), v) # chain_entries (fs_pool m) bs]"
    using update(2) entries by simp
qed

lemma bucket_put_split:
  "bucket_find k xs = None \<Longrightarrow> bucket_put k v (xs @ (k, w) # ys) = xs @ (k, v) # ys"
  by (induction xs) (auto split: if_splits)

lemma fsm_assign_rep:
  assumes rep: "fsm_rep m ps" and assign: "fsm_assign hash d k v m = Inr m'"
  obtains ps' where "fsm_rep m' ps'" and "fs_mask m' = fs_mask m"
    and "fsm_table m' ps' = buckets_put (fsm_index hash m) k v (fsm_table m ps)"
proof (cases "bucket_find k (fsm_table m ps ! fsm_index hash m k)")
  case (Some w)
  let ?i = "fsm_index hash m k"
  have i: "?i < length ps" by (rule fsm_rep_index [OF rep])
  obtain as n bs where split: "ps ! ?i = as @ n # bs"
      "bucket_find k (chain_entries (fs_pool m) as) = None"
      "fn_key (fs_pool m ! n) = k" "fn_value (fs_pool m ! n) = w"
      "fsm_search (fs_pool m) k (length (fs_pool m)) None (fs_buckets m ! ?i)
        = Inr (if as = [] then None else Some (last as), Some n)"
    by (rule fsm_rep_search_hit [OF rep i Some])
  have m': "m' = m\<lparr>fs_pool := (fs_pool m)[n := (fs_pool m ! n)\<lparr>fn_value := v\<rparr>]\<rparr>"
    using assign split(5) by (simp add: fsm_assign_def fsm_subscript_ref_def Let_def)
  note upd = fsm_write_value [OF rep i split(1), of v, folded m']
  have "fsm_table m' ps = buckets_put (fsm_index hash m) k v (fsm_table m ps)"
    using upd(2) i split(1,2,3,4) by (simp add: buckets_put_def bucket_put_split)
  with upd(1) show thesis by (intro that) (simp_all add: m')
next
  case None
  let ?i = "fsm_index hash m k"
  have i: "?i < length ps" by (rule fsm_rep_index [OF rep])
  obtain new rest where free: "fs_free m = new # rest"
    using assign fsm_subscript_ref_full [OF rep _ None]
    by (cases "fs_free m") (auto simp: fsm_assign_def)
  let ?node = "\<lparr>fn_key = k, fn_value = d, fn_next = None\<rparr>"
  define m1 where "m1 = fsm_attached m ?i (if ps ! ?i = [] then None else Some (last (ps ! ?i))) new ?node"
  have node: "fn_next ?node = None" by simp
  note att = fsm_attached_rep [OF rep i free node, folded m1_def]
  have m': "m' = m1\<lparr>fs_pool := (fs_pool m1)[new := (fs_pool m1 ! new)\<lparr>fn_value := v\<rparr>]\<rparr>"
    using assign fsm_subscript_ref_attached [OF rep refl free None] by (simp add: fsm_assign_def m1_def)
  let ?ps = "ps[?i := ps ! ?i @ [new]]"
  have il: "?i < length ?ps" and split: "?ps ! ?i = ps ! ?i @ new # []" using i by simp_all
  note upd = fsm_write_value [OF att(1) il split, of v, folded m']
  have "fsm_table m1 ?ps ! ?i = fsm_table m ps ! ?i @ [(k, d)]"
    unfolding att(2) using i by simp
  then have entries: "chain_entries (fs_pool m1) (ps ! ?i) = chain_entries (fs_pool m) (ps ! ?i)"
    using i by simp
  have "fsm_table m' ?ps = buckets_put (fsm_index hash m) k v (fsm_table m ps)"
    using upd(2) i None entries
    by (simp add: att(2,4) buckets_put_def bucket_put_absent)
  moreover have "fs_mask m' = fs_mask m"
    by (simp add: m' m1_def fsm_attached_def Let_def split: option.split)
  ultimately show thesis using upd(1) by (intro that)
qed

lemma fsm_insert_rep:
  assumes rep: "fsm_rep m ps" and ins: "fsm_insert hash k v m = Inr m'"
  obtains ps' n where "fsm_rep m' ps'" and "fs_mask m' = fs_mask m" and "fs_free m = n # fs_free m'"
    and "fsm_table m' ps' = (fsm_table m ps)[fsm_index hash m k :=
      fsm_table m ps ! fsm_index hash m k @ [(k, v)]]"
proof -
  let ?i = "fsm_index hash m k" and ?node = "\<lparr>fn_key = k, fn_value = v, fn_next = None\<rparr>"
  have i: "?i < length ps" by (rule fsm_rep_index [OF rep])
  obtain new rest where free: "fs_free m = new # rest"
    using ins by (cases "fs_free m") (simp_all add: fsm_insert_def)
  have m': "m' = fsm_attached m ?i (if ps ! ?i = [] then None else Some (last (ps ! ?i))) new ?node"
    using fsm_insert_attached [OF rep refl free] ins by simp
  have "fs_mask m' = fs_mask m"
    by (simp add: m' fsm_attached_def Let_def split: option.split)
  moreover have node: "fn_next ?node = None" by simp
  note att = fsm_attached_rep [OF rep i free node, folded m']
  ultimately show thesis using att(1,2,3) free by (intro that) simp_all
qed

lemma fsm_subscript_rep:
  assumes rep: "fsm_rep m ps" and sub: "fsm_subscript hash d k m = Inr (w, m')"
  obtains ps' where "fsm_rep m' ps'" and "fs_mask m' = fs_mask m"
    and "(w, fsm_table m' ps') = buckets_subscript (fsm_index hash m) d k (fsm_table m ps)"
proof (cases "bucket_find k (fsm_table m ps ! fsm_index hash m k)")
  case (Some v)
  obtain as n bs where "fn_value (fs_pool m ! n) = v"
    and "fsm_search (fs_pool m) k (length (fs_pool m)) None (fs_buckets m ! fsm_index hash m k)
      = Inr (if as = [] then None else Some (last as), Some n)"
    by (rule fsm_rep_search_hit [OF rep fsm_rep_index [OF rep] Some])
  then have "w = v" and "m' = m"
    using sub by (auto simp: fsm_subscript_def fsm_subscript_ref_def Let_def)
  then show thesis using Some rep by (intro that [of ps]) (simp_all add: buckets_subscript_def)
next
  case None
  let ?i = "fsm_index hash m k" and ?node = "\<lparr>fn_key = k, fn_value = d, fn_next = None\<rparr>"
  have i: "?i < length ps" by (rule fsm_rep_index [OF rep])
  obtain new rest where free: "fs_free m = new # rest"
    using sub fsm_subscript_ref_full [OF rep _ None]
    by (cases "fs_free m") (auto simp: fsm_subscript_def)
  define m1 where "m1 = fsm_attached m ?i (if ps ! ?i = [] then None else Some (last (ps ! ?i))) new ?node"
  have node: "fn_next ?node = None" by simp
  note att = fsm_attached_rep [OF rep i free node, folded m1_def]
  have "fsm_subscript hash d k m = Inr (fn_value (fs_pool m1 ! new), m1)"
    using fsm_subscript_ref_attached [OF rep refl free None] by (simp add: fsm_subscript_def m1_def)
  then have m': "m' = m1" and w: "w = d" using sub att(4) by simp_all
  have "fs_mask m' = fs_mask m"
    by (simp add: m' m1_def fsm_attached_def Let_def split: option.split)
  then show thesis using att(1,2) None w by (intro that) (simp_all add: m' buckets_subscript_def)
qed

subsection \<open>The contract of a keyed store\<close>

text \<open>
  \<open>fsm_inv\<close>: besides the representation, no key twice in a bucket and every key in the bucket
  its hash selects.  A duplicate \<open>insert\<close> breaks this, and nothing else does.
\<close>

definition buckets_inv :: "('k \<Rightarrow> nat) \<Rightarrow> ('k, 'v) bucket list \<Rightarrow> bool" where
  "buckets_inv idx t \<longleftrightarrow>
     (\<forall>i < length t. distinct (map fst (t ! i)) \<and> (\<forall>k \<in> fst ` set (t ! i). idx k = i))"

definition fsm_inv :: "('k \<Rightarrow> u64) \<Rightarrow> ('k, 'v) fsm \<Rightarrow> bool" where
  "fsm_inv hash m \<longleftrightarrow> (\<exists>ps. fsm_rep m ps \<and> buckets_inv (fsm_index hash m) (fsm_table m ps))"

definition fsm_lookup :: "('k \<Rightarrow> u64) \<Rightarrow> ('k, 'v) fsm \<Rightarrow> 'k \<rightharpoonup> 'v" where
  "fsm_lookup hash m = (\<lambda>k. case fsm_find hash k m of Inr p \<Rightarrow> p | Inl _ \<Rightarrow> None)"

lemma fsm_lookup_rep:
  "fsm_rep m ps \<Longrightarrow> fsm_lookup hash m = (\<lambda>k. buckets_find (fsm_index hash m) k (fsm_table m ps))"
  by (simp add: fsm_lookup_def fsm_find_rep)

lemma fsm_inv_find: "fsm_inv hash m \<Longrightarrow> fsm_find hash k m = Inr (fsm_lookup hash m k)"
  by (auto simp: fsm_inv_def fsm_lookup_rep fsm_find_rep)

lemma buckets_inv_update:
  assumes "buckets_inv idx t" and "distinct (map fst b)" and "\<And>k. k \<in> fst ` set b \<Longrightarrow> idx k = i"
  shows "buckets_inv idx (t[i := b])"
  using assms by (cases "i < length t") (auto simp: buckets_inv_def nth_list_update list_update_beyond)

lemma buckets_inv_nth:
  assumes "buckets_inv idx t" and "i < length t"
  shows "distinct (map fst (t ! i))" and "k \<in> fst ` set (t ! i) \<Longrightarrow> idx k = i"
  using assms unfolding buckets_inv_def by blast+

lemma buckets_inv_put:
  assumes "buckets_inv idx t" and "idx k < length t"
  shows "buckets_inv idx (buckets_put idx k v t)"
  unfolding buckets_put_def
proof (rule buckets_inv_update [OF assms(1)])
  show "distinct (map fst (bucket_put k v (t ! idx k)))"
    by (rule distinct_bucket_put [OF buckets_inv_nth(1) [OF assms]])
  fix k' assume "k' \<in> fst ` set (bucket_put k v (t ! idx k))"
  then show "idx k' = idx k" using buckets_inv_nth(2) [OF assms, of k'] by (auto simp: keys_bucket_put)
qed

lemma buckets_inv_remove:
  assumes "buckets_inv idx t" and "i < length t"
  shows "buckets_inv idx (t[i := bucket_remove k (t ! i)])"
proof (rule buckets_inv_update [OF assms(1)])
  show "distinct (map fst (bucket_remove k (t ! i)))"
    unfolding bucket_remove_def by (rule distinct_map_filter [OF buckets_inv_nth(1) [OF assms]])
  fix k' assume "k' \<in> fst ` set (bucket_remove k (t ! i))"
  then show "idx k' = i" using buckets_inv_nth(2) [OF assms, of k'] by (auto simp: keys_bucket_remove)
qed

lemma fsm_index_mask: "fs_mask m' = fs_mask m \<Longrightarrow> fsm_index hash m' = fsm_index hash m"
  by (simp add: fsm_index_def fun_eq_iff)

lemma fsm_rep_ok: "fsm_rep m ps \<Longrightarrow> buckets_ok (fsm_index hash m) (fsm_table m ps)"
  by (simp add: buckets_ok_def fsm_rep_index)

lemma fsm_put_inv:
  assumes "fsm_rep m ps" and "buckets_inv (fsm_index hash m) (fsm_table m ps)"
    and "fsm_rep m' ps'" and "fs_mask m' = fs_mask m"
    and "fsm_table m' ps' = buckets_put (fsm_index hash m) k v (fsm_table m ps)"
  shows "fsm_inv hash m' \<and> fsm_lookup hash m' = (fsm_lookup hash m)(k \<mapsto> v)"
proof -
  note idx = fsm_index_mask [OF assms(4), of hash]
  have "buckets_inv (fsm_index hash m') (fsm_table m' ps')"
    unfolding idx assms(5) using fsm_rep_index [OF assms(1)] by (intro buckets_inv_put [OF assms(2)]) simp
  moreover have "fsm_lookup hash m' = (fsm_lookup hash m)(k \<mapsto> v)"
    using buckets_find_put [OF fsm_rep_ok [OF assms(1), of hash]]
    by (simp add: fsm_lookup_rep [OF assms(1)] fsm_lookup_rep [OF assms(3)] assms(5) idx fun_eq_iff)
  ultimately show ?thesis using assms(3) by (auto simp: fsm_inv_def)
qed

lemma fsm_assign_ok:
  assumes "fsm_inv hash m" and "fsm_assign hash d k v m = Inr m'"
  shows "fsm_inv hash m' \<and> fsm_lookup hash m' = (fsm_lookup hash m)(k \<mapsto> v)"
proof -
  obtain ps where ps: "fsm_rep m ps" "buckets_inv (fsm_index hash m) (fsm_table m ps)"
    using assms(1) by (auto simp: fsm_inv_def)
  show ?thesis by (rule fsm_assign_rep [OF ps(1) assms(2)]) (rule fsm_put_inv [OF ps])
qed

lemma fsm_insert_fresh:
  assumes "fsm_inv hash m" and "fsm_lookup hash m k = None" and "fsm_insert hash k v m = Inr m'"
  shows "fsm_inv hash m' \<and> fsm_lookup hash m' = (fsm_lookup hash m)(k \<mapsto> v)"
proof -
  obtain ps where ps: "fsm_rep m ps" "buckets_inv (fsm_index hash m) (fsm_table m ps)"
    using assms(1) by (auto simp: fsm_inv_def)
  have none: "bucket_find k (fsm_table m ps ! fsm_index hash m k) = None"
    using assms(2) by (simp add: fsm_lookup_rep [OF ps(1)] buckets_find_def)
  show ?thesis
    by (rule fsm_insert_rep [OF ps(1) assms(3)], rule fsm_put_inv [OF ps])
      (simp_all add: buckets_put_def bucket_put_absent none)
qed

lemma fsm_erase_ok:
  assumes "fsm_inv hash m"
  shows "\<exists>m'. fsm_erase hash k m = Inr (fsm_lookup hash m k \<noteq> None, m') \<and> fsm_inv hash m' \<and>
    fsm_lookup hash m' = (fsm_lookup hash m)(k := None)"
proof -
  obtain ps where ps: "fsm_rep m ps" "buckets_inv (fsm_index hash m) (fsm_table m ps)"
    using assms by (auto simp: fsm_inv_def)
  let ?i = "fsm_index hash m k" and ?t = "fsm_table m ps"
  have i: "?i < length ?t" using fsm_rep_index [OF ps(1)] by simp
  show ?thesis
  proof (cases "bucket_find k (?t ! ?i)")
    case None
    then have "fsm_lookup hash m k = None"
      by (simp add: fsm_lookup_rep [OF ps(1)] buckets_find_def)
    then show ?thesis
      using fsm_erase_miss [OF ps(1) None] assms by (simp add: fun_upd_idem)
  next
    case (Some v)
    obtain m' ps' n where e: "fsm_erase hash k m = Inr (True, m')" "fsm_rep m' ps'"
      "fsm_table m' ps' = ?t[?i := bucket_remove1 k (?t ! ?i)]" "fs_mask m' = fs_mask m"
      by (rule fsm_erase_rep [OF ps(1) refl Some])
    have t': "fsm_table m' ps' = ?t[?i := bucket_remove k (?t ! ?i)]"
      using e(3) ps(2) i by (simp add: buckets_inv_def bucket_remove1_distinct)
    have "fsm_lookup hash m k = Some v"
      using Some by (simp add: fsm_lookup_rep [OF ps(1)] buckets_find_def)
    moreover have "buckets_inv (fsm_index hash m') (fsm_table m' ps')"
      unfolding t' fsm_index_mask [OF e(4), of hash] by (rule buckets_inv_remove [OF ps(2) i])
    then have "fsm_inv hash m'" using e(2) by (auto simp: fsm_inv_def)
    moreover have "fsm_lookup hash m' = (fsm_lookup hash m)(k := None)"
    proof
      fix k'
      show "fsm_lookup hash m' k' = ((fsm_lookup hash m)(k := None)) k'"
        using i by (cases "fsm_index hash m k' = ?i")
          (auto simp: fsm_lookup_rep [OF ps(1)] fsm_lookup_rep [OF e(2)] t' fsm_index_mask [OF e(4)]
            buckets_find_def bucket_find_remove)
    qed
    ultimately show ?thesis using e(1) by simp
  qed
qed

lemma fsm_contains_lookup: "fsm_inv hash m \<Longrightarrow> fsm_contains hash k m = Inr (fsm_lookup hash m k \<noteq> None)"
  by (auto simp: fsm_inv_def fsm_lookup_rep fsm_contains_rep simp del: not_None_eq)

lemma fsm_subscript_hit:
  assumes "fsm_inv hash m" and "fsm_lookup hash m k = Some v"
  shows "fsm_subscript hash d k m = Inr (v, m)"
proof -
  obtain ps where ps: "fsm_rep m ps" using assms(1) by (auto simp: fsm_inv_def)
  have hit: "bucket_find k (fsm_table m ps ! fsm_index hash m k) = Some v"
    using assms(2) by (simp add: fsm_lookup_rep [OF ps] buckets_find_def)
  obtain as n bs where "fn_value (fs_pool m ! n) = v"
    and "fsm_search (fs_pool m) k (length (fs_pool m)) None (fs_buckets m ! fsm_index hash m k)
      = Inr (if as = [] then None else Some (last as), Some n)"
    by (rule fsm_rep_search_hit [OF ps fsm_rep_index [OF ps] hit])
  then show ?thesis by (simp add: fsm_subscript_def fsm_subscript_ref_def Let_def)
qed

lemma fsm_subscript_miss:
  assumes "fsm_inv hash m" and "fsm_lookup hash m k = None" and "fsm_subscript hash d k m = Inr (v, m')"
  shows "v = d \<and> fsm_inv hash m' \<and> fsm_lookup hash m' = (fsm_lookup hash m)(k \<mapsto> d)"
proof -
  obtain ps where ps: "fsm_rep m ps" "buckets_inv (fsm_index hash m) (fsm_table m ps)"
    using assms(1) by (auto simp: fsm_inv_def)
  have none: "buckets_find (fsm_index hash m) k (fsm_table m ps) = None"
    using assms(2) by (simp add: fsm_lookup_rep [OF ps(1)])
  obtain ps' where ps': "fsm_rep m' ps'" "fs_mask m' = fs_mask m"
    "(v, fsm_table m' ps') = buckets_subscript (fsm_index hash m) d k (fsm_table m ps)"
    by (rule fsm_subscript_rep [OF ps(1) assms(3)])
  have "v = d" and "fsm_table m' ps' = buckets_put (fsm_index hash m) k d (fsm_table m ps)"
    using ps'(3) buckets_subscript_miss [OF none, of d] by simp_all
  then show ?thesis using fsm_put_inv [OF ps ps'(1,2)] by blast
qed

interpretation fsm: keyed_store "fsm_find hash" "fsm_contains hash" "fsm_erase hash"
  "fsm_subscript hash d" "fsm_assign hash d" "fsm_insert hash" d "fsm_lookup hash" "fsm_inv hash"
  for hash :: "'k \<Rightarrow> u64" and d :: 'v
  by unfold_locales
    (rule fsm_inv_find fsm_contains_lookup fsm_erase_ok fsm_subscript_hit fsm_subscript_miss
      fsm_assign_ok fsm_insert_fresh; assumption)+

subsection \<open>How many keys fit\<close>

lemma in_set_concat_nth: "a \<in> set (concat ps) \<longleftrightarrow> (\<exists>i < length ps. a \<in> set (ps ! i))"
  by (metis UN_iff in_set_conv_nth set_concat)

text \<open>The chains hold one node per live key, so the free stack is empty exactly when the pool is used up.\<close>

lemma fsm_live_nodes:
  assumes rep: "fsm_rep m ps" and inv: "buckets_inv (fsm_index hash m) (fsm_table m ps)"
  shows "finite (dom (fsm_lookup hash m))"
    and "length (fs_free m) + card (dom (fsm_lookup hash m)) = length (fs_pool m)"
proof -
  let ?key = "\<lambda>n. fn_key (fs_pool m ! n)" and ?idx = "fsm_index hash m"
  have keys: "?key n \<in> fst ` set (fsm_table m ps ! i)" if "i < length ps" "n \<in> set (ps ! i)" for i n
    using that by (auto simp: chain_entries_def image_iff)
  have idx: "?idx (?key n) = i" if "i < length ps" "n \<in> set (ps ! i)" for i n
    using buckets_inv_nth(2) [OF inv, of i] keys [OF that] that(1) by simp
  have inj: "inj_on ?key (set (concat ps))"
  proof (rule inj_onI)
    fix a b assume a: "a \<in> set (concat ps)" and b: "b \<in> set (concat ps)" and eq: "?key a = ?key b"
    obtain i j where i: "i < length ps" "a \<in> set (ps ! i)" and j: "j < length ps" "b \<in> set (ps ! j)"
      using a b unfolding in_set_concat_nth by blast
    have "i = j" using idx [OF i] idx [OF j] eq by simp
    have "distinct (map ?key (ps ! i))"
      using buckets_inv_nth(1) [OF inv, of i] i(1) by (simp add: chain_entries_def comp_def)
    then show "a = b" using i j eq \<open>i = j\<close> by (auto simp: distinct_map dest: inj_onD)
  qed
  have dom: "dom (fsm_lookup hash m) = ?key ` set (concat ps)"
  proof (intro equalityI subsetI)
    fix k assume "k \<in> dom (fsm_lookup hash m)"
    then have "k \<in> fst ` set (fsm_table m ps ! ?idx k)"
      by (simp add: fsm_lookup_rep [OF rep] buckets_find_def domIff bucket_find_None_iff)
    then show "k \<in> ?key ` set (concat ps)"
      using fsm_rep_index [OF rep, of hash k] by (fastforce simp: chain_entries_def)
  next
    fix k assume "k \<in> ?key ` set (concat ps)"
    then obtain n where n: "n \<in> set (concat ps)" and k: "k = ?key n" by blast
    obtain i where i: "i < length ps" "n \<in> set (ps ! i)" using n unfolding in_set_concat_nth by blast
    show "k \<in> dom (fsm_lookup hash m)"
      using k keys [OF i] idx [OF i]
      by (simp add: fsm_lookup_rep [OF rep] buckets_find_def domIff bucket_find_None_iff)
  qed
  then show "finite (dom (fsm_lookup hash m))" by (simp only: finite_imageI List.finite_set)
  have "card (dom (fsm_lookup hash m)) = length (concat ps)"
    using fsm_rep_distinct(1) [OF rep] inj distinct_card [of "concat ps"]
    unfolding dom by (simp add: card_image del: set_concat)
  moreover have "length (fs_free m @ concat ps) = length (fs_pool m)"
    using rep unfolding fsm_rep_def by (metis length_upt minus_nat.diff_0 mset_append size_mset)
  ultimately show "length (fs_free m) + card (dom (fsm_lookup hash m)) = length (fs_pool m)" by simp
qed

text \<open>When a node is free every call succeeds; when none is, only a call that needs one fails.\<close>

definition fsm_ops :: "('k \<Rightarrow> u64) \<Rightarrow> 'v \<Rightarrow> ('k, 'v, ('k, 'v) fsm) store_ops" where
  "fsm_ops hash d = \<lparr>so_find = fsm_find hash, so_contains = fsm_contains hash, so_erase = fsm_erase hash,
     so_subscript = fsm_subscript hash d, so_assign = fsm_assign hash d, so_insert = fsm_insert hash\<rparr>"

definition fsm_exhausted :: fault where
  "fsm_exhausted = Throw ''No free nodes available in the pool''"

lemma fsm_ref_cases:
  assumes rep: "fsm_rep m ps"
  obtains (ok) n m' where "fsm_subscript_ref hash d k m = Inr (n, m')"
  | (full) "fsm_subscript_ref hash d k m = Inl fsm_exhausted" and "fs_free m = []"
      and "fsm_lookup hash m k = None"
proof (cases "bucket_find k (fsm_table m ps ! fsm_index hash m k)")
  case (Some v)
  obtain as n bs where "fn_value (fs_pool m ! n) = v"
    and "fsm_search (fs_pool m) k (length (fs_pool m)) None (fs_buckets m ! fsm_index hash m k)
      = Inr (if as = [] then None else Some (last as), Some n)"
    by (rule fsm_rep_search_hit [OF rep fsm_rep_index [OF rep] Some])
  then show thesis by (intro ok) (simp add: fsm_subscript_ref_def Let_def)
next
  case None
  show thesis
  proof (cases "fs_free m")
    case Nil
    then show thesis using fsm_subscript_ref_full [OF rep Nil None] None
      by (intro full) (simp_all add: fsm_exhausted_def fsm_lookup_rep [OF rep] buckets_find_def)
  next
    case (Cons new rest)
    show thesis by (rule ok [OF fsm_subscript_ref_attached [OF rep refl Cons None]])
  qed
qed

lemma fsm_insert_cases:
  assumes rep: "fsm_rep m ps"
  obtains (ok) m' where "fsm_insert hash k v m = Inr m'"
  | (full) "fsm_insert hash k v m = Inl fsm_exhausted" and "fs_free m = []"
proof (cases "fs_free m")
  case Nil
  then show thesis by (intro full) (simp_all add: fsm_insert_def fsm_exhausted_def)
next
  case (Cons new rest)
  show thesis by (rule ok [OF fsm_insert_attached [OF rep refl Cons]])
qed

lemma fsm_pool_size:
  "fsm_insert hash k v m = Inr m' \<Longrightarrow> length (fs_pool m') = length (fs_pool m)"
  "fsm_subscript_ref hash d k m = Inr (n, m') \<Longrightarrow> length (fs_pool m') = length (fs_pool m)"
  "fsm_erase hash k m = Inr (r, m') \<Longrightarrow> length (fs_pool m') = length (fs_pool m)"
  by (auto simp: fsm_insert_def fsm_subscript_ref_def fsm_erase_def Let_def split: list.splits option.splits)

text \<open>
  A step never diverges, and whatever it does, duplicate inserts included, it loses no node
  and forms no cycle.
\<close>

definition fsm_step_good :: "('k, 'v) fsm \<Rightarrow> ('a \<times> ('k, 'v) fsm) res \<Rightarrow> bool" where
  "fsm_step_good m out = (case out of
     Inr (r, m') \<Rightarrow> (\<exists>ps'. fsm_rep m' ps') \<and> length (fs_pool m') = length (fs_pool m)
   | Inl e \<Rightarrow> e = fsm_exhausted \<and> fs_free m = [])"

lemma fsm_step_rep:
  assumes rep: "fsm_rep m ps"
  shows "fsm_step_good m (store_step (fsm_ops hash d) c m)"
proof (cases c)
  case (Insert k v)
  show ?thesis
  proof (rule fsm_insert_cases [OF rep, of hash k v])
    fix m' assume ins: "fsm_insert hash k v m = Inr m'"
    obtain ps' n where "fsm_rep m' ps'" by (rule fsm_insert_rep [OF rep ins])
    then show ?thesis using ins Insert fsm_pool_size(1) [OF ins] by (auto simp: fsm_step_good_def fsm_ops_def)
  qed (simp add: Insert fsm_step_good_def fsm_ops_def)
next
  case (Assign k v)
  show ?thesis
  proof (rule fsm_ref_cases [OF rep, of hash d k])
    fix n m1 assume ref: "fsm_subscript_ref hash d k m = Inr (n, m1)"
    then obtain m' where m': "fsm_assign hash d k v m = Inr m'" and len: "length (fs_pool m') = length (fs_pool m)"
      using fsm_pool_size(2) [OF ref] by (auto simp: fsm_assign_def)
    obtain ps' where "fsm_rep m' ps'" by (rule fsm_assign_rep [OF rep m'])
    then show ?thesis using m' len Assign by (auto simp: fsm_step_good_def fsm_ops_def)
  qed (simp add: Assign fsm_step_good_def fsm_ops_def fsm_assign_def)
next
  case (Subscript k)
  show ?thesis
  proof (rule fsm_ref_cases [OF rep, of hash d k])
    fix n m1 assume ref: "fsm_subscript_ref hash d k m = Inr (n, m1)"
    then have sub: "fsm_subscript hash d k m = Inr (fn_value (fs_pool m1 ! n), m1)"
      by (simp add: fsm_subscript_def)
    obtain ps' where "fsm_rep m1 ps'" by (rule fsm_subscript_rep [OF rep sub])
    then show ?thesis using sub fsm_pool_size(2) [OF ref] Subscript by (auto simp: fsm_step_good_def fsm_ops_def)
  qed (simp add: Subscript fsm_step_good_def fsm_ops_def fsm_subscript_def)
next
  case (Erase k)
  show ?thesis
  proof (cases "bucket_find k (fsm_table m ps ! fsm_index hash m k)")
    case None
    then show ?thesis using fsm_erase_miss [OF rep None] rep Erase
      by (auto simp: fsm_step_good_def fsm_ops_def)
  next
    case (Some v)
    obtain m' ps' n where e: "fsm_erase hash k m = Inr (True, m')" "fsm_rep m' ps'"
      by (rule fsm_erase_rep [OF rep refl Some])
    then show ?thesis using fsm_pool_size(3) [OF e(1)] Erase
      by (auto simp: fsm_step_good_def fsm_ops_def)
  qed
next
  case (Find k)
  then show ?thesis using rep by (auto simp: fsm_step_good_def fsm_ops_def fsm_find_rep [OF rep])
next
  case (Contains k)
  then show ?thesis using rep
    by (auto simp: fsm_step_good_def fsm_ops_def fsm_contains_rep [OF rep])
qed

lemma fsm_new_rep:
  assumes "fsm_new dk dv c = Inr m"
  shows "fsm_rep m (replicate (unat c) [])" and "fsm_inv hash m" and "fsm_lookup hash m = Map.empty"
    and "length (fs_pool m) = unat (c * 16)"
proof -
  have m: "pow2_capacity c" "m = \<lparr>fs_buckets = replicate (unat c) None,
      fs_pool = replicate (unat (c * 16)) \<lparr>fn_key = dk, fn_value = dv, fn_next = None\<rparr>,
      fs_free = rev [0..<unat (c * 16)], fs_mask = c - 1\<rparr>"
    using assms by (simp_all add: fsm_new_def Let_def pow2_capacity_def split: if_splits)
  have empty: "concat (replicate n []) = []" for n by (induction n) simp_all
  show rep: "fsm_rep m (replicate (unat c) [])"
    using m by (auto simp: fsm_rep_def empty)
  have table: "fsm_table m (replicate (unat c) []) = replicate (unat c) []"
    by (simp add: fsm_table_def)
  show "fsm_inv hash m" unfolding fsm_inv_def
    by (rule exI [of _ "replicate (unat c) []"]) (simp add: rep table buckets_inv_def)
  show "fsm_lookup hash m = Map.empty"
    using fsm_rep_index [OF rep] by (simp add: fsm_lookup_rep [OF rep] table buckets_find_def fun_eq_iff)
  show "length (fs_pool m) = unat (c * 16)" by (simp add: m(2))
qed

lemma fsm_step_full:
  assumes inv: "fsm_inv hash m" and fresh: "inserts_fresh d [c] (fsm_lookup hash m)"
    and err: "store_step (fsm_ops hash d) c m = Inl e"
  shows "card (dom (snd (map_step d c (fsm_lookup hash m)))) = Suc (length (fs_pool m))"
proof -
  obtain ps where ps: "fsm_rep m ps" "buckets_inv (fsm_index hash m) (fsm_table m ps)"
    using inv by (auto simp: fsm_inv_def)
  let ?f = "fsm_lookup hash m"
  have "fs_free m = []"
    using fsm_step_rep [OF ps(1), of hash d c] err by (simp add: fsm_step_good_def)
  then have dom: "finite (dom ?f)" "card (dom ?f) = length (fs_pool m)"
    using fsm_live_nodes [OF ps] by simp_all
  have "\<exists>k v. ?f k = None \<and> snd (map_step d c ?f) = ?f(k \<mapsto> v)"
  proof (cases c)
    case (Insert k v)
    then show ?thesis using fresh by auto
  next
    case (Assign k v)
    then have "?f k = None"
      using err by (cases rule: fsm_ref_cases [OF ps(1), of hash d k])
        (auto simp: fsm_ops_def fsm_assign_def)
    then show ?thesis using Assign by auto
  next
    case (Subscript k)
    then have "?f k = None"
      using err by (cases rule: fsm_ref_cases [OF ps(1), of hash d k])
        (auto simp: fsm_ops_def fsm_subscript_def)
    then show ?thesis using Subscript by auto
  next
    case (Erase k)
    then show ?thesis using err fsm_erase_ok [OF inv, of k] by (auto simp: fsm_ops_def)
  next
    case (Find k)
    then show ?thesis using err fsm_inv_find [OF inv] by (simp add: fsm_ops_def)
  next
    case (Contains k)
    then show ?thesis using err fsm_contains_lookup [OF inv] by (simp add: fsm_ops_def)
  qed
  then obtain k v where "?f k = None" "snd (map_step d c ?f) = ?f(k \<mapsto> v)" by blast
  then show ?thesis using dom by (simp add: domIff)
qed

lemma fsm_run_total:
  assumes "fsm_inv hash m" and "inserts_fresh d cs (fsm_lookup hash m)"
    and "map_peak d cs (fsm_lookup hash m) \<le> length (fs_pool m)"
  shows "\<exists>rs m'. store_run (fsm_ops hash d) cs m = Inr (rs, m')"
  using assms
proof (induction cs arbitrary: m)
  case (Cons c cs)
  let ?f = "fsm_lookup hash m"
  have fresh: "inserts_fresh d [c] ?f" using Cons.prems(2) by simp
  have le: "card (dom g) \<le> map_peak d cs g" for g by (cases cs) simp_all
  have "card (dom (snd (map_step d c ?f))) \<le> length (fs_pool m)"
    using Cons.prems(3) le [of "snd (map_step d c ?f)"] by simp
  then have no_error: False if "store_step (fsm_ops hash d) c m = Inl e" for e
    using fsm_step_full [OF Cons.prems(1) fresh that] by simp
  obtain r m1 where step: "store_step (fsm_ops hash d) c m = Inr (r, m1)"
    using no_error by (cases "store_step (fsm_ops hash d) c m") auto
  have sim: "fsm_inv hash m1 \<and> map_step d c ?f = (r, fsm_lookup hash m1)"
    by (rule fsm.fresh_step_simulates [OF Cons.prems(1) fresh step [unfolded fsm_ops_def]])
  obtain ps where ps: "fsm_rep m ps" using Cons.prems(1) by (auto simp: fsm_inv_def)
  have "length (fs_pool m1) = length (fs_pool m)"
    using fsm_step_rep [OF ps, of hash d c] step by (simp add: fsm_step_good_def)
  then have "\<exists>rs m'. store_run (fsm_ops hash d) cs m1 = Inr (rs, m')"
    using Cons.IH [of m1] Cons.prems(2,3) sim by simp
  then show ?case using step by auto
qed simp

subsection \<open>FixedSizedChainingHashTable of c++20/HashTables.cpp\<close>

text \<open>
  The same structure with \<open>hash % table_.size()\<close> as the index, which divides by zero on a table
  of size 0, and a pool of 1024 nodes whatever the size.
\<close>

record ('k, 'v) fst_table =
  ft_table :: "nat option list"
  ft_pool :: "('k, 'v) fnode list"
  ft_free :: "nat list"

definition fst_new :: "'k \<Rightarrow> 'v \<Rightarrow> u64 \<Rightarrow> ('k, 'v) fst_table" where
  "fst_new dkey dval n =
     \<lparr>ft_table = replicate (unat n) None,
      ft_pool = replicate 1024 \<lparr>fn_key = dkey, fn_value = dval, fn_next = None\<rparr>,
      ft_free = rev [0..<1024]\<rparr>"

definition fst_index :: "('k \<Rightarrow> u64) \<Rightarrow> ('k, 'v) fst_table \<Rightarrow> 'k \<Rightarrow> nat res" where
  "fst_index hash t key =
     (if length (ft_table t) = 0 then Inl (UB DivisionByZero)
      else Inr (unat (hash key) mod length (ft_table t)))"

definition fst_insert :: "('k \<Rightarrow> u64) \<Rightarrow> 'k \<Rightarrow> 'v \<Rightarrow> ('k, 'v) fst_table \<Rightarrow> ('k, 'v) fst_table res" where
  "fst_insert hash key value t =
     bind_res (fst_index hash t key) (\<lambda>index.
       case ft_free t of
         [] \<Rightarrow> Inl (Throw ''No free nodes available in the pool'')
       | current # rest \<Rightarrow>
           (let pool = (ft_pool t)[current := \<lparr>fn_key = key, fn_value = value, fn_next = None\<rparr>];
                t' = t\<lparr>ft_pool := pool, ft_free := rest\<rparr>
            in case ft_table t ! index of
                 None \<Rightarrow> Inr (t'\<lparr>ft_table := (ft_table t)[index := Some current]\<rparr>)
               | Some node \<Rightarrow>
                   bind_res (fsm_last pool (length pool) node) (\<lambda>p.
                     Inr (t'\<lparr>ft_pool := pool[p := (pool ! p)\<lparr>fn_next := Some current\<rparr>]\<rparr>))))"

definition fst_contains :: "('k \<Rightarrow> u64) \<Rightarrow> 'k \<Rightarrow> ('k, 'v) fst_table \<Rightarrow> bool res" where
  "fst_contains hash key t =
     bind_res (fst_index hash t key) (\<lambda>index.
       bind_res (fsm_search (ft_pool t) key (length (ft_pool t)) None (ft_table t ! index))
         (\<lambda>(_, node). Inr (node \<noteq> None)))"

definition fst_find :: "('k \<Rightarrow> u64) \<Rightarrow> 'k \<Rightarrow> ('k, 'v) fst_table \<Rightarrow> 'v option res" where
  "fst_find hash key t =
     bind_res (fst_index hash t key) (\<lambda>index.
       bind_res (fsm_search (ft_pool t) key (length (ft_pool t)) None (ft_table t ! index))
         (\<lambda>(_, node). Inr (map_option (\<lambda>n. fn_value (ft_pool t ! n)) node)))"

definition fst_remove :: "('k \<Rightarrow> u64) \<Rightarrow> 'k \<Rightarrow> ('k, 'v) fst_table \<Rightarrow> (bool \<times> ('k, 'v) fst_table) res" where
  "fst_remove hash key t =
     bind_res (fst_index hash t key) (\<lambda>index.
       bind_res (fsm_search (ft_pool t) key (length (ft_pool t)) None (ft_table t ! index))
         (\<lambda>(prev, node). case node of
            None \<Rightarrow> Inr (False, t)
          | Some n \<Rightarrow>
              (let next = fn_next (ft_pool t ! n);
                   t' = (case prev of
                           None \<Rightarrow> t\<lparr>ft_table := (ft_table t)[index := next]\<rparr>
                         | Some p \<Rightarrow> t\<lparr>ft_pool := (ft_pool t)[p := (ft_pool t ! p)\<lparr>fn_next := next\<rparr>]\<rparr>)
               in Inr (True, t'\<lparr>ft_free := n # ft_free t'\<rparr>))))"

text \<open>The map's state without its mask is a state of the table.\<close>

definition fst_of_fsm :: "('k, 'v) fsm \<Rightarrow> ('k, 'v) fst_table" where
  "fst_of_fsm m = \<lparr>ft_table = fs_buckets m, ft_pool = fs_pool m, ft_free = fs_free m\<rparr>"

lemma fst_of_fsm_sel [simp]:
  "ft_table (fst_of_fsm m) = fs_buckets m" "ft_pool (fst_of_fsm m) = fs_pool m"
  "ft_free (fst_of_fsm m) = fs_free m"
  "fst_of_fsm (m\<lparr>fs_buckets := b\<rparr>) = fst_of_fsm m\<lparr>ft_table := b\<rparr>"
  "fst_of_fsm (m\<lparr>fs_pool := p\<rparr>) = fst_of_fsm m\<lparr>ft_pool := p\<rparr>"
  "fst_of_fsm (m\<lparr>fs_free := f\<rparr>) = fst_of_fsm m\<lparr>ft_free := f\<rparr>"
  by (simp_all add: fst_of_fsm_def)

lemma fst_index_fsm:
  assumes "fsm_rep m ps"
  shows "fst_index hash (fst_of_fsm m) k = Inr (fsm_index hash m k)"
proof -
  obtain c where c: "pow2_capacity c" "length (fs_buckets m) = unat c" "fs_mask m = c - 1"
    using assms by (auto simp: fsm_rep_def)
  then have "unat c \<noteq> 0" by (auto simp: pow2_capacity_def unat_eq_0)
  with c show ?thesis by (simp add: fst_index_def fsm_index_def pow2_mask_index(1))
qed

subsection \<open>Properties\<close>

text \<open>
  Claim C6.  \<open>FixedSizedChainingHashMap\<close> is a map as long as its pool lasts.  For every hash
  function and every sequence of calls that inserts fresh keys only and never holds more than
  \<open>16 * initBuckets\<close> keys at a time, no call throws or loops, each call answers what a partial
  function answers, and the final buckets represent the final partial function.
\<close>

theorem fsm_simulates_map:
  assumes "fsm_new dk dv c = Inr m" and "inserts_fresh d cs Map.empty"
    and "map_peak d cs Map.empty \<le> unat (c * 16)"
  shows "\<exists>rs m'. store_run (fsm_ops hash d) cs m = Inr (rs, m') \<and>
    map_run d cs Map.empty = (rs, fsm_lookup hash m')"
proof -
  note new = fsm_new_rep [OF assms(1)]
  obtain rs m' where run: "store_run (fsm_ops hash d) cs m = Inr (rs, m')"
    using fsm_run_total [OF new(2)] assms(2,3) new(3,4) by metis
  show ?thesis
    using fsm.fresh_run_simulates [OF new(2) _ run [unfolded fsm_ops_def]] assms(2) new(3) run by auto
qed

theorem fsm_simulates_map_witness:
  "\<exists>m. fsm_new (0 :: u64) (0 :: nat) 2 = Inr m \<and> (\<exists>rs m'.
    store_run (fsm_ops hash_u64 0) [Insert 1 10, Assign 3 30, Subscript 5, Erase 1, Find 3, Insert 1 11] m
      = Inr (rs, m') \<and>
    map_run 0 [Insert 1 10, Assign 3 30, Subscript 5, Erase 1, Find 3, Insert 1 11] Map.empty
      = (rs, fsm_lookup hash_u64 m'))"
proof -
  obtain m where m: "fsm_new (0 :: u64) (0 :: nat) 2 = Inr m"
    by (simp add: fsm_new_def Let_def)
  show ?thesis
    by (rule exI [of _ m], intro conjI m fsm_simulates_map [OF m]) (simp_all add: insert_Diff_if)
qed

text \<open>
  Claim C7.  No call sequence whatsoever, duplicate inserts included, leaks a node, links one
  twice or closes a cycle: after each run the free stack and the chains hold every node of the
  pool exactly once, and the only failure is the exception of an exhausted pool.
\<close>

theorem fsm_never_leaks:
  assumes "fsm_new dk dv c = Inr m"
  shows "case store_run (fsm_ops hash d) cs m of
      Inr (rs, m') \<Rightarrow> \<exists>ps. fsm_rep m' ps
    | Inl e \<Rightarrow> e = Throw ''No free nodes available in the pool''"
proof -
  have "\<exists>ps. fsm_rep m ps" using fsm_new_rep(1) [OF assms] by blast
  then show ?thesis
  proof (induction cs arbitrary: m)
    case (Cons c cs)
    then obtain ps where "fsm_rep m ps" by blast
    then have good: "fsm_step_good m (store_step (fsm_ops hash d) c m)" by (rule fsm_step_rep)
    show ?case
    proof (cases "store_step (fsm_ops hash d) c m")
      case (Inl e)
      then show ?thesis using good by (simp add: fsm_step_good_def fsm_exhausted_def)
    next
      case (Inr out)
      obtain r m1 where out: "out = (r, m1)" by (cases out)
      then have "\<exists>ps. fsm_rep m1 ps" using good Inr by (simp add: fsm_step_good_def)
      from Cons.IH [OF this] show ?thesis
        using Inr out by (cases "store_run (fsm_ops hash d) cs m1") auto
    qed
  qed simp
qed

theorem fsm_never_leaks_witness:
  "\<exists>m. fsm_new (0 :: u64) (0 :: nat) 1 = Inr m \<and>
    (case store_run (fsm_ops hash_u64 0) [Insert 1 10, Insert 1 11, Erase 1] m of
      Inr (rs, m') \<Rightarrow> \<exists>ps. fsm_rep m' ps
    | Inl e \<Rightarrow> e = Throw ''No free nodes available in the pool'')"
proof -
  obtain m where m: "fsm_new (0 :: u64) (0 :: nat) 1 = Inr m"
    by (simp add: fsm_new_def Let_def)
  show ?thesis using m fsm_never_leaks [OF m] by blast
qed

text \<open>
  Claim C8.  \<open>insert\<close> of a key that is there does not replace its value, unlike the other maps:
  it appends a second node, so \<open>find\<close> keeps answering the old value, and the new one shows only
  after the old node is erased.
\<close>

theorem fsm_insert_shadowed:
  assumes "fsm_rep m ps" and "fsm_find hash k m = Inr (Some w)" and "fsm_insert hash k v m = Inr m'"
  shows "fsm_find hash k m' = Inr (Some w) \<and>
    (\<exists>m''. fsm_erase hash k m' = Inr (True, m'') \<and> fsm_find hash k m'' \<noteq> Inr None)"
proof -
  let ?i = "fsm_index hash m k"
  obtain ps' n where m': "fsm_rep m' ps'" "fs_mask m' = fs_mask m"
    "fsm_table m' ps' = (fsm_table m ps)[?i := fsm_table m ps ! ?i @ [(k, v)]]"
    by (rule fsm_insert_rep [OF assms(1,3)])
  note idx = fsm_index_mask [OF m'(2), of hash]
  have i: "?i < length (fsm_table m ps)" using fsm_rep_index [OF assms(1)] by simp
  have old: "bucket_find k (fsm_table m ps ! ?i) = Some w"
    using assms(2) by (simp add: fsm_find_rep [OF assms(1)] buckets_find_def)
  have app: "bucket_find k (b @ [(k, v)]) = Some w \<and> (k, v) \<in> set (bucket_remove1 k (b @ [(k, v)]))"
    if "bucket_find k b = Some w" for b
    using that by (induction b) (auto split: if_splits)
  have new: "fsm_table m' ps' ! ?i = fsm_table m ps ! ?i @ [(k, v)]"
    unfolding m'(3) using i by (rule nth_list_update_eq)
  then have hit: "bucket_find k (fsm_table m' ps' ! ?i) = Some w"
    using app [OF old] by simp
  obtain m'' ps'' n' where e: "fsm_erase hash k m' = Inr (True, m'')" "fsm_rep m'' ps''"
    "fsm_table m'' ps'' = (fsm_table m' ps')[?i := bucket_remove1 k (fsm_table m' ps' ! ?i)]"
    "fs_mask m'' = fs_mask m'"
    by (rule fsm_erase_rep [OF m'(1) idx [THEN fun_cong, symmetric] hit])
  have "length (fsm_table m' ps') = length (fsm_table m ps)"
    unfolding m'(3) by simp
  then have "fsm_table m'' ps'' ! ?i = bucket_remove1 k (fsm_table m ps ! ?i @ [(k, v)])"
    unfolding e(3) new using i by simp
  then have "bucket_find k (fsm_table m'' ps'' ! ?i) \<noteq> None"
    using app [OF old] by (metis bucket_find_None_iff fst_conv image_eqI)
  then show ?thesis
    using e(1) hit idx fsm_index_mask [OF e(4), of hash]
    by (simp add: fsm_find_rep [OF m'(1)] fsm_find_rep [OF e(2)] buckets_find_def)
qed

theorem fsm_insert_shadowed_witness:
  "fsm_find hash_u64 1 \<lparr>fs_buckets = [Some 0], fs_pool = [\<lparr>fn_key = 1, fn_value = ''old'', fn_next = Some 1\<rparr>,
      \<lparr>fn_key = 1, fn_value = ''new'', fn_next = None\<rparr>], fs_free = [], fs_mask = 0\<rparr> = Inr (Some ''old'')"
proof -
  have "fsm_rep \<lparr>fs_buckets = [Some 0], fs_pool = [\<lparr>fn_key = 1 :: u64, fn_value = ''old'', fn_next = None\<rparr>,
      \<lparr>fn_key = 0, fn_value = ''none'', fn_next = None\<rparr>], fs_free = [1], fs_mask = 0\<rparr> [[0]]"
    unfolding fsm_rep_def by (simp add: pow2_capacity_def exI [of _ 1] add_mset_commute)
  from fsm_insert_shadowed [OF this, of hash_u64 1 "''old''" "''new''"] show ?thesis
    by (simp add: fsm_find_def fsm_insert_def fsm_index_def hash_u64_def Let_def)
qed

text \<open>
  Claim C9.  The fixed-pool table of \<open>c++20\<close> and the map of \<open>HFT\<close> agree: on the same nodes and a
  power-of-two bucket count, every operation answers the same and leaves the same nodes.
\<close>

theorem fst_agrees_with_fsm:
  assumes "fsm_rep m ps"
  shows "fst_find hash k (fst_of_fsm m) = fsm_find hash k m \<and>
    fst_contains hash k (fst_of_fsm m) = fsm_contains hash k m \<and>
    fst_insert hash k v (fst_of_fsm m) = map_sum id fst_of_fsm (fsm_insert hash k v m) \<and>
    fst_remove hash k (fst_of_fsm m) = map_sum id (map_prod id fst_of_fsm) (fsm_erase hash k m)"
proof (intro conjI)
  note idx = fst_index_fsm [OF assms, of hash k]
  show "fst_find hash k (fst_of_fsm m) = fsm_find hash k m"
    by (simp add: fst_find_def fsm_find_def idx)
  show "fst_contains hash k (fst_of_fsm m) = fsm_contains hash k m"
    by (simp add: fst_contains_def fsm_contains_def idx)
  have push: "map_sum id g (bind_res x f) = bind_res x (\<lambda>p. map_sum id g (f p))"
    for x :: "nat res" and f and g :: "('k, 'v) fsm \<Rightarrow> ('k, 'v) fst_table"
    by (cases x) simp_all
  show "fst_insert hash k v (fst_of_fsm m) = map_sum id fst_of_fsm (fsm_insert hash k v m)"
  proof (cases "fs_free m")
    case (Cons new rest)
    then show ?thesis
      by (cases "fs_buckets m ! fsm_index hash m k")
        (simp_all add: fst_insert_def fsm_insert_def idx Let_def push)
  qed (simp add: fst_insert_def fsm_insert_def idx)
  show "fst_remove hash k (fst_of_fsm m) = map_sum id (map_prod id fst_of_fsm) (fsm_erase hash k m)"
    by (cases "fsm_search (fs_pool m) k (length (fs_pool m)) None (fs_buckets m ! fsm_index hash m k)")
      (auto simp: fst_remove_def fsm_erase_def idx Let_def split: option.split)
qed

theorem fst_agrees_with_fsm_witness:
  "fst_find hash_u64 1 \<lparr>ft_table = [Some 0], ft_pool = [\<lparr>fn_key = 1, fn_value = ''one'', fn_next = None\<rparr>],
      ft_free = []\<rparr> = fsm_find hash_u64 1 \<lparr>fs_buckets = [Some 0],
      fs_pool = [\<lparr>fn_key = 1, fn_value = ''one'', fn_next = None\<rparr>], fs_free = [], fs_mask = 0\<rparr>"
proof -
  have "fsm_rep \<lparr>fs_buckets = [Some 0], fs_pool = [\<lparr>fn_key = 1 :: u64, fn_value = ''one'', fn_next = None\<rparr>],
      fs_free = [], fs_mask = 0\<rparr> [[0]]"
    unfolding fsm_rep_def by (simp add: pow2_capacity_def exI [of _ 1])
  from fst_agrees_with_fsm [OF this, of hash_u64 1] show ?thesis by (simp add: fst_of_fsm_def)
qed

end
