(* ===== verification/HashMapVariants.thy ===== *)
theory HashMapVariants
  imports ProbeFaults FixedPoolMap
begin

text \<open>
  The rest of the hash maps: \<open>OpenAddressingHashTable\<close> of \<^verbatim>\<open>c++20/HashTables.cpp\<close>, shown to
  agree with \<open>OpenAddressingHashMap\<close> step by step, \<open>STLHashMap\<close> of \<^verbatim>\<open>HFT/HashMap.hpp\<close>, and the
  program \<^verbatim>\<open>HFT/test/TestHashMap.cpp\<close>, whose three maps all give the expected lines.
\<close>

subsection \<open>OpenAddressingHashTable\<close>

text \<open>The index is a remainder, and dividing by the size of an empty table is undefined.\<close>

record ('k, 'v) oat =
  ot_table :: "('k, 'v) slot list"
  ot_size :: nat

definition oat_new :: "'k \<Rightarrow> 'v \<Rightarrow> u64 \<Rightarrow> ('k, 'v) oat" where
  "oat_new dk dv n = \<lparr>ot_table = replicate (unat n) (oa_blank dk dv), ot_size = 0\<rparr>"

definition oat_hash :: "('k \<Rightarrow> u64) \<Rightarrow> ('k, 'v) oat \<Rightarrow> 'k \<Rightarrow> nat res" where
  "oat_hash hash t key =
     (if length (ot_table t) = 0 then Inl (UB DivisionByZero)
      else Inr (unat (hash key) mod length (ot_table t)))"

fun oat_claim :: "('k, 'v) slot list \<Rightarrow> 'k \<Rightarrow> nat \<Rightarrow> nat \<Rightarrow> nat res" where
  "oat_claim t key 0 index = Inl Diverges"
| "oat_claim t key (Suc fuel) index =
     (if s_status (t ! index) \<noteq> OCCUPIED \<or> s_key (t ! index) = key then Inr index
      else oat_claim t key fuel ((index + 1) mod length t))"

fun oat_search :: "('k, 'v) slot list \<Rightarrow> 'k \<Rightarrow> nat \<Rightarrow> nat \<Rightarrow> nat \<Rightarrow> nat option res" where
  "oat_search t key originalIndex 0 index = Inl Diverges"
| "oat_search t key originalIndex (Suc fuel) index =
     (let node = t ! index; next = (index + 1) mod length t
      in if s_status node = EMPTY then Inr None
         else if s_status node = OCCUPIED \<and> s_key node = key then Inr (Some index)
         else if next = originalIndex then Inr None
         else oat_search t key originalIndex fuel next)"

definition oat_place :: "('k \<Rightarrow> u64) \<Rightarrow> 'k \<Rightarrow> 'v \<Rightarrow> ('k, 'v) oat \<Rightarrow> ('k, 'v) oat res" where
  "oat_place hash key value t =
     bind_res (oat_hash hash t key) (\<lambda>index.
       bind_res (oat_claim (ot_table t) key (length (ot_table t)) index) (\<lambda>p.
         Inr (if s_status (ot_table t ! p) = OCCUPIED
              then t\<lparr>ot_table := (ot_table t)[p := (ot_table t ! p)\<lparr>s_value := value\<rparr>]\<rparr>
              else t\<lparr>ot_table := (ot_table t)[p := \<lparr>s_key = key, s_value = value, s_status = OCCUPIED\<rparr>],
                     ot_size := ot_size t + 1\<rparr>)))"

fun oat_reinsert :: "('k \<Rightarrow> 'v \<Rightarrow> ('k, 'v) oat \<Rightarrow> ('k, 'v) oat res) \<Rightarrow> ('k, 'v) slot list
    \<Rightarrow> ('k, 'v) oat \<Rightarrow> ('k, 'v) oat res" where
  "oat_reinsert ins [] t = Inr t"
| "oat_reinsert ins (node # nodes) t =
     (if s_status node = OCCUPIED
      then bind_res (ins (s_key node) (s_value node) t) (oat_reinsert ins nodes)
      else oat_reinsert ins nodes t)"

fun oat_insert_rec :: "('k \<Rightarrow> u64) \<Rightarrow> 'k \<Rightarrow> 'v \<Rightarrow> nat \<Rightarrow> 'k \<Rightarrow> 'v \<Rightarrow> ('k, 'v) oat \<Rightarrow> ('k, 'v) oat res" where
  "oat_insert_rec hash dk dv 0 key value t = Inl Diverges"
| "oat_insert_rec hash dk dv (Suc depth) key value t =
     bind_res
       (if oa_overloaded (ot_size t) (length (ot_table t))
        then oat_reinsert (oat_insert_rec hash dk dv depth) (ot_table t)
               \<lparr>ot_table = replicate (length (ot_table t) * 2) (oa_blank dk dv), ot_size = 0\<rparr>
        else Inr t)
       (oat_place hash key value)"

definition oat_insert :: "('k \<Rightarrow> u64) \<Rightarrow> 'k \<Rightarrow> 'v \<Rightarrow> 'k \<Rightarrow> 'v \<Rightarrow> ('k, 'v) oat \<Rightarrow> ('k, 'v) oat res" where
  "oat_insert hash dk dv = oat_insert_rec hash dk dv 2"

definition oat_contains :: "('k \<Rightarrow> u64) \<Rightarrow> 'k \<Rightarrow> ('k, 'v) oat \<Rightarrow> bool res" where
  "oat_contains hash key t =
     bind_res (oat_hash hash t key) (\<lambda>index.
       bind_res (oat_search (ot_table t) key index (length (ot_table t)) index) (\<lambda>p. Inr (p \<noteq> None)))"

definition oat_find :: "('k \<Rightarrow> u64) \<Rightarrow> 'k \<Rightarrow> ('k, 'v) oat \<Rightarrow> 'v option res" where
  "oat_find hash key t =
     bind_res (oat_hash hash t key) (\<lambda>index.
       bind_res (oat_search (ot_table t) key index (length (ot_table t)) index)
         (\<lambda>p. Inr (map_option (\<lambda>i. s_value (ot_table t ! i)) p)))"

definition oat_remove :: "('k \<Rightarrow> u64) \<Rightarrow> 'k \<Rightarrow> ('k, 'v) oat \<Rightarrow> (bool \<times> ('k, 'v) oat) res" where
  "oat_remove hash key t =
     bind_res (oat_hash hash t key) (\<lambda>index.
       bind_res (oat_search (ot_table t) key index (length (ot_table t)) index)
         (\<lambda>p. case p of
            None \<Rightarrow> Inr (False, t)
          | Some i \<Rightarrow> Inr (True, t\<lparr>ot_table := (ot_table t)[i := (ot_table t ! i)\<lparr>s_status := DELETED\<rparr>],
                                 ot_size := ot_size t - 1\<rparr>)))"

definition oat_of :: "('k, 'v) oam \<Rightarrow> ('k, 'v) oat" where
  "oat_of m = \<lparr>ot_table = oa_table m, ot_size = oa_size m\<rparr>"

lemma oat_of_sel [simp]: "ot_table (oat_of m) = oa_table m" "ot_size (oat_of m) = oa_size m"
  "oat_of (m\<lparr>oa_table := t\<rparr>) = oat_of m\<lparr>ot_table := t\<rparr>" "oat_of (m\<lparr>oa_size := n\<rparr>) = oat_of m\<lparr>ot_size := n\<rparr>"
  by (simp_all add: oat_of_def)

declare oat_insert_rec.simps [simp del]

text \<open>On a power-of-two table the two ways to step agree.\<close>

lemma oat_step:
  assumes "oa_shape k m" and "unat (index :: u64) < length (oa_table m)"
  shows "unat ((index + 1) AND oa_mask m) = (unat index + 1) mod length (oa_table m)"
    and "unat ((index + 1) AND oa_mask m) < length (oa_table m)"
proof -
  show "unat ((index + 1) AND oa_mask m) = (unat index + 1) mod length (oa_table m)"
    using oa_next_pos [of k index "unat index" 0] assms
    by (simp add: oa_shape_def oa_pos_def)
  then show "unat ((index + 1) AND oa_mask m) < length (oa_table m)"
    using assms(1) by (simp add: oa_shape_def)
qed

lemma oat_hash_of:
  assumes "oa_shape k m"
  shows "oat_hash hash (oat_of m) key = Inr (unat (oa_hash hash m key))"
    and "unat (oa_hash hash m key) < length (oa_table m)"
  using oa_hash_home [OF assms, of hash key] assms
  by (simp_all add: oat_hash_def oa_shape_def oa_pos_def oa_home_def)

lemma oat_claim_of:
  assumes "oa_shape k m" and "unat index < length (oa_table m)"
  shows "oat_claim (oa_table m) key fuel (unat index) = oa_claim (oa_table m) (oa_mask m) key fuel index"
  using assms(2)
proof (induction fuel arbitrary: index)
  case (Suc fuel)
  then show ?case using oat_step [OF assms(1) Suc.prems] Suc.IH [of "(index + 1) AND oa_mask m"] by simp
qed simp

lemma oat_search_of:
  assumes "oa_shape k m" and "unat index < length (oa_table m)"
  shows "oat_search (oa_table m) key (unat orig) fuel (unat index)
    = oa_search (oa_table m) (oa_mask m) key orig fuel index"
  using assms(2)
proof (induction fuel arbitrary: index)
  case (Suc fuel)
  have "(unat index + 1) mod length (oa_table m) = unat orig \<longleftrightarrow> (index + 1) AND oa_mask m = orig"
    using oat_step(1) [OF assms(1) Suc.prems] by (metis word_unat_eq_iff)
  then show ?case
    using oat_step [OF assms(1) Suc.prems] Suc.IH [of "(index + 1) AND oa_mask m"] Suc.prems
    by (simp add: Let_def)
qed simp

lemma oat_place_of:
  assumes "oa_shape k m"
  shows "oat_place hash key v (oat_of m) = map_sum id oat_of (oa_place hash key v m)"
  by (cases "oa_claim (oa_table m) (oa_mask m) key (length (oa_table m)) (oa_hash hash m key)")
    (simp_all add: oat_place_def oa_place_def oat_hash_of [OF assms] oat_claim_of [OF assms]
      oa_fill_def oa_write_def)

lemma oa_place_shape: "oa_shape k m \<Longrightarrow> oa_place hash key v m = Inr m' \<Longrightarrow> oa_shape k m'"
  by (auto simp: oa_place_def oa_fill_put oa_write_put)

lemma oa_place_size: "oa_place hash key v m = Inr m' \<Longrightarrow> oa_size m' \<le> oa_size m + 1"
  by (auto simp: oa_place_def oa_fill_put oa_write_put)

text \<open>The table a rehash fills never grows while it is being filled, whatever the old table held.\<close>

lemma oat_reinsert_of:
  assumes "oa_shape (k + 1) m" and "oa_size m + length nodes \<le> 2 ^ k"
  shows "oat_reinsert (oat_insert_rec hash dk dv (Suc depth)) nodes (oat_of m)
      = map_sum id oat_of (oa_reinsert (oa_insert_rec hash dk dv (Suc depth)) nodes m) \<and>
    (\<forall>m'. oa_reinsert (oa_insert_rec hash dk dv (Suc depth)) nodes m = Inr m' \<longrightarrow> oa_shape (k + 1) m')"
  using assms
proof (induction nodes arbitrary: m)
  case (Cons node nodes)
  let ?key = "s_key node" and ?v = "s_value node"
  have "oa_size m + 1 \<le> 2 ^ k" using Cons.prems by simp
  then have light: "\<not> oa_overloaded (oa_size m) (length (oa_table m))"
    using oa_half_full [of "oa_size m" k] Cons.prems by (simp add: oa_shape_def)
  have ins: "oa_insert_rec hash dk dv (Suc depth) ?key ?v m = oa_place hash ?key ?v m"
    "oat_insert_rec hash dk dv (Suc depth) ?key ?v (oat_of m) = oat_place hash ?key ?v (oat_of m)"
    using light by (simp_all add: oa_insert_rec.simps oat_insert_rec.simps)
  have next_ok: "oa_shape (k + 1) m1 \<and> oa_size m1 + length nodes \<le> 2 ^ k" if "oa_place hash ?key ?v m = Inr m1" for m1
    using oa_place_shape [OF _ that, of "k + 1"] oa_place_size [OF that] Cons.prems by auto
  show ?case
    using ins next_ok oat_place_of [OF Cons.prems(1), of hash ?key ?v] Cons.IH Cons.prems
    by (cases "oa_place hash ?key ?v m") auto
qed simp_all

lemma oa_doubled_shape: "oa_shape k m \<Longrightarrow> k < 64 \<Longrightarrow> oa_shape (k + 1) (oa_doubled dk dv m)"
  by (simp add: oa_shape_def oa_doubled_def Let_def)

lemma oat_insert_of:
  assumes shape: "oa_shape k m" and "k < 64"
  shows "oat_insert hash dk dv key v (oat_of m) = map_sum id oat_of (oa_insert hash dk dv key v m)"
proof (cases "oa_overloaded (oa_size m) (length (oa_table m))")
  case False
  then show ?thesis using oat_place_of [OF shape]
    by (simp add: oat_insert_def oa_insert_def numeral_2_eq_2 oa_insert_rec.simps oat_insert_rec.simps)
next
  case True
  let ?d = "oa_doubled dk dv m"
  have of_d: "oat_of ?d = \<lparr>ot_table = replicate (length (oa_table m) * 2) (oa_blank dk dv), ot_size = 0\<rparr>"
    by (simp add: oat_of_def oa_doubled_def)
  have few: "oa_size ?d + length (oa_table m) \<le> 2 ^ k" using shape by (simp add: oa_doubled_def oa_shape_def Let_def)
  note fills = oat_reinsert_of [OF oa_doubled_shape [OF assms] few, where depth = 0 and hash = hash and dk = dk and dv = dv]
  show ?thesis
  proof (cases "oa_reinsert (oa_insert_rec hash dk dv (Suc 0)) (oa_table m) ?d")
    case (Inl e)
    then show ?thesis using True fills unfolding of_d
      by (simp add: oat_insert_def oa_insert_def numeral_2_eq_2 oa_insert_rec.simps oat_insert_rec.simps)
  next
    case (Inr m1)
    then have "oa_shape (k + 1) m1" using fills by blast
    from oat_place_of [OF this] Inr show ?thesis using True fills unfolding of_d
      by (simp add: oat_insert_def oa_insert_def numeral_2_eq_2 oa_insert_rec.simps oat_insert_rec.simps)
  qed
qed

subsection \<open>STLHashMap\<close>

text \<open>
  A wrapper of \<open>std::unordered_map\<close>, whose contract is a finite map: \<open>insert({key, value})\<close> does
  nothing when the key is there, \<open>operator[]\<close> inserts \<open>Value()\<close> when it is not.
\<close>

type_synonym ('k, 'v) stl_map = "'k \<rightharpoonup> 'v"

definition stl_find :: "'k \<Rightarrow> ('k, 'v) stl_map \<Rightarrow> 'v option res" where
  "stl_find key m = Inr (m key)"

definition stl_contains :: "'k \<Rightarrow> ('k, 'v) stl_map \<Rightarrow> bool res" where
  "stl_contains key m = Inr (m key \<noteq> None)"

definition stl_erase :: "'k \<Rightarrow> ('k, 'v) stl_map \<Rightarrow> (bool \<times> ('k, 'v) stl_map) res" where
  "stl_erase key m = Inr (m key \<noteq> None, m(key := None))"

definition stl_insert :: "'k \<Rightarrow> 'v \<Rightarrow> ('k, 'v) stl_map \<Rightarrow> ('k, 'v) stl_map res" where
  "stl_insert key value m = Inr (case m key of None \<Rightarrow> m(key \<mapsto> value) | Some _ \<Rightarrow> m)"

definition stl_subscript :: "'v \<Rightarrow> 'k \<Rightarrow> ('k, 'v) stl_map \<Rightarrow> ('v \<times> ('k, 'v) stl_map) res" where
  "stl_subscript dv key m = (case m key of None \<Rightarrow> Inr (dv, m(key \<mapsto> dv)) | Some v \<Rightarrow> Inr (v, m))"

definition stl_assign :: "'v \<Rightarrow> 'k \<Rightarrow> 'v \<Rightarrow> ('k, 'v) stl_map \<Rightarrow> ('k, 'v) stl_map res" where
  "stl_assign dv key value m = bind_res (stl_subscript dv key m) (\<lambda>(_, m'). Inr (m'(key \<mapsto> value)))"

interpretation stl: keyed_store stl_find stl_contains stl_erase "stl_subscript d" "stl_assign d"
  stl_insert d "\<lambda>m. m" "\<lambda>_. True"
  for d :: 'v
  by unfold_locales
    (auto simp: stl_find_def stl_contains_def stl_erase_def stl_subscript_def stl_assign_def
      stl_insert_def fun_upd_idem split: option.splits)

definition stl_ops :: "'v \<Rightarrow> ('k, 'v, ('k, 'v) stl_map) store_ops" where
  "stl_ops d = \<lparr>so_find = stl_find, so_contains = stl_contains, so_erase = stl_erase,
     so_subscript = stl_subscript d, so_assign = stl_assign d, so_insert = stl_insert\<rparr>"

subsection \<open>The test program\<close>

text \<open>
  \<open>testHashMap\<close>: the calls, with \<open>hm[10] = "ten"\<close> as an assignment and \<open>auto x = hm[11]\<close> as a
  subscript, and the lines it prints: the name it is given, the line of the map's constructor, and
  the lines that depend on what the calls answer.
\<close>

definition test_calls :: "(int, string) store_op list" where
  "test_calls = [Insert 1 ''one'', Insert 2 ''two'', Insert 3 ''three'', Contains 2, Erase 2,
     Assign 10 ''ten'', Subscript 11, Contains 2, Find 3, Find 4, Find 10, Find 11]"

definition test_found :: "string \<Rightarrow> string store_ret \<Rightarrow> string" where
  "test_found key r = (case r of
     Pointer (Some v) \<Rightarrow> ''Found key '' @ key @ '' with value: '' @ v
   | _ \<Rightarrow> ''Key '' @ key @ '' not found in the hash map.'')"

definition test_report :: "string store_ret list \<Rightarrow> string list" where
  "test_report rs =
     [if rs ! 3 = Truth True then ''Key 2 exists in the hash map.''
      else ''Key 2 does not exist in the hash map.''] @
     (if rs ! 7 = Truth True then [] else [''Key 2 has been erased from the hash map.'']) @
     [test_found ''3'' (rs ! 8), test_found ''4'' (rs ! 9), test_found ''10'' (rs ! 10),
      test_found ''11'' (rs ! 11)]"

definition testHashMap :: "string \<Rightarrow> string \<Rightarrow> (int, string, 'm) store_ops \<Rightarrow> 'm res \<Rightarrow> string list res" where
  "testHashMap hmType initialized ops hm =
     bind_res hm (\<lambda>m. bind_res (store_run ops test_calls m) (\<lambda>(rs, _).
       Inr ([''Testing with '' @ hmType @ ''...'', initialized] @ test_report rs)))"

text \<open>\<open>main\<close>, with the bucket count of the compiler command in the file's first line.\<close>

definition testHashMap_main :: "(int \<Rightarrow> u64) \<Rightarrow> string list res" where
  "testHashMap_main hash =
     bind_res (testHashMap ''ChainingHashMap<int, std::string>'' ''ChainingHashMap initialized ''
       (chm_ops hash []) (chm_new 32)) (\<lambda>out1.
     bind_res (testHashMap ''FixedSizedChainingHashMap<int, std::string>'' ''FixedSizedChainingHashMap initialized ''
       (fsm_ops hash []) (fsm_new 0 [] 32)) (\<lambda>out2.
     bind_res (testHashMap ''OpenAddressingHashMap<int, std::string>'' ''OpenAddressingHashMap initialized ''
       (oa_ops hash 0 []) (Inr (oa_new 0 [] 32))) (\<lambda>out3.
     Inr (out1 @ out2 @ out3))))"

subsection \<open>Properties\<close>

text \<open>
  Claim C13.  The open-addressing table of \<open>c++20\<close> and the map of \<open>HFT\<close> agree on every table whose
  size is a power of two below \<open>2 ^ 64\<close> and whose mask fits it, whatever its slots hold, stale
  entries and tombstones included: \<open>find\<close>, \<open>contains\<close>, \<open>insert\<close> (growth included) and \<open>remove\<close> answer
  the same, fail or loop in the same way, and leave the same slots.
\<close>

theorem oat_agrees_with_oam:
  assumes "length (oa_table m) = 2 ^ k" and "oa_mask m = 2 ^ k - 1" and "k < 64"
  shows "oat_find hash key (oat_of m) = oa_find hash key m \<and>
    oat_contains hash key (oat_of m) = oa_contains hash key m \<and>
    oat_insert hash dk dv key v (oat_of m) = map_sum id oat_of (oa_insert hash dk dv key v m) \<and>
    oat_remove hash key (oat_of m) = map_sum id (map_prod id oat_of) (oa_erase hash key m)"
proof -
  have shape: "oa_shape k m" using assms by (simp add: oa_shape_def)
  have search: "oat_search (oa_table m) key (unat (oa_hash hash m key)) (length (oa_table m))
        (unat (oa_hash hash m key))
      = oa_search (oa_table m) (oa_mask m) key (oa_hash hash m key) (length (oa_table m)) (oa_hash hash m key)"
    by (rule oat_search_of [OF shape oat_hash_of(2) [OF shape]])
  have "oat_remove hash key (oat_of m) = map_sum id (map_prod id oat_of) (oa_erase hash key m)"
    by (cases "oa_search (oa_table m) (oa_mask m) key (oa_hash hash m key) (length (oa_table m)) (oa_hash hash m key)")
      (auto simp: oat_remove_def oa_erase_def oat_hash_of(1) [OF shape] search split: option.split)
  then show ?thesis
    using oat_insert_of [OF shape assms(3)]
    by (simp add: oat_find_def oa_find_def oat_contains_def oa_contains_def oat_hash_of(1) [OF shape] search)
qed

theorem oat_agrees_with_oam_witness:
  "oat_find hash_u64 4 (oat_of stale_table) = oa_find hash_u64 4 stale_table \<and>
   oat_insert hash_u64 0 0 4 20 (oat_of stale_table) = map_sum id oat_of (oa_insert hash_u64 0 0 4 20 stale_table)"
  using oat_agrees_with_oam [of stale_table 2 hash_u64 4 0 0 20] by (simp add: stale_table_def)

definition test_expected :: "string list" where
  "test_expected = [''Key 2 exists in the hash map.'', ''Key 2 has been erased from the hash map.'',
     ''Found key 3 with value: three'', ''Key 4 not found in the hash map.'',
     ''Found key 10 with value: ten'', ''Found key 11 with value: '']"

lemma test_report_map:
  assumes "map_run [] test_calls Map.empty = (rs, m)"
  shows "test_report rs = test_expected"
proof -
  have "rs = [Done, Done, Done, Truth True, Truth True, Done, Value [], Truth False, Pointer (Some ''three''),
      Pointer None, Pointer (Some ''ten''), Pointer (Some [])]"
    using assms by (simp add: test_calls_def)
  then show ?thesis by (simp add: test_report_def test_found_def test_expected_def)
qed

lemma test_calls_facts:
  "inserts_fresh [] test_calls Map.empty" "tombstone_safe [] test_calls Map.empty False"
  "map_peak [] test_calls Map.empty \<le> 5"
  by (simp_all add: test_calls_def insert_Diff_if)

lemma testHashMap_expected:
  assumes "store_run ops test_calls m = Inr (rs, m')" and "map_run [] test_calls Map.empty = (rs, g)"
  shows "testHashMap hmType initialized ops (Inr m) = Inr ([''Testing with '' @ hmType @ ''...'', initialized] @ test_expected)"
  using assms test_report_map by (simp add: testHashMap_def)

lemma test_chaining:
  assumes "chm_new c = Inr m"
  shows "testHashMap hmType initialized (chm_ops hash []) (Inr m)
    = Inr ([''Testing with '' @ hmType @ ''...'', initialized] @ test_expected)"
proof -
  note m = chm_new_inv [OF assms]
  obtain rs m' where run: "store_run (chm_ops hash []) test_calls m = Inr (rs, m')"
    using chm_run_total [of hash "[]" test_calls m] by blast
  have "map_run [] test_calls Map.empty = (rs, chm_lookup hash m')"
    using chm.run_simulates [OF _ run [unfolded chm_ops_def]] m by auto
  with run show ?thesis by (rule testHashMap_expected)
qed

lemma test_fixed_pool:
  assumes "fsm_new 0 [] 32 = Inr m"
  shows "testHashMap hmType initialized (fsm_ops hash []) (Inr m)
    = Inr ([''Testing with '' @ hmType @ ''...'', initialized] @ test_expected)"
proof -
  note m = fsm_new_rep [OF assms]
  obtain rs m' where run: "store_run (fsm_ops hash []) test_calls m = Inr (rs, m')"
    using fsm_run_total [OF m(2), of "[]" test_calls hash] m(3,4) test_calls_facts by auto
  have "map_run [] test_calls Map.empty = (rs, fsm_lookup hash m')"
    using fsm.fresh_run_simulates [OF m(2) _ run [unfolded fsm_ops_def]] m(3) test_calls_facts(1) by auto
  with run show ?thesis by (rule testHashMap_expected)
qed

lemma test_open_addressing:
  "testHashMap hmType initialized (oa_ops hash 0 []) (Inr (oa_new 0 [] 32))
    = Inr ([''Testing with '' @ hmType @ ''...'', initialized] @ test_expected)"
proof -
  have new: "oa_ok hash (oa_new 0 ([] :: string) 32)" "oa_clean (oa_new (0 :: int) ([] :: string) 32)"
    "oa_lookup hash (oa_new 0 ([] :: string) 32) = Map.empty"
    by (simp_all add: oa_new_ok pow2_capacity_def)
  obtain rs m where "store_run (oa_ops hash 0 []) test_calls (oa_new 0 [] 32) = Inr (rs, m)"
    "map_run [] test_calls Map.empty = (rs, oa_lookup hash m)"
    using oa_run_ok [OF new(1), of False "[]" test_calls 0] new(2,3) test_calls_facts by auto
  then show ?thesis by (rule testHashMap_expected)
qed

text \<open>\<open>STLHashMap\<close>, which \<open>main\<close> leaves out, would do as well.\<close>

lemma test_stl:
  "testHashMap hmType initialized (stl_ops []) (Inr Map.empty)
    = Inr ([''Testing with '' @ hmType @ ''...'', initialized] @ test_expected)"
  by (rule testHashMap_expected [of _ _ _ _ "snd (map_run [] test_calls Map.empty)"])
    (simp_all add: test_calls_def stl_ops_def stl_find_def stl_contains_def stl_erase_def stl_insert_def
      stl_subscript_def stl_assign_def)

text \<open>
  Claim C14.  The whole output of the test program with 32 buckets, whatever \<open>std::hash<int>\<close> is: for
  each of its three maps the line with the map's name, the line of its constructor, and the same six
  lines, which are the ones a correct map gives.
\<close>

theorem testHashMap_report:
  "testHashMap_main hash = Inr (
     [''Testing with ChainingHashMap<int, std::string>...'', ''ChainingHashMap initialized ''] @ test_expected @
     [''Testing with FixedSizedChainingHashMap<int, std::string>...'', ''FixedSizedChainingHashMap initialized ''] @ test_expected @
     [''Testing with OpenAddressingHashMap<int, std::string>...'', ''OpenAddressingHashMap initialized ''] @ test_expected)"
proof -
  obtain c :: "(int, string) chm" and f :: "(int, string) fsm"
    where cf: "chm_new 32 = Inr c" "fsm_new 0 [] 32 = Inr f"
    by (simp add: chm_new_def fsm_new_def Let_def)
  show ?thesis
    unfolding testHashMap_main_def cf test_chaining [OF cf(1)] test_fixed_pool [OF cf(2)] test_open_addressing
    by simp
qed

end
