(* ===== verification/OrderBook.thy ===== *)
theory OrderBook
  imports FixedPoolMap Floats
begin

text \<open>
  \<open>OrderBook\<close> of \<^verbatim>\<open>HFT/OrderBook.hpp\<close>: quantities per price level on two arrays, the indices of
  the best bid and ask, and a hash map from order ids to orders.  The orders are objects in
  memory that the book and its caller both point to: \<open>ob_heap\<close> holds them, and a pointer is a
  position in it or \<open>None\<close> for \<open>nullptr\<close>.  The hash map is an argument, the operations of
  \<open>KeyedStore\<close>; the lemmas are proved for every map that keeps the contract and then used for
  \<open>FixedSizedChainingHashMap\<close>, the one the book is built with.
\<close>

subsection \<open>Prices\<close>

definition TickSize :: dbl where
  "TickSize = Dbl 5764607523034235 (- 59)"

definition TicksPerUnit :: dbl where
  "TicksPerUnit = Dbl 100 0"

definition priceToIndex :: "dbl \<Rightarrow> int res" where
  "priceToIndex price = c_int (dbl_trunc (dbl_mul price TicksPerUnit))"

definition indexToPrice :: "int \<Rightarrow> dbl" where
  "indexToPrice index = dbl_mul (Dbl index 0) TickSize"

subsection \<open>State\<close>

record order =
  o_id :: u64
  o_price :: dbl
  o_quantity :: int
  o_buy :: bool

type_synonym order_ptr = "nat option"

record 'm book =
  ob_heap :: "order list"
  ob_free :: "order_ptr list"
  ob_count :: nat
  ob_map :: 'm
  ob_bids :: "int list"
  ob_asks :: "int list"
  ob_best_bid :: int
  ob_best_ask :: int

text \<open>
  The constructor, for \<open>levels\<close> price levels (\<open>Const::MaxPriceLevels\<close>).  \<open>orderPool_\<close> is a
  vector that nothing ever fills, so \<open>freeMsgPtrs_\<close> stays empty also when storage is required.
\<close>

definition ob_new :: "nat \<Rightarrow> order list \<Rightarrow> 'm \<Rightarrow> 'm book" where
  "ob_new levels heap m =
     \<lparr>ob_heap = heap, ob_free = [], ob_count = 0, ob_map = m, ob_bids = replicate levels 0,
      ob_asks = replicate levels 0, ob_best_bid = - 1, ob_best_ask = int levels\<rparr>"

definition ob_deref :: "'m book \<Rightarrow> order_ptr \<Rightarrow> order res" where
  "ob_deref b p = (case p of
     None \<Rightarrow> Inl (UB NullPointer)
   | Some a \<Rightarrow> if a < length (ob_heap b) then Inr (ob_heap b ! a) else Inl (UB DanglingPointer))"

text \<open>\<open>levels[idx] += quantity\<close> on an array of \<open>int\<close>.\<close>

definition level_add :: "int list \<Rightarrow> int \<Rightarrow> int \<Rightarrow> int list res" where
  "level_add levels idx quantity =
     bind_res (array_get levels idx) (\<lambda>q. bind_res (c_int (q + quantity)) (array_set levels idx))"

subsection \<open>Operations\<close>

definition ob_insert :: "(u64, order_ptr, 'm) store_ops \<Rightarrow> bool \<Rightarrow> nat \<Rightarrow> order_ptr \<Rightarrow> 'm book \<Rightarrow> 'm book res" where
  "ob_insert ops RequireStorage PoolSize order b =
     bind_res (ob_deref b order) (\<lambda>src.
     bind_res
       (if RequireStorage
        then if PoolSize \<le> ob_count b then Inl (Throw ''Order pool is full'')
          else case ob_free b of
              [] \<Rightarrow> Inl (UB EmptyContainer)
            | mem # rest \<Rightarrow> (case mem of
                None \<Rightarrow> Inl (UB NullPointer)
              | Some a \<Rightarrow> Inr (mem, b\<lparr>ob_count := ob_count b + 1, ob_free := rest, ob_heap := (ob_heap b)[a := src]\<rparr>))
        else Inr (order, b)) (\<lambda>(mem, b).
     bind_res (so_assign ops (o_id src) mem (ob_map b)) (\<lambda>m.
     bind_res (priceToIndex (o_price src)) (\<lambda>idx.
       if o_buy src
       then bind_res (level_add (ob_bids b) idx (o_quantity src)) (\<lambda>bids.
         Inr (b\<lparr>ob_map := m, ob_bids := bids,
                ob_best_bid := if idx > ob_best_bid b then idx else ob_best_bid b\<rparr>))
       else bind_res (level_add (ob_asks b) idx (o_quantity src)) (\<lambda>asks.
         Inr (b\<lparr>ob_map := m, ob_asks := asks,
                ob_best_ask := if idx < ob_best_ask b then idx else ob_best_ask b\<rparr>))))))"

text \<open>The scans of \<open>updatePriceLevel\<close>: down from \<open>n - 1\<close>, and up from \<open>i\<close> over \<open>n\<close> levels.\<close>

fun scan_down :: "int list \<Rightarrow> nat \<Rightarrow> int option" where
  "scan_down levels 0 = None"
| "scan_down levels (Suc i) = (if levels ! i > 0 then Some (int i) else scan_down levels i)"

fun scan_up :: "int list \<Rightarrow> nat \<Rightarrow> nat \<Rightarrow> int option" where
  "scan_up levels i 0 = None"
| "scan_up levels i (Suc n) = (if levels ! i > 0 then Some (int i) else scan_up levels (Suc i) n)"

definition updatePriceLevel :: "bool \<Rightarrow> dbl \<Rightarrow> int \<Rightarrow> 'm book \<Rightarrow> 'm book res" where
  "updatePriceLevel is_buy price updateQuantity b =
     bind_res (priceToIndex price) (\<lambda>idx.
       if is_buy
       then bind_res (level_add (ob_bids b) idx updateQuantity) (\<lambda>bids.
         Inr (b\<lparr>ob_bids := bids,
                ob_best_bid := if idx = ob_best_bid b \<and> bids ! nat idx = 0
                  then (case scan_down bids (nat idx) of Some i \<Rightarrow> i | None \<Rightarrow> 0)
                  else ob_best_bid b\<rparr>))
       else bind_res (level_add (ob_asks b) idx updateQuantity) (\<lambda>asks.
         Inr (b\<lparr>ob_asks := asks,
                ob_best_ask := if idx = ob_best_ask b \<and> asks ! nat idx = 0
                  then (case scan_up asks (nat idx + 1) (length asks - (nat idx + 1)) of
                          Some i \<Rightarrow> i | None \<Rightarrow> int (length asks) - 1)
                  else ob_best_ask b\<rparr>)))"

definition ob_update :: "(u64, order_ptr, 'm) store_ops \<Rightarrow> u64 \<Rightarrow> int \<Rightarrow> 'm book \<Rightarrow> 'm book res" where
  "ob_update ops order_id new_quantity b =
     bind_res (so_contains ops order_id (ob_map b)) (\<lambda>there.
     if \<not> there then Inl (Throw ''Order not found'')
     else bind_res (so_subscript ops order_id (ob_map b)) (\<lambda>(ord, m).
       let b = b\<lparr>ob_map := m\<rparr> in
       bind_res (ob_deref b ord) (\<lambda>src.
       bind_res (c_int (new_quantity - o_quantity src)) (\<lambda>delta.
       bind_res (updatePriceLevel (o_buy src) (o_price src) delta b) (\<lambda>b.
         Inr (b\<lparr>ob_heap := (ob_heap b)[the ord := (ob_heap b ! the ord)\<lparr>o_quantity := new_quantity\<rparr>]\<rparr>))))))"

definition ob_cancel :: "(u64, order_ptr, 'm) store_ops \<Rightarrow> bool \<Rightarrow> u64 \<Rightarrow> 'm book \<Rightarrow> 'm book res" where
  "ob_cancel ops RequireStorage order_id b =
     bind_res (so_contains ops order_id (ob_map b)) (\<lambda>there.
     if \<not> there then Inl (Throw ''Order not found'')
     else bind_res (so_subscript ops order_id (ob_map b)) (\<lambda>(ord, m).
       let b = b\<lparr>ob_map := m\<rparr> in
       bind_res (ob_deref b ord) (\<lambda>src.
       bind_res (c_int (- o_quantity src)) (\<lambda>delta.
       bind_res (updatePriceLevel (o_buy src) (o_price src) delta b) (\<lambda>b.
       bind_res
         (if RequireStorage
          then bind_res (so_subscript ops order_id (ob_map b)) (\<lambda>(ord, m).
            Inr (b\<lparr>ob_map := m, ob_free := ord # ob_free b, ob_count := ob_count b - 1\<rparr>))
          else Inr b) (\<lambda>b.
       bind_res (so_erase ops order_id (ob_map b)) (\<lambda>(_, m). Inr (b\<lparr>ob_map := m\<rparr>))))))))"

definition ob_bestBid :: "'m book \<Rightarrow> (dbl \<times> int) res" where
  "ob_bestBid b = bind_res (array_get (ob_bids b) (ob_best_bid b)) (\<lambda>q. Inr (indexToPrice (ob_best_bid b), q))"

definition ob_bestAsk :: "'m book \<Rightarrow> (dbl \<times> int) res" where
  "ob_bestAsk b = bind_res (array_get (ob_asks b) (ob_best_ask b)) (\<lambda>q. Inr (indexToPrice (ob_best_ask b), q))"

text \<open>
  The rows \<open>print\<close> collects: at most \<open>limit\<close> positive levels from the best one outwards, the asks
  then reversed.  A negative start index ends the bid loop at once.
\<close>

fun rows_up :: "int list \<Rightarrow> nat \<Rightarrow> nat \<Rightarrow> nat \<Rightarrow> (dbl \<times> int) list" where
  "rows_up levels i 0 limit = []"
| "rows_up levels i (Suc n) limit =
     (if limit = 0 then []
      else if levels ! i > 0 then (indexToPrice (int i), levels ! i) # rows_up levels (Suc i) n (limit - 1)
      else rows_up levels (Suc i) n limit)"

fun rows_down :: "int list \<Rightarrow> nat \<Rightarrow> nat \<Rightarrow> (dbl \<times> int) list" where
  "rows_down levels 0 limit = []"
| "rows_down levels (Suc i) limit =
     (if limit = 0 then []
      else if levels ! i > 0 then (indexToPrice (int i), levels ! i) # rows_down levels i (limit - 1)
      else rows_down levels i limit)"

definition ob_print_rows :: "nat \<Rightarrow> 'm book \<Rightarrow> (dbl \<times> int) list \<times> (dbl \<times> int) list" where
  "ob_print_rows limit b =
     (rev (rows_up (ob_asks b) (nat (ob_best_ask b)) (length (ob_asks b) - nat (ob_best_ask b)) limit),
      rows_down (ob_bids b) (nat (ob_best_bid b + 1)) limit)"

subsection \<open>The abstract book\<close>

text \<open>Side, level and quantity of every live order, and the quantity of a level.\<close>

type_synonym abook = "u64 \<rightharpoonup> bool \<times> nat \<times> int"

definition at_level :: "bool \<Rightarrow> nat \<Rightarrow> bool \<times> nat \<times> int \<Rightarrow> int" where
  "at_level side i entry = (case entry of (s, j, q) \<Rightarrow> if s = side \<and> j = i then q else 0)"

definition level_total :: "bool \<Rightarrow> nat \<Rightarrow> abook \<Rightarrow> int" where
  "level_total side i A = (\<Sum>k \<in> dom A. at_level side i (the (A k)))"

definition book_total :: "abook \<Rightarrow> int" where
  "book_total A = (\<Sum>k \<in> dom A. snd (snd (the (A k))))"

definition quantities_ok :: "abook \<Rightarrow> bool" where
  "quantities_ok A \<longleftrightarrow> finite (dom A) \<and> (\<forall>k s j q. A k = Some (s, j, q) \<longrightarrow> 0 < q)"

lemma at_level_eq: "at_level side i (s, j, q) = (if s = side \<and> j = i then q else 0)"
  by (simp add: at_level_def)

lemma sum_dom_remove:
  assumes "finite (dom A)" and "A k = Some e"
  shows "(\<Sum>x \<in> dom A. f (the (A x))) = (\<Sum>x \<in> dom (A(k := None)). f (the ((A(k := None)) x))) + f e"
proof -
  have "(\<Sum>x \<in> dom A. f (the (A x))) = f (the (A k)) + (\<Sum>x \<in> dom A - {k}. f (the (A x)))"
    using assms by (intro sum.remove) auto
  also have "(\<Sum>x \<in> dom A - {k}. f (the (A x))) = (\<Sum>x \<in> dom (A(k := None)). f (the ((A(k := None)) x)))"
    by (intro sum.cong) auto
  finally show ?thesis using assms(2) by (simp add: add.commute)
qed

lemma level_total_erase:
  "finite (dom A) \<Longrightarrow> A k = Some e \<Longrightarrow> level_total side i (A(k := None)) = level_total side i A - at_level side i e"
  using sum_dom_remove [of A k e "at_level side i"] by (simp add: level_total_def)

lemma level_total_insert:
  assumes "finite (dom A)" and "A k = None"
  shows "level_total side i (A(k \<mapsto> e)) = level_total side i A + at_level side i e"
proof -
  have "(A(k \<mapsto> e))(k := None) = A" using assms(2) by auto
  then show ?thesis using level_total_erase [of "A(k \<mapsto> e)" k e side i] assms(1) by simp
qed

lemma level_total_replace:
  assumes "finite (dom A)" and "A k = Some e"
  shows "level_total side i (A(k \<mapsto> e')) = level_total side i A - at_level side i e + at_level side i e'"
  using level_total_insert [of "A(k := None)" k side i e'] level_total_erase [OF assms, of side i] assms(1)
  by simp

lemma level_total_nonneg: "quantities_ok A \<Longrightarrow> 0 \<le> level_total side i A"
  unfolding level_total_def quantities_ok_def
  by (intro sum_nonneg) (force simp: at_level_def split: prod.split)

lemma level_le_book_total: "quantities_ok A \<Longrightarrow> level_total side i A \<le> book_total A"
  unfolding level_total_def book_total_def quantities_ok_def
  by (intro sum_mono) (force simp: at_level_def split: prod.split)

lemma quantities_ok_put: "quantities_ok A \<Longrightarrow> 0 < q \<Longrightarrow> quantities_ok (A(k \<mapsto> (s, j, q)))"
  unfolding quantities_ok_def by auto

lemma quantities_ok_erase: "quantities_ok A \<Longrightarrow> quantities_ok (A(k := None))"
  unfolding quantities_ok_def by auto

lemma level_total_entry:
  assumes "quantities_ok A" and "A k = Some (s, j, q)"
  shows "q \<le> level_total s j A"
  using level_total_erase [of A k "(s, j, q)" s j] level_total_nonneg [OF quantities_ok_erase [OF assms(1)], of s j k]
    assms by (simp add: quantities_ok_def at_level_eq)

subsection \<open>Levels and best indices\<close>

text \<open>
  The best bid is the highest level with a quantity; on an empty side it is left at \<open>-1\<close> (never
  used) or 0 (emptied).  The best ask mirrors it at the other end.
\<close>

definition best_bid_ok :: "int list \<Rightarrow> int \<Rightarrow> bool" where
  "best_bid_ok bids best \<longleftrightarrow>
     (\<exists>i < length bids. best = int i \<and> 0 < bids ! i \<and> (\<forall>j < length bids. i < j \<longrightarrow> bids ! j = 0)) \<or>
     ((\<forall>j < length bids. bids ! j = 0) \<and> (best = - 1 \<or> best = 0))"

definition best_ask_ok :: "int list \<Rightarrow> int \<Rightarrow> bool" where
  "best_ask_ok asks best \<longleftrightarrow>
     (\<exists>i < length asks. best = int i \<and> 0 < asks ! i \<and> (\<forall>j < i. asks ! j = 0)) \<or>
     ((\<forall>j < length asks. asks ! j = 0) \<and> (best = int (length asks) \<or> best = int (length asks) - 1))"

lemma scan_down_cases:
  assumes "\<And>i. i < n \<Longrightarrow> 0 \<le> xs ! i"
  obtains (none) "scan_down xs n = None" and "\<And>i. i < n \<Longrightarrow> xs ! i = 0"
  | (some) i where "scan_down xs n = Some (int i)" and "i < n" and "0 < xs ! i"
      and "\<And>j. i < j \<Longrightarrow> j < n \<Longrightarrow> xs ! j = 0"
  using assms
proof (induction n arbitrary: thesis)
  case (Suc n)
  show ?case
  proof (cases "0 < xs ! n")
    case True
    then show ?thesis using Suc.prems(2) [of n] by simp
  next
    case False
    then have zero: "xs ! n = 0" using Suc.prems(3) [of n] by simp
    show ?thesis
    proof (rule Suc.IH)
      assume "scan_down xs n = None" "\<And>i. i < n \<Longrightarrow> xs ! i = 0"
      then show ?thesis using Suc.prems(1) zero by (auto simp: less_Suc_eq)
    next
      fix i assume "scan_down xs n = Some (int i)" "i < n" "0 < xs ! i" "\<And>j. i < j \<Longrightarrow> j < n \<Longrightarrow> xs ! j = 0"
      then show ?thesis using Suc.prems(2) [of i] zero by (auto simp: less_Suc_eq)
    qed (use Suc.prems(3) in simp)
  qed
qed simp

lemma scan_up_cases:
  assumes "\<And>j. i \<le> j \<Longrightarrow> j < i + n \<Longrightarrow> 0 \<le> xs ! j"
  obtains (none) "scan_up xs i n = None" and "\<And>j. i \<le> j \<Longrightarrow> j < i + n \<Longrightarrow> xs ! j = 0"
  | (some) k where "scan_up xs i n = Some (int k)" and "i \<le> k" and "k < i + n" and "0 < xs ! k"
      and "\<And>j. i \<le> j \<Longrightarrow> j < k \<Longrightarrow> xs ! j = 0"
  using assms
proof (induction n arbitrary: i thesis)
  case (Suc n)
  show ?case
  proof (cases "0 < xs ! i")
    case True
    then show ?thesis using Suc.prems(2) [of i] by simp
  next
    case False
    then have zero: "xs ! i = 0" using Suc.prems(3) [of i] by simp
    then have step: "i \<le> j \<Longrightarrow> xs ! j = 0" if "Suc i \<le> j \<Longrightarrow> xs ! j = 0" for j
      using that by (cases "i = j") simp_all
    show ?thesis
    proof (rule Suc.IH [of "Suc i"])
      assume *: "scan_up xs (Suc i) n = None" "\<And>j. Suc i \<le> j \<Longrightarrow> j < Suc i + n \<Longrightarrow> xs ! j = 0"
      show ?thesis using *(1) zero by (intro Suc.prems(1)) (simp, metis *(2) add_Suc_shift le_antisym not_less_eq_eq)
    next
      fix k assume *: "scan_up xs (Suc i) n = Some (int k)" "Suc i \<le> k" "k < Suc i + n" "0 < xs ! k"
        "\<And>j. Suc i \<le> j \<Longrightarrow> j < k \<Longrightarrow> xs ! j = 0"
      show ?thesis using *(1-4) zero by (intro Suc.prems(2) [of k]) (simp_all, metis *(5) le_antisym not_less_eq_eq)
    qed (use Suc.prems(3) in simp)
  qed
qed simp

text \<open>Adding quantity to a level, as \<open>insert\<close> does.\<close>

lemma best_bid_insert:
  assumes ok: "best_bid_ok bids best" and i: "i < length bids" and v: "0 < v"
  shows "best_bid_ok (bids[i := v]) (if int i > best then int i else best)"
proof (cases "int i > best")
  case True
  have "bids ! j = 0" if "i < j" "j < length bids" for j
    using ok that True unfolding best_bid_ok_def by auto
  then show ?thesis using True i v unfolding best_bid_ok_def by (intro disjI1 exI [of _ i]) auto
next
  case False
  then show ?thesis
  proof (cases "best = int i")
    case True
    have "bids ! j = 0" if "i < j" "j < length bids" for j
      using ok that True unfolding best_bid_ok_def by auto
    then show ?thesis using True i v unfolding best_bid_ok_def by (intro disjI1 exI [of _ i]) auto
  next
    case neq: False
    then obtain b where b: "best = int b" "b < length bids" "0 < bids ! b"
      "\<forall>j < length bids. b < j \<longrightarrow> bids ! j = 0"
      using ok False unfolding best_bid_ok_def by auto
    then have "i < b" using False neq by simp
    then show ?thesis using b unfolding best_bid_ok_def
      by (intro disjI1 exI [of _ b]) (auto simp: nth_list_update)
  qed
qed

lemma best_ask_insert:
  assumes ok: "best_ask_ok asks best" and i: "i < length asks" and v: "0 < v"
  shows "best_ask_ok (asks[i := v]) (if int i < best then int i else best)"
proof (cases "int i < best")
  case True
  have "asks ! j = 0" if "j < i" for j
    using ok that True i unfolding best_ask_ok_def by auto
  then show ?thesis using True i v unfolding best_ask_ok_def by (intro disjI1 exI [of _ i]) auto
next
  case False
  then show ?thesis
  proof (cases "best = int i")
    case True
    have "asks ! j = 0" if "j < i" for j
      using ok that True i unfolding best_ask_ok_def by auto
    then show ?thesis using True i v unfolding best_ask_ok_def by (intro disjI1 exI [of _ i]) auto
  next
    case neq: False
    then obtain b where b: "best = int b" "b < length asks" "0 < asks ! b" "\<forall>j < b. asks ! j = 0"
      using ok False i unfolding best_ask_ok_def by auto
    then have "b < i" using False neq by simp
    then show ?thesis using b unfolding best_ask_ok_def
      by (intro disjI1 exI [of _ b]) (auto simp: nth_list_update)
  qed
qed

text \<open>Changing a level that has an order, as \<open>updatePriceLevel\<close> does.\<close>

lemma best_bid_change:
  assumes ok: "best_bid_ok bids best" and nonneg: "\<And>j. j < length bids \<Longrightarrow> 0 \<le> bids ! j"
    and i: "i < length bids" and old: "0 < bids ! i" and v: "0 \<le> v"
  shows "best_bid_ok (bids[i := v]) (if int i = best \<and> v = 0
    then (case scan_down (bids[i := v]) i of Some k \<Rightarrow> k | None \<Rightarrow> 0) else best)"
proof -
  obtain b where b: "best = int b" "b < length bids" "0 < bids ! b"
    "\<forall>j < length bids. b < j \<longrightarrow> bids ! j = 0"
    using ok i old unfolding best_bid_ok_def by auto
  have "i \<le> b" using b(4) i old by (metis less_irrefl not_le)
  show ?thesis
  proof (cases "i = b \<and> v = 0")
    case False
    then show ?thesis using b \<open>i \<le> b\<close> i v unfolding best_bid_ok_def
      by (intro disjI1 exI [of _ b]) (auto simp: nth_list_update)
  next
    case True
    let ?bids = "bids[i := v]"
    have above: "?bids ! j = 0" if "i \<le> j" "j < length ?bids" for j
      using b(4) True that by (cases "j = i") auto
    have nn: "0 \<le> ?bids ! j" if "j < i" for j using nonneg that i by auto
    show ?thesis
    proof (rule scan_down_cases [of i ?bids])
      assume none: "scan_down ?bids i = None" "\<And>j. j < i \<Longrightarrow> ?bids ! j = 0"
      have "?bids ! j = 0" if "j < length ?bids" for j
        using none(2) [of j] above [of j] that by (cases "j < i") simp_all
      then show ?thesis using True b(1) none(1) unfolding best_bid_ok_def by simp
    next
      fix k assume k: "scan_down ?bids i = Some (int k)" "k < i" "0 < ?bids ! k"
        "\<And>j. k < j \<Longrightarrow> j < i \<Longrightarrow> ?bids ! j = 0"
      have "\<forall>j < length ?bids. k < j \<longrightarrow> ?bids ! j = 0" using k(4) above by (metis not_le)
      then have "best_bid_ok ?bids (int k)" using k i unfolding best_bid_ok_def by auto
      then show ?thesis using True b(1) k(1) by simp
    qed (use nn in simp)
  qed
qed

lemma best_ask_change:
  assumes ok: "best_ask_ok asks best" and nonneg: "\<And>j. j < length asks \<Longrightarrow> 0 \<le> asks ! j"
    and i: "i < length asks" and old: "0 < asks ! i" and v: "0 \<le> v"
  shows "best_ask_ok (asks[i := v]) (if int i = best \<and> v = 0
    then (case scan_up (asks[i := v]) (i + 1) (length asks - (i + 1)) of
            Some k \<Rightarrow> k | None \<Rightarrow> int (length asks) - 1) else best)"
proof -
  obtain b where b: "best = int b" "b < length asks" "0 < asks ! b" "\<forall>j < b. asks ! j = 0"
    using ok i old unfolding best_ask_ok_def by auto
  have "b \<le> i" using b(4) old by (metis less_irrefl not_le)
  show ?thesis
  proof (cases "i = b \<and> v = 0")
    case False
    then show ?thesis using b \<open>b \<le> i\<close> i v unfolding best_ask_ok_def
      by (intro disjI1 exI [of _ b]) (auto simp: nth_list_update)
  next
    case True
    let ?asks = "asks[i := v]"
    have below: "?asks ! j = 0" if "j \<le> i" for j
      using b(4) True that i by (cases "j = i") auto
    have nn: "0 \<le> ?asks ! j" if "i + 1 \<le> j" "j < i + 1 + (length asks - (i + 1))" for j
      using nonneg that i by auto
    show ?thesis
    proof (rule scan_up_cases [of "i + 1" "length asks - (i + 1)" ?asks])
      assume none: "scan_up ?asks (i + 1) (length asks - (i + 1)) = None"
        "\<And>j. i + 1 \<le> j \<Longrightarrow> j < i + 1 + (length asks - (i + 1)) \<Longrightarrow> ?asks ! j = 0"
      have "?asks ! j = 0" if "j < length ?asks" for j
        using none(2) [of j] below [of j] that i by (cases "j \<le> i") simp_all
      then show ?thesis using True b(1) none(1) unfolding best_ask_ok_def by simp
    next
      fix k assume k: "scan_up ?asks (i + 1) (length asks - (i + 1)) = Some (int k)" "i + 1 \<le> k"
        "k < i + 1 + (length asks - (i + 1))" "0 < ?asks ! k"
        "\<And>j. i + 1 \<le> j \<Longrightarrow> j < k \<Longrightarrow> ?asks ! j = 0"
      have "\<forall>j < k. ?asks ! j = 0" using k(5) below by (metis Suc_eq_plus1 not_less_eq_eq)
      then have "best_ask_ok ?asks (int k)" using k i unfolding best_ask_ok_def by auto
      then show ?thesis using True b(1) k(1) by simp
    qed (use nn in simp)
  qed
qed

subsection \<open>The invariant of the book\<close>

definition order_ok :: "nat \<Rightarrow> order \<Rightarrow> bool" where
  "order_ok levels ord \<longleftrightarrow>
     (\<exists>i < levels. priceToIndex (o_price ord) = Inr (int i)) \<and> 0 < o_quantity ord \<and> o_quantity ord \<le> int_max"

definition order_entry :: "order \<Rightarrow> bool \<times> nat \<times> int" where
  "order_entry ord = (o_buy ord, (case priceToIndex (o_price ord) of Inr i \<Rightarrow> nat i | Inl _ \<Rightarrow> 0), o_quantity ord)"

definition ob_abs :: "order list \<Rightarrow> (u64 \<rightharpoonup> order_ptr) \<Rightarrow> abook" where
  "ob_abs heap L = (\<lambda>oid. case L oid of Some (Some a) \<Rightarrow> Some (order_entry (heap ! a)) | _ \<Rightarrow> None)"

definition pointers_ok :: "nat \<Rightarrow> order list \<Rightarrow> (u64 \<rightharpoonup> order_ptr) \<Rightarrow> bool" where
  "pointers_ok levels heap L \<longleftrightarrow> finite (dom L) \<and>
     (\<forall>oid p. L oid = Some p \<longrightarrow> (\<exists>a. p = Some a \<and> a < length heap \<and> o_id (heap ! a) = oid \<and> order_ok levels (heap ! a)))"

definition sides_ok :: "nat \<Rightarrow> abook \<Rightarrow> 'm book \<Rightarrow> bool" where
  "sides_ok levels A b \<longleftrightarrow>
     ob_bids b = map (\<lambda>i. level_total True i A) [0..<levels] \<and>
     ob_asks b = map (\<lambda>i. level_total False i A) [0..<levels] \<and>
     best_bid_ok (ob_bids b) (ob_best_bid b) \<and> best_ask_ok (ob_asks b) (ob_best_ask b)"

definition book_inv :: "nat \<Rightarrow> (u64 \<rightharpoonup> order_ptr) \<Rightarrow> 'm book \<Rightarrow> bool" where
  "book_inv levels L b \<longleftrightarrow> pointers_ok levels (ob_heap b) L \<and> sides_ok levels (ob_abs (ob_heap b) L) b \<and>
     book_total (ob_abs (ob_heap b) L) \<le> int_max"

lemma sides_ok_memory [simp]:
  "sides_ok levels A (b\<lparr>ob_heap := h\<rparr>) = sides_ok levels A b"
  "sides_ok levels A (b\<lparr>ob_map := m\<rparr>) = sides_ok levels A b"
  by (simp_all add: sides_ok_def)

lemma pointers_okE:
  assumes "pointers_ok levels heap L" and "L oid = Some p"
  obtains a where "p = Some a" and "a < length heap" and "o_id (heap ! a) = oid" and "order_ok levels (heap ! a)"
  using assms unfolding pointers_ok_def by blast

lemma order_okE:
  assumes "order_ok levels ord"
  obtains i where "i < levels" and "priceToIndex (o_price ord) = Inr (int i)"
    and "order_entry ord = (o_buy ord, i, o_quantity ord)" and "0 < o_quantity ord" and "o_quantity ord \<le> int_max"
  using assms unfolding order_ok_def order_entry_def by auto

lemma ob_abs_quantities: "pointers_ok levels heap L \<Longrightarrow> quantities_ok (ob_abs heap L)"
proof -
  assume ok: "pointers_ok levels heap L"
  have "dom (ob_abs heap L) \<subseteq> dom L" by (auto simp: ob_abs_def split: option.splits)
  then have "finite (dom (ob_abs heap L))" using ok unfolding pointers_ok_def by (meson finite_subset)
  moreover have "0 < q" if e: "ob_abs heap L k = Some (s, j, q)" for k s j q
  proof -
    obtain a where "L k = Some (Some a)" "order_entry (heap ! a) = (s, j, q)"
      using e by (auto simp: ob_abs_def split: option.splits)
    then show ?thesis using ok by (auto elim!: pointers_okE order_okE)
  qed
  ultimately show ?thesis unfolding quantities_ok_def by blast
qed

lemma ob_abs_None_iff: "pointers_ok levels heap L \<Longrightarrow> ob_abs heap L oid = None \<longleftrightarrow> L oid = None"
  by (cases "L oid") (auto simp: ob_abs_def order_entry_def elim!: pointers_okE)

text \<open>Orders of other ids are other objects, so writing one object leaves them alone.\<close>

lemma ob_abs_write:
  assumes "pointers_ok levels heap L" and "L oid = Some (Some a)"
  shows "ob_abs (heap[a := ord]) L = (ob_abs heap L)(oid \<mapsto> order_entry ord)"
proof
  fix k
  have a: "a < length heap" "o_id (heap ! a) = oid" using assms by (auto elim!: pointers_okE)
  show "ob_abs (heap[a := ord]) L k = ((ob_abs heap L)(oid \<mapsto> order_entry ord)) k"
  proof (cases "k = oid")
    case True
    then show ?thesis using a assms(2) by (simp add: ob_abs_def)
  next
    case False
    have "L k \<noteq> Some (Some a)" using False a(2) assms(1) by (auto elim!: pointers_okE)
    then show ?thesis using False by (auto simp: ob_abs_def split: option.split)
  qed
qed

lemma ob_abs_insert: "ob_abs heap (L(oid \<mapsto> Some a)) = (ob_abs heap L)(oid \<mapsto> order_entry (heap ! a))"
  by (auto simp: ob_abs_def)

lemma ob_abs_erase: "ob_abs heap (L(oid := None)) = (ob_abs heap L)(oid := None)"
  by (auto simp: ob_abs_def)

lemma pointers_ok_insert:
  "pointers_ok levels heap L \<Longrightarrow> a < length heap \<Longrightarrow> order_ok levels (heap ! a) \<Longrightarrow>
    pointers_ok levels heap (L(o_id (heap ! a) \<mapsto> Some a))"
  unfolding pointers_ok_def by (auto split: if_splits)

lemma pointers_ok_erase: "pointers_ok levels heap L \<Longrightarrow> pointers_ok levels heap (L(oid := None))"
  unfolding pointers_ok_def by (auto split: if_splits)

lemma pointers_ok_write:
  assumes "pointers_ok levels heap L" and "L oid = Some (Some a)" and "o_id ord = oid" and "order_ok levels ord"
  shows "pointers_ok levels (heap[a := ord]) L"
  unfolding pointers_ok_def
proof (intro conjI allI impI)
  show "finite (dom L)" using assms(1) unfolding pointers_ok_def by blast
  fix k p assume k: "L k = Some p"
  obtain c where c: "p = Some c" "c < length heap" "o_id (heap ! c) = k" "order_ok levels (heap ! c)"
    by (rule pointers_okE [OF assms(1) k])
  have "a = c \<Longrightarrow> k = oid" using pointers_okE [OF assms(1,2)] c(3) by (metis option.inject)
  then show "\<exists>c. p = Some c \<and> c < length (heap[a := ord]) \<and> o_id (heap[a := ord] ! c) = k \<and>
      order_ok levels (heap[a := ord] ! c)"
    using c assms(3,4) by (cases "a = c") auto
qed

text \<open>A level of one side changed by the difference of two entries of the same order.\<close>

definition side_levels :: "bool \<Rightarrow> 'm book \<Rightarrow> int list" where
  "side_levels side b = (if side then ob_bids b else ob_asks b)"

lemma level_add_ok:
  assumes "i < length xs" and "0 \<le> xs ! i + d" and "xs ! i + d \<le> int_max"
  shows "level_add xs (int i) d = Inr (xs[i := xs ! i + d])"
proof -
  have "int_min \<le> 0" by (simp add: int_min_def)
  then show ?thesis using assms by (simp add: level_add_def c_int_ok)
qed

lemma sides_levels:
  assumes "sides_ok levels A b"
  shows "length (side_levels side b) = levels"
    and "i < levels \<Longrightarrow> side_levels side b ! i = level_total side i A"
  using assms by (auto simp: sides_ok_def side_levels_def)

lemma levels_changed:
  assumes "\<And>j. level_total side j A' = level_total side j A + (if j = i then d else 0)" and "i < levels"
  shows "(map (\<lambda>j. level_total side j A) [0..<levels])[i := level_total side i A + d]
    = map (\<lambda>j. level_total side j A') [0..<levels]"
  using assms by (auto intro!: nth_equalityI simp: nth_list_update)

lemma level_change_bounds:
  assumes "quantities_ok A'" and "book_total A' \<le> int_max"
    and "level_total side i A' = level_total side i A + d"
  shows "0 \<le> level_total side i A + d" and "level_total side i A + d \<le> int_max"
  using level_total_nonneg [OF assms(1), of side i] level_le_book_total [OF assms(1), of side i] assms(2,3) by linarith+

text \<open>The new book after one level of one side, and the best price of that side, have changed.\<close>

lemma sides_ok_bids:
  assumes sides: "sides_ok levels A b" and i: "i < levels"
    and change: "\<And>s j. level_total s j A' = level_total s j A + (if s \<and> j = i then d else 0)"
    and best: "best_bid_ok ((ob_bids b)[i := level_total True i A']) best"
  shows "sides_ok levels A' (b\<lparr>ob_bids := (ob_bids b)[i := level_total True i A'], ob_best_bid := best\<rparr>)"
proof -
  have "ob_bids b = map (\<lambda>i. level_total True i A) [0..<levels]" and "best_ask_ok (ob_asks b) (ob_best_ask b)"
    using sides unfolding sides_ok_def by blast+
  moreover from this(1) have "(ob_bids b)[i := level_total True i A'] = map (\<lambda>i. level_total True i A') [0..<levels]"
    using levels_changed [of True A' A i d levels] change i by simp
  moreover have "map (\<lambda>i. level_total False i A') [0..<levels] = ob_asks b"
    using sides change by (simp add: sides_ok_def)
  ultimately show ?thesis using best unfolding sides_ok_def by (intro conjI) simp_all
qed

lemma sides_ok_asks:
  assumes sides: "sides_ok levels A b" and i: "i < levels"
    and change: "\<And>s j. level_total s j A' = level_total s j A + (if \<not> s \<and> j = i then d else 0)"
    and best: "best_ask_ok ((ob_asks b)[i := level_total False i A']) best"
  shows "sides_ok levels A' (b\<lparr>ob_asks := (ob_asks b)[i := level_total False i A'], ob_best_ask := best\<rparr>)"
proof -
  have "ob_asks b = map (\<lambda>i. level_total False i A) [0..<levels]" and "best_bid_ok (ob_bids b) (ob_best_bid b)"
    using sides unfolding sides_ok_def by blast+
  moreover from this(1) have "(ob_asks b)[i := level_total False i A'] = map (\<lambda>i. level_total False i A') [0..<levels]"
    using levels_changed [of False A' A i d levels] change i by simp
  moreover have "map (\<lambda>i. level_total True i A') [0..<levels] = ob_bids b"
    using sides change by (simp add: sides_ok_def)
  ultimately show ?thesis using best unfolding sides_ok_def by (intro conjI) simp_all
qed

lemma side_level_add:
  assumes sides: "sides_ok levels A b" and i: "i < levels"
    and q': "quantities_ok A'" and total': "book_total A' \<le> int_max"
    and v: "level_total side i A' = level_total side i A + d"
  shows "level_add (side_levels side b) (int i) d = Inr ((side_levels side b)[i := level_total side i A'])"
  using level_add_ok [of i "side_levels side b" d] sides_levels [OF sides] i level_change_bounds [OF q' total' v] v
  by simp

lemma sides_ok_same:
  "sides_ok levels A b \<Longrightarrow> ob_bids b' = ob_bids b \<Longrightarrow> ob_asks b' = ob_asks b \<Longrightarrow>
   ob_best_bid b' = ob_best_bid b \<Longrightarrow> ob_best_ask b' = ob_best_ask b \<Longrightarrow> sides_ok levels A b'"
  unfolding sides_ok_def by metis

lemma updatePriceLevel_bid:
  assumes sides: "sides_ok levels A b" and q: "quantities_ok A"
    and index: "priceToIndex price = Inr (int i)" and i: "i < levels" and old: "0 < level_total True i A"
    and q': "quantities_ok A'" and total': "book_total A' \<le> int_max"
    and change: "\<And>s j. level_total s j A' = level_total s j A + (if s \<and> j = i then d else 0)"
  obtains xs best where "updatePriceLevel True price d b = Inr (b\<lparr>ob_bids := xs, ob_best_bid := best\<rparr>)"
    and "sides_ok levels A' (b\<lparr>ob_bids := xs, ob_best_bid := best\<rparr>)"
proof -
  define xs where "xs = (ob_bids b)[i := level_total True i A']"
  define best where "best = (if int i = ob_best_bid b \<and> level_total True i A' = 0
      then (case scan_down xs i of Some k \<Rightarrow> k | None \<Rightarrow> 0) else ob_best_bid b)"
  have levels: "ob_bids b = map (\<lambda>i. level_total True i A) [0..<levels]"
    and best_ok: "best_bid_ok (ob_bids b) (ob_best_bid b)"
    using sides unfolding sides_ok_def by blast+
  have "level_add (ob_bids b) (int i) d = Inr xs"
    using side_level_add [OF sides i q' total', of True d] change by (simp add: side_levels_def xs_def)
  moreover have "xs ! i = level_total True i A'" using i by (simp add: levels xs_def)
  moreover have "int i = ob_best_bid b \<Longrightarrow> nat (ob_best_bid b) = i" by (metis nat_int)
  moreover have "length xs = length (ob_bids b)" by (simp add: xs_def)
  ultimately have run: "updatePriceLevel True price d b = Inr (b\<lparr>ob_bids := xs, ob_best_bid := best\<rparr>)"
    by (simp add: updatePriceLevel_def index best_def)
  have "best_bid_ok xs best"
    unfolding xs_def best_def using i old level_total_nonneg [OF q] level_total_nonneg [OF q']
    by (intro best_bid_change [OF best_ok]) (simp_all add: levels)
  then have "sides_ok levels A' (b\<lparr>ob_bids := xs, ob_best_bid := best\<rparr>)"
    unfolding xs_def by (intro sides_ok_bids [OF sides i change])
  with run show thesis by (rule that)
qed

lemma updatePriceLevel_ask:
  assumes sides: "sides_ok levels A b" and q: "quantities_ok A"
    and index: "priceToIndex price = Inr (int i)" and i: "i < levels" and old: "0 < level_total False i A"
    and q': "quantities_ok A'" and total': "book_total A' \<le> int_max"
    and change: "\<And>s j. level_total s j A' = level_total s j A + (if \<not> s \<and> j = i then d else 0)"
  obtains xs best where "updatePriceLevel False price d b = Inr (b\<lparr>ob_asks := xs, ob_best_ask := best\<rparr>)"
    and "sides_ok levels A' (b\<lparr>ob_asks := xs, ob_best_ask := best\<rparr>)"
proof -
  define xs where "xs = (ob_asks b)[i := level_total False i A']"
  define best where "best = (if int i = ob_best_ask b \<and> level_total False i A' = 0
      then (case scan_up xs (i + 1) (length (ob_asks b) - (i + 1)) of
              Some k \<Rightarrow> k | None \<Rightarrow> int (length (ob_asks b)) - 1) else ob_best_ask b)"
  have levels: "ob_asks b = map (\<lambda>i. level_total False i A) [0..<levels]"
    and best_ok: "best_ask_ok (ob_asks b) (ob_best_ask b)"
    using sides unfolding sides_ok_def by blast+
  have "level_add (ob_asks b) (int i) d = Inr xs"
    using side_level_add [OF sides i q' total', of False d] change by (simp add: side_levels_def xs_def)
  moreover have "xs ! i = level_total False i A'" using i by (simp add: levels xs_def)
  moreover have "int i = ob_best_ask b \<Longrightarrow> nat (ob_best_ask b) = i" by (metis nat_int)
  moreover have "length xs = length (ob_asks b)" by (simp add: xs_def)
  ultimately have run: "updatePriceLevel False price d b = Inr (b\<lparr>ob_asks := xs, ob_best_ask := best\<rparr>)"
    by (simp add: updatePriceLevel_def index best_def cong: option.case_cong)
  have "best_ask_ok xs best"
    unfolding xs_def best_def using i old level_total_nonneg [OF q] level_total_nonneg [OF q']
    by (intro best_ask_change [OF best_ok]) (simp_all add: levels)
  then have "sides_ok levels A' (b\<lparr>ob_asks := xs, ob_best_ask := best\<rparr>)"
    unfolding xs_def by (intro sides_ok_asks [OF sides i change])
  with run show thesis by (rule that)
qed

lemma updatePriceLevel_ok:
  assumes sides: "sides_ok levels A b" and q: "quantities_ok A" and total: "book_total A \<le> int_max"
    and index: "priceToIndex price = Inr (int i)" and i: "i < levels" and old: "0 < level_total side i A"
    and q': "quantities_ok A'" and total': "book_total A' \<le> int_max"
    and change: "\<And>s j. level_total s j A' = level_total s j A + (if s = side \<and> j = i then d else 0)"
  obtains b' where "updatePriceLevel side price d b = Inr b'" and "sides_ok levels A' b'"
    and "ob_heap b' = ob_heap b" and "ob_map b' = ob_map b" and "ob_free b' = ob_free b"
proof (cases side)
  case True
  with old change have pos: "0 < level_total True i A"
    and change: "\<And>s j. level_total s j A' = level_total s j A + (if s \<and> j = i then d else 0)" by simp_all
  show thesis
  proof (rule updatePriceLevel_bid [OF sides q index i pos q' total' change])
    fix xs best
    assume "updatePriceLevel True price d b = Inr (b\<lparr>ob_bids := xs, ob_best_bid := best\<rparr>)"
      and "sides_ok levels A' (b\<lparr>ob_bids := xs, ob_best_bid := best\<rparr>)"
    then show thesis using True by (intro that [of "b\<lparr>ob_bids := xs, ob_best_bid := best\<rparr>"]) simp_all
  qed
next
  case False
  with old change have pos: "0 < level_total False i A"
    and change: "\<And>s j. level_total s j A' = level_total s j A + (if \<not> s \<and> j = i then d else 0)" by simp_all
  show thesis
  proof (rule updatePriceLevel_ask [OF sides q index i pos q' total' change])
    fix xs best
    assume "updatePriceLevel False price d b = Inr (b\<lparr>ob_asks := xs, ob_best_ask := best\<rparr>)"
      and "sides_ok levels A' (b\<lparr>ob_asks := xs, ob_best_ask := best\<rparr>)"
    then show thesis using False by (intro that [of "b\<lparr>ob_asks := xs, ob_best_ask := best\<rparr>"]) simp_all
  qed
qed

subsection \<open>The operations, over any map that keeps the contract\<close>

text \<open>The invariant and the abstract book of a state, for a map with invariant \<open>minv\<close>.\<close>

definition book_good :: "('m \<Rightarrow> bool) \<Rightarrow> ('m \<Rightarrow> u64 \<rightharpoonup> order_ptr) \<Rightarrow> nat \<Rightarrow> 'm book \<Rightarrow> bool" where
  "book_good minv lookup levels b \<longleftrightarrow> minv (ob_map b) \<and> book_inv levels (lookup (ob_map b)) b"

definition book_live :: "('m \<Rightarrow> u64 \<rightharpoonup> order_ptr) \<Rightarrow> 'm book \<Rightarrow> abook" where
  "book_live lookup b = ob_abs (ob_heap b) (lookup (ob_map b))"

locale order_store = keyed_store find contains erase subscript assign insert default lookup inv
  for find :: "u64 \<Rightarrow> 'm \<Rightarrow> order_ptr option res"
    and contains :: "u64 \<Rightarrow> 'm \<Rightarrow> bool res"
    and erase :: "u64 \<Rightarrow> 'm \<Rightarrow> (bool \<times> 'm) res"
    and subscript :: "u64 \<Rightarrow> 'm \<Rightarrow> (order_ptr \<times> 'm) res"
    and assign :: "u64 \<Rightarrow> order_ptr \<Rightarrow> 'm \<Rightarrow> 'm res"
    and insert :: "u64 \<Rightarrow> order_ptr \<Rightarrow> 'm \<Rightarrow> 'm res"
    and default :: order_ptr
    and lookup :: "'m \<Rightarrow> u64 \<rightharpoonup> order_ptr"
    and inv :: "'m \<Rightarrow> bool"
begin

abbreviation ops :: "(u64, order_ptr, 'm) store_ops" where
  "ops \<equiv> \<lparr>so_find = find, so_contains = contains, so_erase = erase,
     so_subscript = subscript, so_assign = assign, so_insert = insert\<rparr>"

lemma missing:
  assumes "book_good inv lookup levels b" and "book_live lookup b oid = None"
  shows "ob_update ops oid q b = Inl (Throw ''Order not found'')"
    and "ob_cancel ops s oid b = Inl (Throw ''Order not found'')"
proof -
  have "lookup (ob_map b) oid = None"
    using assms ob_abs_None_iff [of levels "ob_heap b" "lookup (ob_map b)" oid]
    by (simp add: book_good_def book_inv_def book_live_def)
  then have "contains oid (ob_map b) = Inr False"
    using assms(1) contains_lookup by (simp add: book_good_def)
  then show "ob_update ops oid q b = Inl (Throw ''Order not found'')"
    and "ob_cancel ops s oid b = Inl (Throw ''Order not found'')"
    by (simp_all add: ob_update_def ob_cancel_def)
qed

lemma insert_side:
  assumes sides: "sides_ok levels A b" and a: "a < length (ob_heap b)" and ord: "ord = ob_heap b ! a"
    and i: "i < levels" "priceToIndex (o_price ord) = Inr (int i)" and q: "0 < o_quantity ord"
    and qA: "quantities_ok A" and qA': "quantities_ok A'" and total: "book_total A' \<le> int_max"
    and change: "\<And>s j. level_total s j A' = level_total s j A + (if s = o_buy ord \<and> j = i then o_quantity ord else 0)"
    and m: "assign (o_id ord) (Some a) (ob_map b) = Inr m"
  obtains b' where "ob_insert ops False pool (Some a) b = Inr b'" and "sides_ok levels A' b'"
    and "ob_heap b' = ob_heap b" and "ob_map b' = m"
proof -
  have nonneg: "0 \<le> level_total s j A" for s j by (rule level_total_nonneg [OF qA])
  have added: "level_add (side_levels (o_buy ord) b) (int i) (o_quantity ord)
      = Inr ((side_levels (o_buy ord) b)[i := level_total (o_buy ord) i A'])"
    by (rule side_level_add [OF sides i(1) qA' total]) (simp add: change)
  show thesis
  proof (cases "o_buy ord")
    case True
    let ?xs = "(ob_bids b)[i := level_total True i A']"
      and ?best = "if int i > ob_best_bid b then int i else ob_best_bid b"
    have "best_bid_ok (ob_bids b) (ob_best_bid b)" using sides unfolding sides_ok_def by blast
    then have "best_bid_ok ?xs ?best"
      using sides_levels [OF sides, where side = True] i(1) nonneg [of True i] q change [of True i] True
      by (intro best_bid_insert) (simp_all add: side_levels_def)
    then have "sides_ok levels A' (b\<lparr>ob_bids := ?xs, ob_best_bid := ?best\<rparr>)"
      using change True by (intro sides_ok_bids [OF sides i(1), of _ "o_quantity ord"]) simp_all
    moreover have "ob_insert ops False pool (Some a) b = Inr (b\<lparr>ob_map := m, ob_bids := ?xs, ob_best_bid := ?best\<rparr>)"
      using added a m ord True i(2) by (simp add: ob_insert_def ob_deref_def side_levels_def)
    ultimately show thesis
      by (intro that [of "b\<lparr>ob_map := m, ob_bids := ?xs, ob_best_bid := ?best\<rparr>"]) (auto elim: sides_ok_same)
  next
    case False
    let ?xs = "(ob_asks b)[i := level_total False i A']"
      and ?best = "if int i < ob_best_ask b then int i else ob_best_ask b"
    have "best_ask_ok (ob_asks b) (ob_best_ask b)" using sides unfolding sides_ok_def by blast
    then have "best_ask_ok ?xs ?best"
      using sides_levels [OF sides, where side = False] i(1) nonneg [of False i] q change [of False i] False
      by (intro best_ask_insert) (simp_all add: side_levels_def)
    then have "sides_ok levels A' (b\<lparr>ob_asks := ?xs, ob_best_ask := ?best\<rparr>)"
      using change False by (intro sides_ok_asks [OF sides i(1), of _ "o_quantity ord"]) simp_all
    moreover have "ob_insert ops False pool (Some a) b = Inr (b\<lparr>ob_map := m, ob_asks := ?xs, ob_best_ask := ?best\<rparr>)"
      using added a m ord False i(2) by (simp add: ob_insert_def ob_deref_def side_levels_def)
    ultimately show thesis
      by (intro that [of "b\<lparr>ob_map := m, ob_asks := ?xs, ob_best_ask := ?best\<rparr>"]) (auto elim: sides_ok_same)
  qed
qed

lemma insert_order:
  assumes good: "book_good inv lookup levels b" and a: "a < length (ob_heap b)" and ord: "ord = ob_heap b ! a"
    and valid: "order_ok levels ord" and fresh: "book_live lookup b (o_id ord) = None"
    and total: "book_total ((book_live lookup b)(o_id ord \<mapsto> order_entry ord)) \<le> int_max"
    and m: "assign (o_id ord) (Some a) (ob_map b) = Inr m"
  obtains b' where "ob_insert ops False pool (Some a) b = Inr b'" and "book_good inv lookup levels b'"
    and "book_live lookup b' = (book_live lookup b)(o_id ord \<mapsto> order_entry ord)" and "ob_heap b' = ob_heap b"
    and "ob_map b' = m"
proof -
  let ?A = "book_live lookup b" and ?A' = "(book_live lookup b)(o_id ord \<mapsto> order_entry ord)"
  have inv: "inv (ob_map b)" and pointers: "pointers_ok levels (ob_heap b) (lookup (ob_map b))"
    and sides: "sides_ok levels ?A b"
    using good by (simp_all add: book_good_def book_inv_def book_live_def)
  have m': "inv m" "lookup m = (lookup (ob_map b))(o_id ord \<mapsto> Some a)"
    using assign_lookup [OF inv m] by blast+
  obtain i where i: "i < levels" "priceToIndex (o_price ord) = Inr (int i)"
    and entry: "order_entry ord = (o_buy ord, i, o_quantity ord)" and q: "0 < o_quantity ord"
    by (rule order_okE [OF valid])
  have qA: "quantities_ok ?A" unfolding book_live_def by (rule ob_abs_quantities [OF pointers])
  then have qA': "quantities_ok ?A'" unfolding entry using q by (intro quantities_ok_put)
  have change: "level_total s j ?A' = level_total s j ?A + (if s = o_buy ord \<and> j = i then o_quantity ord else 0)" for s j
    using level_total_insert [of ?A "o_id ord" s j "order_entry ord"] qA fresh
    by (auto simp: entry at_level_eq quantities_ok_def)
  obtain b' where b': "ob_insert ops False pool (Some a) b = Inr b'" "sides_ok levels ?A' b'"
    "ob_heap b' = ob_heap b" "ob_map b' = m"
    by (rule insert_side [OF sides a ord i q qA qA' total change m])
  have live': "book_live lookup b' = ?A'"
    unfolding book_live_def b'(3,4) m'(2) ob_abs_insert ord ..
  have "pointers_ok levels (ob_heap b') (lookup (ob_map b'))"
    unfolding b'(3,4) m'(2) ord using pointers a valid ord by (intro pointers_ok_insert) simp_all
  then have "book_good inv lookup levels b'"
    using m'(1) b'(2,4) live' total by (simp add: book_good_def book_inv_def book_live_def)
  with b' live' show thesis by (intro that) simp_all
qed

lemma found:
  assumes good: "book_good inv lookup levels b" and entry: "book_live lookup b oid = Some e"
  obtains a i where "lookup (ob_map b) oid = Some (Some a)" and "a < length (ob_heap b)"
    and "contains oid (ob_map b) = Inr True" and "subscript oid (ob_map b) = Inr (Some a, ob_map b)"
    and "ob_deref b (Some a) = Inr (ob_heap b ! a)" and "o_id (ob_heap b ! a) = oid"
    and "order_ok levels (ob_heap b ! a)" and "e = order_entry (ob_heap b ! a)"
    and "i < levels" and "priceToIndex (o_price (ob_heap b ! a)) = Inr (int i)"
    and "e = (o_buy (ob_heap b ! a), i, o_quantity (ob_heap b ! a))"
proof -
  have inv: "inv (ob_map b)" and pointers: "pointers_ok levels (ob_heap b) (lookup (ob_map b))"
    using good by (simp_all add: book_good_def book_inv_def)
  obtain a where a: "lookup (ob_map b) oid = Some (Some a)" "e = order_entry (ob_heap b ! a)"
    using entry by (auto simp: book_live_def ob_abs_def split: option.splits)
  obtain "a < length (ob_heap b)" "o_id (ob_heap b ! a) = oid" "order_ok levels (ob_heap b ! a)"
    using pointers_okE [OF pointers a(1)] by auto
  moreover from this(3) obtain i where "i < levels" "priceToIndex (o_price (ob_heap b ! a)) = Inr (int i)"
      "order_entry (ob_heap b ! a) = (o_buy (ob_heap b ! a), i, o_quantity (ob_heap b ! a))"
    by (rule order_okE)
  ultimately show thesis
    using a subscript_hit [OF inv a(1)] contains_lookup [OF inv, of oid]
    by (intro that [of a i]) (simp_all add: ob_deref_def)
qed

lemma update_order:
  assumes good: "book_good inv lookup levels b" and entry: "book_live lookup b oid = Some (s, i, q)"
    and q': "0 < q'" "q' \<le> int_max"
    and total: "book_total ((book_live lookup b)(oid \<mapsto> (s, i, q'))) \<le> int_max"
  obtains b' where "ob_update ops oid q' b = Inr b'" and "book_good inv lookup levels b'"
    and "book_live lookup b' = (book_live lookup b)(oid \<mapsto> (s, i, q'))" and "ob_map b' = ob_map b"
proof -
  let ?A = "book_live lookup b" and ?A' = "(book_live lookup b)(oid \<mapsto> (s, i, q'))"
  obtain a j where a: "lookup (ob_map b) oid = Some (Some a)" "a < length (ob_heap b)"
    "contains oid (ob_map b) = Inr True" "subscript oid (ob_map b) = Inr (Some a, ob_map b)"
    "ob_deref b (Some a) = Inr (ob_heap b ! a)" "o_id (ob_heap b ! a) = oid"
    "order_ok levels (ob_heap b ! a)" "j < levels" "priceToIndex (o_price (ob_heap b ! a)) = Inr (int j)"
    "(s, i, q) = (o_buy (ob_heap b ! a), j, o_quantity (ob_heap b ! a))"
    by (rule found [OF good entry])
  let ?o = "ob_heap b ! a"
  have inv: "inv (ob_map b)" and pointers: "pointers_ok levels (ob_heap b) (lookup (ob_map b))"
    and sides: "sides_ok levels ?A b" and old: "book_total ?A \<le> int_max"
    using good by (simp_all add: book_good_def book_inv_def book_live_def)
  have qA: "quantities_ok ?A" unfolding book_live_def by (rule ob_abs_quantities [OF pointers])
  then have qA': "quantities_ok ?A'" using q'(1) by (rule quantities_ok_put)
  have q: "0 < q" "q \<le> int_max" using a(7,10) by (auto simp: order_ok_def)
  have change: "level_total t k ?A' = level_total t k ?A + (if t = o_buy ?o \<and> k = i then q' - q else 0)" for t k
    using level_total_replace [of ?A oid "(s, i, q)" t k "(s, i, q')"] qA entry a(10)
    by (auto simp: at_level_eq quantities_ok_def)
  have pos: "0 < level_total (o_buy ?o) i ?A"
    using level_total_entry [OF qA entry] q(1) a(10) by auto
  have index: "priceToIndex (o_price ?o) = Inr (int i)" and i: "i < levels" using a(8,9,10) by auto
  obtain b1 where b1: "updatePriceLevel (o_buy ?o) (o_price ?o) (q' - q) b = Inr b1"
    "sides_ok levels ?A' b1" "ob_heap b1 = ob_heap b" "ob_map b1 = ob_map b"
    by (rule updatePriceLevel_ok [OF sides qA old index i pos qA' total change])
  have qo: "o_quantity ?o = q" using a(10) by simp
  have delta: "c_int (q' - q) = Inr (q' - q)"
    using q q' by (simp add: int_min_def int_max_def)
  let ?b = "b1\<lparr>ob_heap := (ob_heap b)[a := ?o\<lparr>o_quantity := q'\<rparr>]\<rparr>"
  have run: "ob_update ops oid q' b = Inr ?b"
    by (simp add: ob_update_def a(3,4,5) qo delta b1)
  have oo: "order_ok levels (?o\<lparr>o_quantity := q'\<rparr>)" "order_entry (?o\<lparr>o_quantity := q'\<rparr>) = (s, i, q')"
    using a(7,9,10) q' by (auto simp: order_ok_def order_entry_def)
  have live: "book_live lookup ?b = ?A'"
    using ob_abs_write [OF pointers a(1), of "?o\<lparr>o_quantity := q'\<rparr>"] oo(2) b1(4) by (simp add: book_live_def)
  have "pointers_ok levels (ob_heap ?b) (lookup (ob_map ?b))"
    using pointers_ok_write [OF pointers a(1) _ oo(1)] a(6) b1(4) by simp
  then have "book_good inv lookup levels ?b"
    using inv b1(2,4) live total by (simp add: book_good_def book_inv_def book_live_def)
  then show thesis using run live b1(4) by (intro that [of ?b]) simp_all
qed

lemma cancel_order:
  assumes good: "book_good inv lookup levels b" and entry: "book_live lookup b oid = Some (s, i, q)"
  obtains b' where "ob_cancel ops False oid b = Inr b'" and "book_good inv lookup levels b'"
    and "book_live lookup b' = (book_live lookup b)(oid := None)" and "ob_heap b' = ob_heap b"
    and "lookup (ob_map b') = (lookup (ob_map b))(oid := None)"
proof -
  let ?A = "book_live lookup b" and ?A' = "(book_live lookup b)(oid := None)"
  obtain a j where a: "lookup (ob_map b) oid = Some (Some a)" "a < length (ob_heap b)"
    "contains oid (ob_map b) = Inr True" "subscript oid (ob_map b) = Inr (Some a, ob_map b)"
    "ob_deref b (Some a) = Inr (ob_heap b ! a)" "o_id (ob_heap b ! a) = oid"
    "order_ok levels (ob_heap b ! a)" "j < levels" "priceToIndex (o_price (ob_heap b ! a)) = Inr (int j)"
    "(s, i, q) = (o_buy (ob_heap b ! a), j, o_quantity (ob_heap b ! a))"
    by (rule found [OF good entry])
  let ?o = "ob_heap b ! a"
  have inv: "inv (ob_map b)" and pointers: "pointers_ok levels (ob_heap b) (lookup (ob_map b))"
    and sides: "sides_ok levels ?A b" and old: "book_total ?A \<le> int_max"
    using good by (simp_all add: book_good_def book_inv_def book_live_def)
  have qA: "quantities_ok ?A" unfolding book_live_def by (rule ob_abs_quantities [OF pointers])
  then have qA': "quantities_ok ?A'" by (rule quantities_ok_erase)
  have q: "0 < q" "q \<le> int_max" using a(7,10) by (auto simp: order_ok_def)
  have change: "level_total t k ?A' = level_total t k ?A + (if t = o_buy ?o \<and> k = i then - q else 0)" for t k
    using level_total_erase [of ?A oid "(s, i, q)" t k] qA entry a(10)
    by (auto simp: at_level_eq quantities_ok_def)
  have "book_total ?A = book_total ?A' + q"
    using sum_dom_remove [of ?A oid "(s, i, q)" "\<lambda>e. snd (snd e)"] qA entry
    by (simp add: book_total_def quantities_ok_def)
  then have total: "book_total ?A' \<le> int_max" using old q(1) by simp
  have pos: "0 < level_total (o_buy ?o) i ?A"
    using level_total_entry [OF qA entry] q(1) a(10) by auto
  have index: "priceToIndex (o_price ?o) = Inr (int i)" and i: "i < levels" using a(8,9,10) by auto
  obtain b1 where b1: "updatePriceLevel (o_buy ?o) (o_price ?o) (- q) b = Inr b1"
    "sides_ok levels ?A' b1" "ob_heap b1 = ob_heap b" "ob_map b1 = ob_map b"
    by (rule updatePriceLevel_ok [OF sides qA old index i pos qA' total change])
  obtain m where m: "erase oid (ob_map b) = Inr (lookup (ob_map b) oid \<noteq> None, m)" "inv m"
    "lookup m = (lookup (ob_map b))(oid := None)"
    using erase_lookup [OF inv, of oid] by blast
  have qo: "o_quantity ?o = q" using a(10) by simp
  have delta: "c_int (- q) = Inr (- q)"
    using q by (simp add: int_min_def int_max_def)
  have run: "ob_cancel ops False oid b = Inr (b1\<lparr>ob_map := m\<rparr>)"
    by (simp add: ob_cancel_def a(3,4,5) qo delta b1 m(1))
  have live: "book_live lookup (b1\<lparr>ob_map := m\<rparr>) = ?A'"
    using b1(3) by (simp add: book_live_def m(3) ob_abs_erase)
  have "book_good inv lookup levels (b1\<lparr>ob_map := m\<rparr>)"
    using pointers_ok_erase [OF pointers, of oid] m(2,3) b1(2,3) live total
    by (simp add: book_good_def book_inv_def book_live_def)
  then show thesis using run live b1(3) m(3) by (intro that [of "b1\<lparr>ob_map := m\<rparr>"]) simp_all
qed

end

subsection \<open>The book on its hash map\<close>

interpretation fsm_book: order_store "fsm_find hash" "fsm_contains hash" "fsm_erase hash"
  "fsm_subscript hash None" "fsm_assign hash None" "fsm_insert hash" None "fsm_lookup hash" "fsm_inv hash"
  for hash :: "u64 \<Rightarrow> u64"
  by unfold_locales

type_synonym fsm_book = "(u64, order_ptr) fsm book"

datatype book_op = PlaceOrder nat | AmendOrder u64 int | CancelOrder u64

fun book_step :: "(u64 \<Rightarrow> u64) \<Rightarrow> book_op \<Rightarrow> fsm_book \<Rightarrow> fsm_book res" where
  "book_step hash (PlaceOrder a) b = ob_insert (fsm_ops hash None) False 0 (Some a) b"
| "book_step hash (AmendOrder oid q) b = ob_update (fsm_ops hash None) oid q b"
| "book_step hash (CancelOrder oid) b = ob_cancel (fsm_ops hash None) False oid b"

definition book_orders :: "(u64 \<Rightarrow> u64) \<Rightarrow> fsm_book \<Rightarrow> abook" where
  "book_orders hash b = book_live (fsm_lookup hash) b"

text \<open>
  What a caller has to respect: an order it places is in memory, has a positive quantity, a price
  with a level and an id that is not live; a new quantity is positive and for a live order; the
  live quantities fit an \<open>int\<close> in total and the live orders fit the map's pool.
\<close>

fun book_allowed :: "(u64 \<Rightarrow> u64) \<Rightarrow> nat \<Rightarrow> fsm_book \<Rightarrow> book_op \<Rightarrow> bool" where
  "book_allowed hash levels b (PlaceOrder a) \<longleftrightarrow>
     a < length (ob_heap b) \<and> order_ok levels (ob_heap b ! a) \<and>
     book_orders hash b (o_id (ob_heap b ! a)) = None \<and>
     card (dom (book_orders hash b)) < length (fs_pool (ob_map b)) \<and>
     book_total ((book_orders hash b)(o_id (ob_heap b ! a) \<mapsto> order_entry (ob_heap b ! a))) \<le> int_max"
| "book_allowed hash levels b (AmendOrder oid q) \<longleftrightarrow> 0 < q \<and> q \<le> int_max \<and>
     (\<exists>s i q'. book_orders hash b oid = Some (s, i, q') \<and>
       book_total ((book_orders hash b)(oid \<mapsto> (s, i, q))) \<le> int_max)"
| "book_allowed hash levels b (CancelOrder oid) \<longleftrightarrow> book_orders hash b oid \<noteq> None"

text \<open>What each allowed operation does to the abstract book.\<close>

fun book_effect :: "fsm_book \<Rightarrow> book_op \<Rightarrow> abook \<Rightarrow> abook" where
  "book_effect b (PlaceOrder a) A = A(o_id (ob_heap b ! a) \<mapsto> order_entry (ob_heap b ! a))"
| "book_effect b (AmendOrder oid q) A = A(oid := map_option (\<lambda>(s, i, _). (s, i, q)) (A oid))"
| "book_effect b (CancelOrder oid) A = A(oid := None)"

inductive book_reach :: "(u64 \<Rightarrow> u64) \<Rightarrow> nat \<Rightarrow> u64 \<Rightarrow> fsm_book \<Rightarrow> bool" for hash levels buckets where
  new: "fsm_new 0 None buckets = Inr m \<Longrightarrow> book_reach hash levels buckets (ob_new levels heap m)"
| step: "book_reach hash levels buckets b \<Longrightarrow> book_allowed hash levels b op \<Longrightarrow>
    book_step hash op b = Inr b' \<Longrightarrow> book_reach hash levels buckets b'"

lemma fsm_assign_room:
  assumes "fsm_inv hash m" and "fsm_lookup hash m k \<noteq> None \<or> card (dom (fsm_lookup hash m)) < length (fs_pool m)"
  obtains m' where "fsm_assign hash d k v m = Inr m'"
proof -
  obtain ps where ps: "fsm_rep m ps" "buckets_inv (fsm_index hash m) (fsm_table m ps)"
    using assms(1) by (auto simp: fsm_inv_def)
  show thesis
  proof (rule fsm_ref_cases [OF ps(1), of hash d k])
    fix n m' assume "fsm_subscript_ref hash d k m = Inr (n, m')"
    then show thesis by (intro that) (simp add: fsm_assign_def)
  next
    assume "fs_free m = []" "fsm_lookup hash m k = None"
    then show thesis using fsm_live_nodes(2) [OF ps] assms(2) by simp
  qed
qed

lemma dom_ob_abs: "pointers_ok levels heap L \<Longrightarrow> dom (ob_abs heap L) = dom L"
  by (auto simp: dom_def ob_abs_None_iff simp del: not_None_eq)

lemma book_step_ok:
  assumes good: "book_good (fsm_inv hash) (fsm_lookup hash) levels b" and allowed: "book_allowed hash levels b op"
  obtains b' where "book_step hash op b = Inr b'" and "book_good (fsm_inv hash) (fsm_lookup hash) levels b'"
    and "book_orders hash b' = book_effect b op (book_orders hash b)"
proof (cases op)
  case (PlaceOrder a)
  have inv: "fsm_inv hash (ob_map b)" and pointers: "pointers_ok levels (ob_heap b) (fsm_lookup hash (ob_map b))"
    using good by (simp_all add: book_good_def book_inv_def)
  have "card (dom (fsm_lookup hash (ob_map b))) < length (fs_pool (ob_map b))"
    using allowed PlaceOrder dom_ob_abs [OF pointers] by (simp add: book_orders_def book_live_def)
  then obtain m where m: "fsm_assign hash None (o_id (ob_heap b ! a)) (Some a) (ob_map b) = Inr m"
    using fsm_assign_room [OF inv] by metis
  show thesis
    by (rule fsm_book.insert_order [OF good _ refl _ _ _ m, of 0, folded fsm_ops_def])
      (use allowed PlaceOrder in \<open>auto simp: book_orders_def intro: that\<close>)
next
  case (AmendOrder oid q)
  then obtain s i q' where e: "book_live (fsm_lookup hash) b oid = Some (s, i, q')"
    and total: "book_total ((book_live (fsm_lookup hash) b)(oid \<mapsto> (s, i, q))) \<le> int_max"
    and q: "0 < q" "q \<le> int_max"
    using allowed by (auto simp: book_orders_def)
  show thesis
    by (rule fsm_book.update_order [OF good e q total, folded fsm_ops_def])
      (use AmendOrder e in \<open>auto simp: book_orders_def intro: that\<close>)
next
  case (CancelOrder oid)
  then obtain s i q where e: "book_live (fsm_lookup hash) b oid = Some (s, i, q)"
    using allowed by (auto simp: book_orders_def)
  show thesis
    by (rule fsm_book.cancel_order [OF good e, folded fsm_ops_def])
      (use CancelOrder in \<open>auto simp: book_orders_def intro: that\<close>)
qed

lemma book_new_good:
  assumes "fsm_new 0 None buckets = Inr m"
  shows "book_good (fsm_inv hash) (fsm_lookup hash) levels (ob_new levels heap m)"
proof -
  note new = fsm_new_rep [OF assms]
  have "ob_abs heap (fsm_lookup hash m) = Map.empty" by (simp add: new(3) ob_abs_def)
  moreover have "level_total s i Map.empty = 0" and "book_total Map.empty = 0" for s i
    by (simp_all add: level_total_def book_total_def)
  ultimately show ?thesis
    using new(2,3)
    by (simp add: book_good_def book_inv_def ob_new_def pointers_ok_def sides_ok_def best_bid_ok_def
        best_ask_ok_def int_max_def map_replicate_const)
qed

lemma book_reach_good:
  "book_reach hash levels buckets b \<Longrightarrow> book_good (fsm_inv hash) (fsm_lookup hash) levels b"
proof (induction rule: book_reach.induct)
  case (new m heap)
  then show ?case by (rule book_new_good)
next
  case (step b op b')
  then show ?case using book_step_ok [OF step.IH step.hyps(2)] by (metis sum.inject(2))
qed

text \<open>A book with one buy order, for the witnesses.\<close>

lemma priceToIndex_zero: "priceToIndex (Dbl 0 0) = Inr 0"
  by (simp add: priceToIndex_def TicksPerUnit_def c_int_eval)

lemma book_example:
  obtains b where "book_reach hash_u64 2 1 b" and "book_orders hash_u64 b = [7 \<mapsto> (True, 0, 10)]"
    and "ob_heap b = [\<lparr>o_id = 7, o_price = Dbl 0 0, o_quantity = 10, o_buy = True\<rparr>]"
proof -
  let ?heap = "[\<lparr>o_id = 7, o_price = Dbl 0 0, o_quantity = 10, o_buy = True\<rparr>]"
  obtain m :: "(u64, order_ptr) fsm" where m: "fsm_new 0 None 1 = Inr m"
    by (simp add: fsm_new_def Let_def)
  note new = fsm_new_rep [OF m]
  let ?b = "ob_new 2 ?heap m"
  have reach: "book_reach hash_u64 2 1 ?b" by (rule book_reach.new [OF m])
  have none: "book_orders hash_u64 ?b = Map.empty"
    by (simp add: book_orders_def book_live_def ob_new_def new(3) ob_abs_def)
  have entry: "order_entry (?heap ! 0) = (True, 0, 10)"
    by (simp add: order_entry_def priceToIndex_zero)
  have fields: "ob_heap ?b = ?heap" "ob_map ?b = m" by (simp_all add: ob_new_def)
  have ok: "order_ok 2 (?heap ! 0)" by (simp add: order_ok_def priceToIndex_zero int_max_def exI [of _ 0])
  have allowed: "book_allowed hash_u64 2 ?b (PlaceOrder 0)"
    using ok entry new(4) by (simp add: none fields book_total_def int_max_def)
  obtain b where b: "book_step hash_u64 (PlaceOrder 0) ?b = Inr b"
    "book_orders hash_u64 b = book_effect ?b (PlaceOrder 0) (book_orders hash_u64 ?b)"
    by (rule book_step_ok [OF book_reach_good [OF reach] allowed])
  have "ob_heap b = ?heap"
    using b(1) fields by (auto simp: ob_insert_def ob_deref_def split: if_splits)
  then show thesis using b entry book_reach.step [OF reach allowed b(1)]
    by (intro that [of b]) (simp_all add: none fields)
qed

subsection \<open>Properties\<close>

text \<open>Both roundings are within one part in \<open>2 ^ 53\<close>.\<close>

lemma price_index_close:
  assumes "i < 100000"
  shows "priceToIndex (indexToPrice (int i)) \<in> {Inr (int i - 1), Inr (int i)}"
proof (cases "i = 0")
  case True
  then show ?thesis
    by (simp add: priceToIndex_def indexToPrice_def TickSize_def TicksPerUnit_def c_int_eval)
next
  case False
  let ?c = "5764607523034235 :: nat"
  define x where "x = round_even 53 (i * ?c)"
  define y where "y = round_even 53 (x * 100)"
  have x: "x * 2 ^ 53 \<le> i * ?c * 2 ^ 53 + i * ?c" "i * ?c * 2 ^ 53 \<le> x * 2 ^ 53 + i * ?c"
    unfolding x_def by (rule round_even_error; simp)+
  have y: "y * 2 ^ 53 \<le> x * 100 * 2 ^ 53 + x * 100" "x * 100 * 2 ^ 53 \<le> y * 2 ^ 53 + x * 100"
    unfolding y_def by (rule round_even_error; simp)+
  have "0 < x" using x False by (auto intro: Nat.gr0I)
  then have "0 < y" using y by (auto intro: Nat.gr0I)
  have "y < (i + 1) * 2 ^ 59" using x y assms by simp
  moreover have "i * 2 ^ 59 \<le> y + 2 ^ 59" using x y assms by simp
  then have "(i - 1) * 2 ^ 59 \<le> y" by (simp add: diff_mult_distrib)
  ultimately have "i - 1 \<le> y div 2 ^ 59" "y div 2 ^ 59 < i + 1"
    by (simp_all add: less_eq_div_iff_mult_less_eq div_less_iff_less_mult)
  then have trunc: "y div 2 ^ 59 = i - 1 \<or> y div 2 ^ 59 = i" by auto
  have nats: "nat (int i * 5764607523034235) = i * ?c" by (simp add: nat_mult_distrib)
  have "indexToPrice (int i) = Dbl (int x) (- 59)"
    using False by (simp add: indexToPrice_def TickSize_def x_def nats sgn_mult)
  moreover have "nat (int x * 100) = x * 100" by (simp add: nat_mult_distrib)
  ultimately have "dbl_trunc (dbl_mul (indexToPrice (int i)) TicksPerUnit) = int (y div 2 ^ 59)"
    using \<open>0 < x\<close> \<open>0 < y\<close> by (simp add: TicksPerUnit_def y_def sgn_mult zdiv_int)
  then show ?thesis
    using trunc assms False by (auto simp: priceToIndex_def c_int_eval)
qed

text \<open>
  Claim C15.  In every state the book reaches through allowed operations, the quantity at each
  level of each side is the sum of the quantities of the live orders there, the best bid is the
  highest level with a buy order and the best ask the lowest with a sell order (or a fixed index
  when the side is empty).
\<close>

theorem order_book_levels:
  assumes "book_reach hash levels buckets b"
  shows "ob_bids b = map (\<lambda>i. level_total True i (book_orders hash b)) [0..<levels] \<and>
    ob_asks b = map (\<lambda>i. level_total False i (book_orders hash b)) [0..<levels] \<and>
    best_bid_ok (ob_bids b) (ob_best_bid b) \<and> best_ask_ok (ob_asks b) (ob_best_ask b)"
  using book_reach_good [OF assms]
  unfolding book_good_def book_inv_def sides_ok_def book_orders_def book_live_def by blast

theorem order_book_levels_witness:
  "\<exists>b. book_reach hash_u64 2 1 b \<and> book_orders hash_u64 b 7 = Some (True, 0, 10) \<and>
    ob_bids b = map (\<lambda>i. level_total True i (book_orders hash_u64 b)) [0..<2]"
proof (rule book_example)
  fix b assume "book_reach hash_u64 2 1 b" and "book_orders hash_u64 b = [7 \<mapsto> (True, 0, 10)]"
  then show ?thesis using order_book_levels [of hash_u64 2 1 b] by (intro exI [of _ b]) simp
qed

text \<open>
  Claim C16.  Progress and effect: in every reachable state an allowed operation succeeds, with no
  overflow, no access outside the arrays and no exception, and changes the live orders exactly as
  the abstract operation does.
\<close>

theorem order_book_progress:
  assumes "book_reach hash levels buckets b" and "book_allowed hash levels b op"
  shows "\<exists>b'. book_step hash op b = Inr b' \<and> book_reach hash levels buckets b' \<and>
    book_orders hash b' = book_effect b op (book_orders hash b)"
proof -
  obtain b' where "book_step hash op b = Inr b'" "book_orders hash b' = book_effect b op (book_orders hash b)"
    by (rule book_step_ok [OF book_reach_good [OF assms(1)] assms(2)])
  then show ?thesis using book_reach.step [OF assms] by blast
qed

theorem order_book_progress_witness:
  "\<exists>b b'. book_reach hash_u64 2 1 b \<and> book_step hash_u64 (AmendOrder 7 15) b = Inr b' \<and>
    book_orders hash_u64 b' 7 = Some (True, 0, 15)"
proof (rule book_example)
  fix b assume b: "book_reach hash_u64 2 1 b" "book_orders hash_u64 b = [7 \<mapsto> (True, 0, 10)]"
  have "book_allowed hash_u64 2 b (AmendOrder 7 15)"
    using b(2) by (auto simp: int_max_def book_total_def)
  from order_book_progress [OF b(1) this] b show ?thesis by auto
qed

text \<open>
  Claim C17.  \<open>update\<close> and \<open>cancel\<close> of an id that is not live throw "Order not found".
\<close>

theorem order_book_missing:
  assumes "book_reach hash levels buckets b" and "book_orders hash b oid = None"
  shows "ob_update (fsm_ops hash None) oid q b = Inl (Throw ''Order not found'') \<and>
    ob_cancel (fsm_ops hash None) False oid b = Inl (Throw ''Order not found'')"
  using fsm_book.missing [OF book_reach_good [OF assms(1)], folded fsm_ops_def] assms(2)
  by (simp add: book_orders_def)

theorem order_book_missing_witness:
  "\<exists>b. book_reach hash_u64 2 1 b \<and>
    ob_cancel (fsm_ops hash_u64 None) False 8 b = Inl (Throw ''Order not found'')"
proof (rule book_example)
  fix b assume "book_reach hash_u64 2 1 b" and "book_orders hash_u64 b = [7 \<mapsto> (True, 0, 10)]"
  then show ?thesis using order_book_missing [of hash_u64 2 1 b 8] by (intro exI [of _ b]) simp
qed

text \<open>
  Claim C18.  While a buy order is live, \<open>bestBid()\<close> answers the highest level with one, and the
  positive total quantity there; nothing is out of bounds.
\<close>

theorem order_book_best_bid:
  assumes "book_reach hash levels buckets b" and "book_orders hash b oid = Some (True, i, q)"
  shows "\<exists>best < levels. ob_bestBid b = Inr (indexToPrice (int best), level_total True best (book_orders hash b)) \<and>
    0 < level_total True best (book_orders hash b) \<and>
    (\<forall>k j q. book_orders hash b k = Some (True, j, q) \<longrightarrow> j \<le> best)"
proof -
  let ?A = "book_orders hash b"
  have good: "book_good (fsm_inv hash) (fsm_lookup hash) levels b" by (rule book_reach_good [OF assms(1)])
  then have bids: "ob_bids b = map (\<lambda>i. level_total True i ?A) [0..<levels]"
    and best: "best_bid_ok (ob_bids b) (ob_best_bid b)"
    and qA: "quantities_ok ?A"
    unfolding book_good_def book_inv_def sides_ok_def book_orders_def book_live_def
    using ob_abs_quantities by blast+
  have in_range: "j < levels \<and> 0 < ob_bids b ! j" if k: "?A k = Some (True, j, q)" for k j q
  proof (rule fsm_book.found [OF good k [unfolded book_orders_def]])
    fix i a assume "i < levels" "(True, j, q) = (o_buy (ob_heap b ! a), i, o_quantity (ob_heap b ! a))"
    moreover have "0 < level_total True j ?A"
      using level_total_entry [OF qA k] qA k unfolding quantities_ok_def by fastforce
    ultimately show ?thesis by (simp add: bids)
  qed
  then have "\<not> (\<forall>j < length (ob_bids b). ob_bids b ! j = 0)"
    using in_range [OF assms(2)] by (auto simp: bids)
  then obtain n where n: "n < levels" "ob_best_bid b = int n" "0 < ob_bids b ! n"
    "\<forall>j < levels. n < j \<longrightarrow> ob_bids b ! j = 0"
    using best unfolding best_bid_ok_def by (auto simp: bids)
  have "j \<le> n" if "?A k = Some (True, j, q)" for k j q
    using in_range [OF that] n(4) by (metis less_irrefl not_le)
  then show ?thesis using n
    by (intro exI [of _ n]) (simp add: ob_bestBid_def bids)
qed

theorem order_book_best_bid_witness:
  "\<exists>b. book_reach hash_u64 2 1 b \<and> ob_bestBid b \<noteq> Inl (UB OutOfBounds)"
proof (rule book_example)
  fix b assume "book_reach hash_u64 2 1 b" and "book_orders hash_u64 b = [7 \<mapsto> (True, 0, 10)]"
  then show ?thesis using order_book_best_bid [of hash_u64 2 1 b 7 0 10] by (intro exI [of _ b]) auto
qed

text \<open>
  Before the first order the accessors have undefined behaviour: the best indices of a
  new book are one outside the arrays at either end.  And with \<open>RequireStorage\<close> no order can ever
  be inserted: the pool is never filled, so the first insert takes the back of an empty vector.
\<close>

lemma order_book_new_traps:
  assumes "0 < PoolSize" and "a < length heap"
  shows "ob_bestBid (ob_new levels heap m) = Inl (UB OutOfBounds) \<and>
    ob_bestAsk (ob_new levels heap m) = Inl (UB OutOfBounds) \<and>
    ob_insert ops True PoolSize (Some a) (ob_new levels heap m) = Inl (UB EmptyContainer)"
  using assms
  by (simp add: ob_bestBid_def ob_bestAsk_def ob_new_def array_get_def ob_insert_def ob_deref_def)

lemma order_book_new_traps_witness:
  "ob_insert (fsm_ops hash_u64 None) True 10000000 (Some 0)
     (ob_new 2 [\<lparr>o_id = 7, o_price = Dbl 0 0, o_quantity = 10, o_buy = True\<rparr>]
       \<lparr>fs_buckets = [None], fs_pool = [], fs_free = [], fs_mask = 0\<rparr>) = Inl (UB EmptyContainer)"
  using order_book_new_traps [of 10000000 0 "[\<lparr>o_id = 7, o_price = Dbl 0 0, o_quantity = 10, o_buy = True\<rparr>]" 2
      "\<lparr>fs_buckets = [None], fs_pool = [], fs_free = [], fs_mask = 0\<rparr>" "fsm_ops hash_u64 None"]
  by simp

text \<open>
  A quantity of zero, which \<open>update\<close> accepts, makes the best bid wrong for good: with
  buys at levels 0 and 1, the order at level 1 is set to 0 and back to 10, and the book then
  answers level 0 as its best bid although level 1 has quantity 10.
\<close>

lemma order_book_zero_quantity:
  "\<exists>m b1 b2 b3 b4. fsm_new 0 None 1 = Inr m \<and>
    book_step hash_u64 (PlaceOrder 0) (ob_new 2 [\<lparr>o_id = 1, o_price = Dbl 0 0, o_quantity = 5, o_buy = True\<rparr>,
      \<lparr>o_id = 2, o_price = Dbl 5764607523034235 (- 59), o_quantity = 10, o_buy = True\<rparr>] m) = Inr b1 \<and>
    book_step hash_u64 (PlaceOrder 1) b1 = Inr b2 \<and>
    book_step hash_u64 (AmendOrder 2 0) b2 = Inr b3 \<and>
    book_step hash_u64 (AmendOrder 2 10) b3 = Inr b4 \<and>
    ob_bids b4 = [5, 10] \<and> ob_bestBid b4 = Inr (indexToPrice 0, 5)"
proof -
  obtain m :: "(u64, order_ptr) fsm" where m: "fsm_new 0 None 1 = Inr m"
    by (simp add: fsm_new_def Let_def)
  note new = fsm_new_rep [OF m]
  obtain m1 where a1: "fsm_assign hash_u64 None 1 (Some 0) m = Inr m1"
    by (rule fsm_assign_room [OF new(2), where k = 1]) (use new(3,4) in simp)
  then have m1: "fsm_inv hash_u64 m1" "fsm_lookup hash_u64 m1 = [1 \<mapsto> Some 0]"
    using fsm_assign_ok [OF new(2) a1] new(3) by simp_all
  have "length (fs_pool m1) = 16"
    using a1 fsm_pool_size(2) [of hash_u64 None 1 m] new(4) by (auto simp: fsm_assign_def)
  then obtain m2 where a2: "fsm_assign hash_u64 None 2 (Some 1) m1 = Inr m2"
    using fsm_assign_room [OF m1(1), where k = 2] m1(2) by auto
  then have m2: "fsm_inv hash_u64 m2" "fsm_lookup hash_u64 m2 2 = Some (Some 1)"
    using fsm_assign_ok [OF m1(1) a2] by simp_all
  note a2 = a2 [unfolded One_nat_def] and m2 = m2 [unfolded One_nat_def]
  note map = fsm_contains_lookup [OF m2(1), of 2] fsm_subscript_hit [OF m2, of None]
  have "dbl_trunc (dbl_mul (Dbl 5764607523034235 (- 59)) TicksPerUnit) = 1"
    by (simp add: TicksPerUnit_def round_even_def bits_numeral)
  then have index: "priceToIndex (Dbl 5764607523034235 (- 59)) = Inr 1"
    by (simp add: priceToIndex_def c_int_eval)
  let ?o1 = "\<lparr>o_id = 1, o_price = Dbl 0 0, o_quantity = 5, o_buy = True\<rparr>"
    and ?o2 = "\<lambda>q. \<lparr>o_id = 2, o_price = Dbl 5764607523034235 (- 59), o_quantity = q, o_buy = True\<rparr>"
  let ?b = "\<lambda>q m bids best. \<lparr>ob_heap = [?o1, ?o2 q], ob_free = [], ob_count = 0, ob_map = m, ob_bids = bids,
      ob_asks = [0, 0], ob_best_bid = best, ob_best_ask = 2\<rparr>"
  note eval = ob_insert_def ob_deref_def fsm_ops_def priceToIndex_zero index level_add_def array_get_def
    array_set_def c_int_eval ob_update_def updatePriceLevel_def
  have new2: "ob_new 2 [?o1, ?o2 10] m = ?b 10 m [0, 0] (- 1)"
    by (simp add: ob_new_def numeral_2_eq_2)
  have 1: "book_step hash_u64 (PlaceOrder 0) (ob_new 2 [?o1, ?o2 10] m) = Inr (?b 10 m1 [5, 0] 0)"
    unfolding new2 by (simp add: eval a1 cong: bind_res_weak_cong)
  have 2: "book_step hash_u64 (PlaceOrder 1) (?b 10 m1 [5, 0] 0) = Inr (?b 10 m2 [5, 10] 1)"
    by (simp add: eval a2 cong: bind_res_weak_cong)
  have 3: "book_step hash_u64 (AmendOrder 2 0) (?b 10 m2 [5, 10] 1) = Inr (?b 0 m2 [5, 0] 0)"
    by (simp add: eval map m2(2) Let_def cong: bind_res_weak_cong)
  have 4: "book_step hash_u64 (AmendOrder 2 10) (?b 0 m2 [5, 0] 0) = Inr (?b 10 m2 [5, 10] 0)"
    by (simp add: eval map m2(2) Let_def cong: bind_res_weak_cong)
  have 5: "ob_bestBid (?b 10 m2 [5, 10] 0) = Inr (indexToPrice 0, 5)"
    by (simp add: ob_bestBid_def array_get_def)
  show ?thesis
    by (intro exI conjI, rule m, rule 1, rule 2, rule 3, rule 4, simp, rule 5)
qed

text \<open>
  Claim C19.  Prices and levels: the index of the price of a level is that level or the one below,
  for every level of the book; and it is the one below for some (0.29 is filed under 0.28), so
  truncation after the inexact product loses a tick.
\<close>

theorem price_index_off_by_one:
  "(\<forall>i < 100000. priceToIndex (indexToPrice (int i)) \<in> {Inr (int i - 1), Inr (int i)}) \<and>
    priceToIndex (indexToPrice 29) = Inr 28"
proof (intro conjI allI impI)
  fix i :: nat assume i: "i < 100000"
  show "priceToIndex (indexToPrice (int i)) \<in> {Inr (int i - 1), Inr (int i)}"
    by (rule price_index_close [OF i])
next
  show "priceToIndex (indexToPrice 29) = Inr 28"
    by (simp add: priceToIndex_def indexToPrice_def TickSize_def TicksPerUnit_def round_even_def bits_numeral
        c_int_eval)
qed

theorem price_index_off_by_one_witness:
  "priceToIndex (indexToPrice 5) \<in> {Inr 4, Inr 5}"
  using price_index_off_by_one [THEN conjunct1, rule_format, of 5] by simp

end
