(* ===== verification/Adapters.thy ===== *)
theory Adapters
  imports SpscQueue MemoryPools
begin

text \<open>
  The adapters of \<^verbatim>\<open>HFT/Queue.hpp\<close> and \<^verbatim>\<open>HFT/MemoryPool.hpp\<close> over library classes.  The library's
  operations are parameters; the lemmas say what they have to do for the adapters to keep the
  contracts of \<open>fifo_queue\<close> and \<open>message_pool\<close>, on which the users of queues and pools rely.
\<close>

subsection \<open>BoostLockFreeQueue and MoodycamelLockFreeQueue\<close>

text \<open>
  The insertion answers whether it took the pointer.  The removal sets its argument and answers
  true, or answers false and leaves it alone: \<open>None\<close>; \<open>dequeue\<close> hands it a null pointer.
\<close>

definition library_enqueue :: "('a option \<Rightarrow> 'q \<Rightarrow> bool \<times> 'q) \<Rightarrow> 'a option \<Rightarrow> 'q \<Rightarrow> bool \<times> 'q" where
  "library_enqueue push ptr q = push ptr q"

definition library_dequeue :: "('q \<Rightarrow> 'a option option \<times> 'q) \<Rightarrow> 'q \<Rightarrow> 'a option \<times> 'q" where
  "library_dequeue pop q =
     (let msg = None; (popped, q') = pop q in (case popped of None \<Rightarrow> msg | Some p \<Rightarrow> p, q'))"

lemma library_queue_fifo:
  assumes "\<And>p q. qok q \<Longrightarrow> full q \<Longrightarrow> push p q = (False, q)"
    and "\<And>p q. qok q \<Longrightarrow> \<not> full q \<Longrightarrow> \<exists>q'. push p q = (True, q') \<and> qok q' \<and> contents q' = contents q @ [p]"
    and "\<And>q. qok q \<Longrightarrow> contents q = [] \<Longrightarrow> pop q = (None, q)"
    and "\<And>p ps q. qok q \<Longrightarrow> contents q = p # ps \<Longrightarrow> \<exists>q'. pop q = (Some p, q') \<and> qok q' \<and> contents q' = ps"
  shows "fifo_queue (library_enqueue push) (library_dequeue pop) None contents full qok"
proof
  fix p :: "'a option" and q assume "qok q" and "\<not> full q"
  from assms(2) [OF this, of p] show "fst (library_enqueue push p q) \<and> qok (snd (library_enqueue push p q)) \<and>
      contents (snd (library_enqueue push p q)) = contents q @ [p]" by (auto simp: library_enqueue_def)
next
  fix q assume q: "qok q" "contents q \<noteq> []"
  then obtain p ps where ps: "contents q = p # ps" by (cases "contents q") auto
  from assms(4) [OF q(1) ps] ps show "fst (library_dequeue pop q) = hd (contents q) \<and> qok (snd (library_dequeue pop q)) \<and>
      contents (snd (library_dequeue pop q)) = tl (contents q)" by (auto simp: library_dequeue_def)
qed (simp_all add: library_enqueue_def library_dequeue_def assms(1,3))

text \<open>The ring of \<open>CustomSPSCLockFreeQueue\<close> itself meets these demands, as a bounded queue of a library does.\<close>

lemma library_queue_ring:
  "fifo_queue (library_enqueue (spsc_enqueue :: 'a option \<Rightarrow> 'a spsc \<Rightarrow> bool \<times> 'a spsc))
     (library_dequeue (\<lambda>q. if spsc_contents q = [] then (None, q) else map_prod Some id (spsc_dequeue q)))
     None spsc_contents spsc_full spsc_inv"
proof (rule library_queue_fifo)
  fix p :: "'a option" and q :: "'a spsc" assume "spsc_inv q" and "\<not> spsc_full q"
  then show "\<exists>q'. spsc_enqueue p q = (True, q') \<and> spsc_inv q' \<and> spsc_contents q' = spsc_contents q @ [p]"
    using spsc_enqueue_ok [of q p] by (cases "spsc_enqueue p q") auto
next
  fix p :: "'a option" and ps and q :: "'a spsc" assume "spsc_inv q" and "spsc_contents q = p # ps"
  then show "\<exists>q'. (if spsc_contents q = [] then (None, q) else map_prod Some id (spsc_dequeue q)) = (Some p, q') \<and>
      spsc_inv q' \<and> spsc_contents q' = ps"
    using spsc_dequeue_ok [of q] by (cases "spsc_dequeue q") auto
qed (simp_all add: spsc_enqueue_full)

subsection \<open>BoostPool\<close>

text \<open>
  With or without the mutex, \<open>allocate\<close> constructs an object in the library's pool and \<open>deallocate\<close>
  destroys it.
\<close>

definition boost_ops :: "('p \<Rightarrow> nat option \<times> 'p) \<Rightarrow> (nat option \<Rightarrow> 'p \<Rightarrow> 'p) \<Rightarrow> 'p pool_ops" where
  "boost_ops construct destroy = \<lparr>allocate_op = (\<lambda>p. Inr (construct p)), deallocate_op = (\<lambda>obj p. Inr (destroy obj p))\<rparr>"

lemma boost_pool_contract:
  assumes "\<And>p. good p \<Longrightarrow> free p \<noteq> {} \<Longrightarrow> \<exists>m p'. construct p = (Some m, p') \<and> m \<in> free p \<and> good p' \<and>
      free p' = free p - {m} \<and> psize p' = psize p"
    and "\<And>p m. good p \<Longrightarrow> m < psize p \<Longrightarrow> m \<notin> free p \<Longrightarrow> good (destroy (Some m) p) \<and>
      free (destroy (Some m) p) = insert m (free p) \<and> psize (destroy (Some m) p) = psize p"
  shows "message_pool (boost_ops construct destroy) free psize good"
proof
  fix p assume "good p" and "free p \<noteq> {}"
  from assms(1) [OF this] show "\<exists>m p'. allocate_op (boost_ops construct destroy) p = Inr (Some m, p') \<and> m \<in> free p \<and>
      good p' \<and> free p' = free p - {m} \<and> psize p' = psize p" by (auto simp: boost_ops_def)
next
  fix p m assume "good p" and "m < psize p" and "m \<notin> free p"
  from assms(2) [OF this] show "\<exists>p'. deallocate_op (boost_ops construct destroy) (Some m) p = Inr p' \<and> good p' \<and>
      free p' = insert m (free p) \<and> psize p' = psize p" by (auto simp: boost_ops_def)
qed

text \<open>A pool that keeps the set of its free messages and hands out the smallest meets the demands.\<close>

lemma boost_pool_smallest:
  "message_pool (boost_ops (\<lambda>(n, F). if F = {} then (None, n, F) else (Some (Min F), n, F - {Min F}))
      (\<lambda>obj (n, F). (n, case obj of None \<Rightarrow> F | Some m \<Rightarrow> insert m F))) snd fst (\<lambda>(n, F). finite F)"
proof (rule boost_pool_contract)
  fix p :: "nat \<times> nat set" assume "case p of (n, F) \<Rightarrow> finite F" and "snd p \<noteq> {}"
  then obtain n F where p: "p = (n, F)" "finite F" "F \<noteq> {}" by (cases p) simp
  with Min_in [OF p(2,3)] show "\<exists>m p'. (case p of (n, F) \<Rightarrow> if F = {} then (None, n, F) else (Some (Min F), n, F - {Min F})) =
      (Some m, p') \<and> m \<in> snd p \<and> (case p' of (n, F) \<Rightarrow> finite F) \<and> snd p' = snd p - {m} \<and> fst p' = fst p"
    by (intro exI [of _ "Min F"] exI [of _ "(n, F - {Min F})"]) simp
qed auto

end
