(* ===== verification/Features.thy ===== *)
theory Features
  imports Floats
begin

unbundle bit_operations_syntax

text \<open>
  The demonstrations of \<^verbatim>\<open>c++20/cppFeatures.cpp\<close>, \<^verbatim>\<open>c++20/Forward.cpp\<close> and the challenges 2, 5 and 6:
  generators, ranges, a perfect-forwarding container and arithmetic on \<open>int\<close>.  Random numbers are
  inputs, what is printed is a list, a range that is consumed at once is the list of its values and
  an observable is the sequence of the calls its subscriber gets.
\<close>

subsection \<open>Evaluation at compile time and at run time\<close>

definition compute :: "int \<Rightarrow> int res" where
  "compute x = c_int (x * x)"

text \<open>\<open>compute(5 + std::rand())\<close>: the square overflows for all but the smallest random numbers.\<close>

definition compute_runtime :: "int \<Rightarrow> int res" where
  "compute_runtime r = bind_res (c_int (5 + r)) compute"

lemma compute_constant: "compute 5 = Inr 25"
  by (simp add: compute_def c_int_eval)

lemma compute_runtime_ok_iff:
  assumes "0 \<le> r"
  shows "compute_runtime r = Inr ((5 + r) * (5 + r)) \<longleftrightarrow> r \<le> 46335"
proof
  assume "r \<le> 46335"
  then have "(5 + r) * (5 + r) \<le> 46340 * 46340" using assms by (intro mult_mono) simp_all
  moreover have "0 \<le> (5 + r) * (5 + r)" using assms by simp
  ultimately show "compute_runtime r = Inr ((5 + r) * (5 + r))"
    using assms \<open>r \<le> 46335\<close> unfolding compute_runtime_def compute_def c_int_eval
    by (auto intro: order_trans [of _ 0])
next
  assume ok: "compute_runtime r = Inr ((5 + r) * (5 + r))"
  show "r \<le> 46335"
  proof (rule ccontr)
    assume "\<not> r \<le> 46335"
    then have "46341 * 46341 \<le> (5 + r) * (5 + r)" by (intro mult_mono) simp_all
    with ok show False by (auto simp: compute_runtime_def compute_def int_max_def)
  qed
qed

subsection \<open>Ranges\<close>

text \<open>\<open>iota(1, 18) | filter((p & (p - 1)) == 0)\<close>.\<close>

definition powers_of_two :: "int list" where
  "powers_of_two = filter (\<lambda>p. p AND (p - 1) = 0) [1..17]"

lemma powers_of_two_eq: "powers_of_two = [1, 2, 4, 8, 16]"
  by code_simp

text \<open>The odd numbers below 13, squared and added up from the left.\<close>

definition squares :: "int list" where
  "squares = map (\<lambda>n. n * n) (filter (\<lambda>n. n mod 2 \<noteq> 0) [1..12])"

definition accumulate :: "int list \<Rightarrow> int \<Rightarrow> int res" where
  "accumulate xs init = foldl (\<lambda>acc x. bind_res acc (\<lambda>a. c_int (a + x))) (Inr init) xs"

definition sum_of_squares :: "int res" where
  "sum_of_squares = accumulate squares 0"

lemma sum_of_squares_eq: "sum_of_squares = Inr 286" "sum_of_squares \<noteq> accumulate (map (\<lambda>n. n * n) [2, 4, 6, 8, 10, 12]) 0"
  by code_simp+

lemma accumulate_ok:
  "\<forall>x \<in> set xs. 0 \<le> x \<Longrightarrow> 0 \<le> init \<Longrightarrow> init + sum_list xs \<le> int_max \<Longrightarrow> accumulate xs init = Inr (init + sum_list xs)"
proof (induction xs arbitrary: init)
  case (Cons x xs)
  have "0 \<le> sum_list xs" using Cons.prems(1) by (intro sum_list_nonneg) simp
  then have c: "c_int (init + x) = Inr (init + x)" using Cons.prems by (simp add: int_min_def)
  show ?case using Cons.IH [of "init + x"] Cons.prems c
    by (simp add: accumulate_def add.assoc del: c_int_Inr_iff)
qed (simp add: accumulate_def)

text \<open>Each number is replaced by its factorial, which \<open>tgamma(n + 1)\<close> is for small \<open>n\<close>.\<close>

definition factorials :: "nat list \<Rightarrow> nat list" where
  "factorials nums2 = map fact nums2"

lemma factorials_eq: "factorials [1, 2, 3, 4, 5] = [1, 2, 6, 24, 120]"
  by (simp add: factorials_def fact_numeral)

subsection \<open>Observables\<close>

text \<open>
  What \<open>generate_values\<close> tells its subscriber.  The operators of the library that \<open>stream\<close> chains are
  parameters, on the sequence of these calls.
\<close>

datatype 'a observed = Next 'a | Completed

definition generate_values :: "int observed list" where
  "generate_values = map Next [1..10] @ [Completed]"

definition stream_events :: "((int \<Rightarrow> bool) \<Rightarrow> int observed list \<Rightarrow> int observed list) \<Rightarrow>
    ((int \<Rightarrow> int) \<Rightarrow> int observed list \<Rightarrow> int observed list) \<Rightarrow> int observed list" where
  "stream_events rx_filter rx_transform =
     rx_transform (\<lambda>v. v * 10) (rx_filter (\<lambda>v. v mod 2 = 0) generate_values)"

lemma stream_events_eq:
  assumes "\<And>P xs. rx_filter P (map Next xs @ [Completed]) = map Next (filter P xs) @ [Completed]"
    and "\<And>f xs. rx_transform f (map Next xs @ [Completed]) = map Next (map f xs) @ [Completed]"
  shows "stream_events rx_filter rx_transform = map Next [20, 40, 60, 80, 100] @ [Completed]"
proof -
  have "map (\<lambda>v. v * 10) (filter (\<lambda>v. v mod 2 = 0) [1..10]) = [20, 40, 60, 80, 100 :: int]" by code_simp
  then show ?thesis by (simp add: stream_events_def generate_values_def assms del: map_map)
qed

subsection \<open>Generators\<close>

text \<open>
  The values that \<open>count_to23\<close> yields from \<open>i\<close> on, and the fault that ends it, if any: after the
  largest \<open>int\<close> the increment overflows.
\<close>

function count_up :: "int \<Rightarrow> int \<Rightarrow> int list \<times> fault option" where
  "count_up i n =
     (if n < i then ([], None)
      else if i = int_max then ([i], Some (UB SignedOverflow))
      else let (ys, e) = count_up (i + 1) n in (i # ys, e))"
  by auto
termination by (relation "measure (\<lambda>(i, n). nat (n + 1 - i))") auto

declare count_up.simps [simp del]

definition count_to23 :: "int \<Rightarrow> int list \<times> fault option" where
  "count_to23 n = count_up 1 n"

lemma count_up_all: "n < int_max \<Longrightarrow> count_up i n = ([i..n], None)"
proof (induction i n rule: count_up.induct)
  case (1 i n)
  show ?case
  proof (cases "n < i")
    case False
    with 1 show ?thesis by (subst count_up.simps) (simp add: upto_rec1 [of i])
  qed (simp add: count_up.simps)
qed

text \<open>A range-based loop resumes the generator for every value.\<close>

datatype gen_line = Yield int | Generated int

definition count_lines :: "int \<Rightarrow> gen_line list" where
  "count_lines n = concat (map (\<lambda>i. [Yield i, Generated i]) (fst (count_to23 n)))"

lemma count_lines_five:
  "count_lines 5 = concat (map (\<lambda>i. [Yield i, Generated i]) [1, 2, 3, 4, 5])"
  by (simp add: count_lines_def count_to23_def count_up_all int_max_def upto_rec1)

text \<open>
  \<open>gen_rand\<close> never ends.  \<open>begin\<close> runs it to its first value, and each of the \<open>n\<close> rounds prints the
  current value and runs it to the next, so \<open>n\<close> rounds draw \<open>n + 1\<close> random numbers.
\<close>

fun rand_rounds :: "nat \<Rightarrow> int \<Rightarrow> int list \<Rightarrow> gen_line list option" where
  "rand_rounds 0 x draws = Some []"
| "rand_rounds (Suc n) x [] = None"
| "rand_rounds (Suc n) x (r # draws) =
     map_option (\<lambda>out. Generated x # Yield (r mod 100) # out) (rand_rounds n (r mod 100) draws)"

definition gen_rand_lines :: "int list \<Rightarrow> gen_line list option" where
  "gen_rand_lines draws = (case draws of
     [] \<Rightarrow> None
   | r # rs \<Rightarrow> map_option (\<lambda>out. Yield (r mod 100) # out) (rand_rounds 15 (r mod 100) rs))"

fun shown :: "gen_line list \<Rightarrow> int list" where
  "shown [] = []"
| "shown (Generated x # ls) = x # shown ls"
| "shown (Yield x # ls) = shown ls"

lemma rand_rounds_shown:
  "length draws = n \<Longrightarrow> \<exists>out. rand_rounds n x draws = Some out \<and> shown out @ [last (x # map (\<lambda>r. r mod 100) draws)]
    = x # map (\<lambda>r. r mod 100) draws"
proof (induction n x draws rule: rand_rounds.induct)
  case (3 n x r draws)
  then obtain out where "rand_rounds n (r mod 100) draws = Some out"
      "shown out @ [last (r mod 100 # map (\<lambda>r. r mod 100) draws)] = r mod 100 # map (\<lambda>r. r mod 100) draws" by auto
  then show ?case by (auto split: if_splits)
qed simp_all

lemma gen_rand_shows:
  assumes "length draws = 16"
  shows "\<exists>out. gen_rand_lines draws = Some out \<and> shown out = map (\<lambda>r. r mod 100) (take 15 draws)"
proof -
  obtain r rs where d: "draws = r # rs" "length rs = 15" using assms by (cases draws) auto
  obtain out where out: "rand_rounds 15 (r mod 100) rs = Some out"
      "shown out @ [last (r mod 100 # map (\<lambda>r. r mod 100) rs)] = map (\<lambda>r. r mod 100) draws"
    using rand_rounds_shown [OF d(2), of "r mod 100"] d(1) by auto
  have "shown out = butlast (map (\<lambda>r. r mod 100) draws)" using out(2) by (metis butlast_snoc)
  then have "shown out = map (\<lambda>r. r mod 100) (take 15 draws)"
    using assms by (simp add: butlast_conv_take take_map)
  then show ?thesis using out(1) d(1) by (simp add: gen_rand_lines_def)
qed

subsection \<open>Constrained templates\<close>

text \<open>\<open>square\<close> and \<open>square_sfinae\<close> on \<open>int\<close>, and \<open>squareV2\<close> on \<open>double\<close>.\<close>

definition square :: "int \<Rightarrow> int res" where
  "square v = c_int (v * v)"

definition square_sfinae :: "int \<Rightarrow> int res" where
  "square_sfinae v = c_int (v * v)"

definition squareV2 :: "dbl \<Rightarrow> dbl" where
  "squareV2 v = dbl_mul v v"

lemma square_four: "square 4 = Inr 16" "square_sfinae = square"
  by (simp_all add: square_def square_sfinae_def c_int_eval fun_eq_iff)

subsection \<open>A container that forwards\<close>

record hello =
  h_a :: int
  h_b :: int
  h_c :: dbl

definition emplace :: "int \<Rightarrow> int \<Rightarrow> dbl \<Rightarrow> hello list \<Rightarrow> hello list" where
  "emplace a b c lst = lst @ [\<lparr>h_a = a, h_b = b, h_c = c\<rparr>]"

definition hello_print :: "hello list \<Rightarrow> (int \<times> int \<times> dbl) list" where
  "hello_print lst = map (\<lambda>h. (h_a h, h_b h, h_c h)) lst"

lemma hello_main:
  "hello_print (emplace 14 15 (Dbl 33 (- 1)) (emplace 4 5 (Dbl 13 (- 1)) [])) =
   [(4, 5, Dbl 13 (- 1)), (14, 15, Dbl 33 (- 1))]"
  by (simp add: hello_print_def emplace_def)

end
