(* ===== verification/Spec2Isabelle.thy ===== *)
theory Spec2Isabelle
  imports SpscRace MpmcQueue PoolRace Pipeline Sockets AsyncLogger PacketReceiver VectorTests MockBooks
    InterviewQueues Feeds SmartPointers MoveStrings Actors ThreadTests Puzzles HashMapVariants OrderBook
    Adapters Features
begin

text \<open>
  A verification development of the C++ code of the repository: the low-latency trading library
  \<^verbatim>\<open>HFT\<close> (queues, hash maps, memory pools, an order book, a logger, sockets, a market-data server
  and its receiver), the data structures and exercises of \<^verbatim>\<open>c++20\<close> and \<^verbatim>\<open>Study\<close>, and the
  puzzles of \<^verbatim>\<open>Leet\<close>.

  \<^bold>\<open>How the code is modelled.\<close>  An object is a record, a member function takes the record and
  returns the changed one.  What can go wrong is a value (\<open>'a res\<close>, theory \<open>Prelude\<close>): an
  exception with its message, undefined behaviour of some kind, or a loop that never ends.
  \<open>size_t\<close> and \<open>uint64_t\<close> are 64-bit words that wrap; \<open>int\<close> is an \<open>int\<close> whose overflow
  is undefined behaviour; \<open>double\<close> is a dyadic number with rounded products (\<open>Floats\<close>).  Arrays
  and vectors are lists with checked access.  Pointers are positions in an explicit heap wherever
  aliasing or lifetime matters.  Everything a proof uses of a \<^verbatim>\<open>std\<close> container is written out; the
  order in which a hash container is traversed and the hash function are parameters.

  \<^bold>\<open>Theories and sources.\<close>
  \<^item> \<open>FifoQueue\<close>, \<open>SpscQueue\<close>, \<open>SpscRace\<close>, \<open>MpmcQueue\<close>: \<^verbatim>\<open>HFT/Queue.hpp\<close>.  \<open>Ring\<close> holds the
    lemmas on cyclic buffers.  The locale \<open>fifo_queue\<close> is the contract behind the concept \<open>MyQ\<close>;
    its extension \<open>bounded_queue\<close>, interpreted on the single-producer ring, says when a call is
    refused or finds nothing.  The races are step models: each access to a
    shared variable is a step, and threads interleave in any order.  The single-producer ring is
    correct in every interleaving that keeps two cells free, and the full ring has a race; the
    multi-producer queue returns the value of each ticket exactly once.
  \<^item> \<open>KeyedStore\<close>, \<open>ChainingMap\<close>, \<open>FixedPoolMap\<close>, \<open>OpenAddressing\<close>, \<open>ProbeFaults\<close>, \<open>HashMapVariants\<close>:
    \<^verbatim>\<open>HFT/HashMap.hpp\<close>, \<^verbatim>\<open>c++20/HashTables.cpp\<close> and \<^verbatim>\<open>HFT/test/TestHashMap.cpp\<close>.  The locale
    \<open>keyed_store\<close> and its extension \<open>overwriting_store\<close> are the contract behind the concept
    \<open>MyHM\<close>; each map refines a partial function, the fixed pool leaks no node, each
    \<^verbatim>\<open>c++20\<close> variant agrees with its \<^verbatim>\<open>HFT\<close> counterpart, and where a map fails (tombstones, a
    bucket count that is not a power of two, inserting a key twice) a theorem shows how.
  \<^item> \<open>OrderBook\<close>: \<^verbatim>\<open>HFT/OrderBook.hpp\<close> over any map with the contract (locale \<open>order_store\<close>),
    interpreted on the fixed-pool map.  In every state reached through allowed operations
    (\<open>book_allowed\<close>: no update to zero, no live id placed again, totals that fit an \<open>int\<close>) the levels are the sums of the live orders and
    the best indices are right, and each operation does what the abstract book does.
  \<^item> \<open>MemoryPools\<close>, \<open>TaggedPool\<close>, \<open>PoolRace\<close>: \<^verbatim>\<open>HFT/MemoryPool.hpp\<close>.  The locale
    \<open>message_pool\<close> is the contract, interpreted on the three pools and on the free list of
    \<^verbatim>\<open>c++20/LockFreeQueue.cpp\<close>; concurrently, the tagged pool hands no message out twice, and the
    array pool does.
  \<^item> \<open>Adapters\<close>: the queues and the pool of these headers that forward to a library.  The library's
    operations are parameters, and lemmas say what they must do for the contracts to hold.
  \<^item> \<open>AsyncLogger\<close>, \<open>Sockets\<close>: \<^verbatim>\<open>HFT/AsyncLogger.hpp\<close> over any pool and queue, and the
    ownership of descriptors in \<^verbatim>\<open>HFT/Socket.hpp\<close>, for clients that give a descriptor to one object.
  \<^item> \<open>TickerServer\<close>, \<open>TradeReceiver\<close>, \<open>PacketReceiver\<close>: \<^verbatim>\<open>HFT/TickerServer\<close>, the layouts of
    \<^verbatim>\<open>HFT/ITCHMessages.hpp\<close>, and \<^verbatim>\<open>HFT/hft_dpdk.cpp\<close>.  The server's replies are the input of the
    receiver's recovery, so the two together deliver the stored messages in order; what a lost
    connection, a bad request or a full queue does is proved as well.
  \<^item> \<open>Pipeline\<close>: the receiver program as a whole, its threads as events on the queues and the pool
    they share (locale \<open>receiver_parts\<close>, interpreted on the ring and on the tagged pool).  On the
    queue between the threads the events are the single accesses of \<open>SpscRace\<close>; a call of the pool is
    one event.  Every message of the pool is accounted for in every run in which the producer does
    not overrun a cell that the consumer has claimed; a run with such an overrun, which the code does
    not exclude, loses a message.  Since nothing empties the queue that the sequencer fills, the pool
    runs dry.
  \<^item> \<open>HeapVector\<close>, \<open>VectorTests\<close>, \<open>SmartPointers\<close>, \<open>MoveStrings\<close>, \<open>Actors\<close>, \<open>ThreadTests\<close>: \<^verbatim>\<open>Study\<close>,
    and the generator of \<^verbatim>\<open>c++20/cpp20Coroutines.cpp\<close>.  The vector and the smart pointers run on heaps on
    which a use after deletion is undefined behaviour; stop tokens, a timed wait and futures are
    state machines of the threads.
  \<^item> \<open>MockBooks\<close>, \<open>InterviewQueues\<close>, \<open>Feeds\<close>, \<open>Puzzles\<close>: the other programs of \<^verbatim>\<open>c++20\<close> and those
    of \<^verbatim>\<open>Leet\<close>: two order books, a snapshot ring, a blocking queue with its sleeping threads, a
    matching book, news feeds as heaps and merges, balancing a search tree, adding digit by digit.
  \<^item> \<open>Features\<close>: the generators, ranges and constrained functions of \<^verbatim>\<open>c++20/cppFeatures.cpp\<close>,
    \<^verbatim>\<open>Forward.cpp\<close> and the challenges 2, 5 and 6.

  \<^bold>\<open>Groups of lemmas.\<close>  Each component theory gives its state and operations in the order of the
  code, then an invariant with one preservation lemma per operation, then what every branch of an
  operation returns, and last the properties, which are the theorems numbered as claims.
  Executions of a concrete program (\<open>main\<close> functions, tests, counterexamples) are lemmas
  evaluated in the kernel.

  \<^bold>\<open>Bounds and fuel.\<close>  A search along the linked nodes of a fixed pool is given as many steps as the
  pool has nodes, and one round an open-addressing table as many as it has slots; after that it
  would repeat itself, which is the value \<open>Diverges\<close>: well-formed states never need more, and
  \<open>oa_claim_round\<close> shows that a probing loop that is not done after one round is not done after any
  number of steps.  The loops over iterators and over the generator take fuel too, with lemmas
  (\<open>actor_loops\<close>, \<open>count_to_repeats_last\<close>) that one round more than there are elements, or three
  for the generator, is enough.  All other loops are structural or have a measure.  Counters of
  \<open>int\<close> need runs shorter than \<open>2 ^ 31\<close>, which the theorems state.

  \<^bold>\<open>Not modelled.\<close>  The vendored \<^verbatim>\<open>moodycamel\<close> queue and the pool that needs folly; the
  Python scripts; the tuples of boost::hana and the timed observable of the challenges; the UDP
  client, which prints what it receives for ever; \<^verbatim>\<open>Leet/longest_parlindrome.cpp\<close>, which does not
  compile; the test drivers that only measure time.  Weak memory is out of scope: a step of a
  concurrent model sees all earlier steps.  Printing, clocks, sleeping and random numbers are
  left out or are inputs.
\<close>

end
